(* ===== verification/Prelude.thy ===== *)
theory Prelude
  imports Main "HOL-Library.Word"
begin

text \<open>
  Shared material of the development: the names of the machine types, the
  fact collections the component theories fill, and generic lemmas on lists
  and words.
\<close>

unbundle bit_operations_syntax

section \<open>Machine types\<close>

type_synonym byte = "8 word"
type_synonym word32 = "32 word"
type_synonym word64 = "64 word"

section \<open>Fact collections\<close>

named_theorems abs_simps "rewrite rules that relate a component's state to its abstraction"
named_theorems inv_intros "introduction rules for the components' invariants"

section \<open>Overwriting a segment of a buffer (memcpy)\<close>

text \<open>\<open>memcpy (buf + off) src n\<close> with \<open>buf\<close> an array: the bytes at \<open>off ..< off + n\<close> are replaced.\<close>

definition memcpy_at :: "'a list \<Rightarrow> nat \<Rightarrow> 'a list \<Rightarrow> nat \<Rightarrow> 'a list" where
  "memcpy_at buf off src n = take off buf @ take n src @ drop (off + n) buf"

lemma length_memcpy_at [simp]:
  "off + n \<le> length buf \<Longrightarrow> n \<le> length src \<Longrightarrow> length (memcpy_at buf off src n) = length buf"
  by (simp add: memcpy_at_def)

lemma take_memcpy_at:
  "off + n \<le> length buf \<Longrightarrow> n \<le> length src \<Longrightarrow>
   take (off + n) (memcpy_at buf off src n) = take off buf @ take n src"
  by (simp add: memcpy_at_def)

end
