(* ===== verification/Interfaces.thy ===== *)
theory Interfaces
  imports Prelude
begin

text \<open>
  The contracts between components, as locales: the operations a client calls
  and the laws it relies on.  Each is interpreted on the model's definitions in
  the theory of the component that provides it.
\<close>

section \<open>A streaming digest\<close>

text \<open>
  What \<open>get_md5sum\<close> (\<open>src/util.cpp\<close>) relies on: a state that absorbs data piece
  by piece and whose digest depends on the absorbed bytes only.
\<close>

locale digest_stream =
  fixes init :: "'s \<Rightarrow> 's"
    and append :: "'s \<Rightarrow> byte list \<Rightarrow> int \<Rightarrow> 's"
    and finish :: "'s \<Rightarrow> 's \<times> byte list"
    and ready :: "'s \<Rightarrow> bool"
    and absorbed :: "'s \<Rightarrow> byte list \<Rightarrow> bool"
    and digest :: "byte list \<Rightarrow> byte list"
  assumes init_absorbed: "ready s \<Longrightarrow> absorbed (init s) []"
    and append_absorbed: "absorbed s m \<Longrightarrow> absorbed (append s d (int (length d))) (m @ d)"
    and finish_digest: "absorbed s m \<Longrightarrow> snd (finish s) = digest m"
begin

lemma fold_absorbed:
  "absorbed s m \<Longrightarrow> absorbed (fold (\<lambda>d s. append s d (int (length d))) ds s) (m @ concat ds)"
proof (induction ds arbitrary: s m)
  case (Cons d ds)
  from Cons.IH [OF append_absorbed [OF Cons.prems]] show ?case by simp
qed simp

text \<open>The digest of a message does not depend on how it was cut into pieces.\<close>

lemma digest_of_pieces:
  "ready s \<Longrightarrow> snd (finish (fold (\<lambda>d s. append s d (int (length d))) ds (init s))) = digest (concat ds)"
  using finish_digest [OF fold_absorbed [OF init_absorbed]] by simp

end

section \<open>A map from names\<close>

text \<open>
  What the users of a configuration group rely on: a store that is, to whoever
  looks members up, a finite map.  \<open>add\<close> may refuse a key, \<open>del\<close> removes the
  member a (possibly longer) name denotes.
\<close>

locale name_map =
  fixes valid :: "'g \<Rightarrow> bool"
    and lookup :: "'g \<Rightarrow> 'k \<Rightarrow> 'v option"
    and add :: "'k \<Rightarrow> 't \<Rightarrow> 'g \<Rightarrow> 'g"
    and del :: "'k \<Rightarrow> 'g \<Rightarrow> 'g"
    and allowed :: "'k \<Rightarrow> 't \<Rightarrow> bool"
    and fresh :: "'k \<Rightarrow> 't \<Rightarrow> 'v"
    and key :: "'k \<Rightarrow> 'k"
  assumes add_valid: "valid g \<Longrightarrow> valid (add k t g)"
    and add_lookup: "valid g \<Longrightarrow> lookup (add k t g)
      = (if allowed k t \<and> lookup g k = None then (lookup g)(k \<mapsto> fresh k t) else lookup g)"
    and del_valid: "valid g \<Longrightarrow> valid (del k g)"
    and del_lookup: "valid g \<Longrightarrow> lookup (del k g) = (lookup g)(key k := None)"
    and allowed_key: "allowed k t \<Longrightarrow> key k = k"
begin

text \<open>Adding and removing a new member changes no lookup.\<close>

lemma add_del:
  assumes "valid g" "allowed k t" "lookup g k = None"
  shows "lookup (del k (add k t g)) = lookup g"
proof -
  have "lookup (del k (add k t g)) = ((lookup g)(k \<mapsto> fresh k t))(k := None)"
    using assms by (simp add: add_lookup add_valid del_lookup allowed_key)
  then show ?thesis using assms(3) by (simp add: fun_upd_idem_iff)
qed

text \<open>A second addition of the same name changes nothing.\<close>

lemma add_twice:
  "valid g \<Longrightarrow> lookup (add k u (add k t g)) = (if allowed k t \<and> lookup g k = None
     then lookup (add k t g) else lookup (add k u g))"
  by (auto simp: add_lookup add_valid)

text \<open>A sequence of additions (\<open>Inl\<close>) and removals (\<open>Inr\<close>), on the store and on the map.\<close>

definition run :: "('k \<times> 't + 'k) list \<Rightarrow> 'g \<Rightarrow> 'g" where
  "run ops = fold (\<lambda>opn. case opn of Inl (k, t) \<Rightarrow> add k t | Inr k \<Rightarrow> del k) ops"

definition run_map :: "('k \<times> 't + 'k) list \<Rightarrow> ('k \<rightharpoonup> 'v) \<Rightarrow> ('k \<rightharpoonup> 'v)" where
  "run_map ops = fold (\<lambda>opn m. case opn of
       Inl (k, t) \<Rightarrow> if allowed k t \<and> m k = None then m(k \<mapsto> fresh k t) else m
     | Inr k \<Rightarrow> m(key k := None)) ops"

lemma run_refines:
  "valid g \<Longrightarrow> valid (run ops g) \<and> lookup (run ops g) = run_map ops (lookup g)"
proof (induction ops arbitrary: g)
  case (Cons opn ops)
  show ?case
  proof (cases opn)
    case (Inl kt)
    then show ?thesis
      using Cons.IH [OF add_valid [OF Cons.prems]] Cons.prems
      by (cases kt) (auto simp: run_def run_map_def add_lookup)
  next
    case (Inr k)
    then show ?thesis
      using Cons.IH [OF del_valid [OF Cons.prems]] Cons.prems
      unfolding del_lookup [OF Cons.prems] by (simp add: run_def run_map_def del: fun_upd_apply)
  qed
qed (simp add: run_def run_map_def)

end

end
