(* ===== verification/Md5.thy ===== *)
theory Md5
  imports Prelude Interfaces
begin

text \<open>
  The MD5 implementation of \<open>src/md5.h\<close> and \<open>src/md5.c\<close>: the state record, the
  block function \<open>md5_process\<close> with its 64 unrolled \<open>SET\<close> operations (kept as the
  four lists of macro calls of the source, executed by \<open>exec_set\<close>), and the
  streaming interface \<open>md5_init\<close>, \<open>md5_append\<close>, \<open>md5_finish\<close>.  The reference
  specification is the loop of RFC 1321 over its index and shift tables
  (\<open>rfc_compress\<close>) and the padding of the whole message (\<open>rfc_md5\<close>); the
  lemmas lead to \<open>md5_absorbed\<close>, the abstraction relation between a state and
  the message it has absorbed.
\<close>

section \<open>State\<close>

text \<open>The four registers \<open>a, b, c, d\<close> (the array \<open>abcd\<close>).\<close>

record md5_regs =
  reg_a :: word32
  reg_b :: word32
  reg_c :: word32
  reg_d :: word32

record md5_state =
  count0 :: word32   \<comment> \<open>\<open>count[0]\<close>: message length in bits, low word\<close>
  count1 :: word32   \<comment> \<open>\<open>count[1]\<close>\<close>
  abcd :: md5_regs
  buf :: "byte list" \<comment> \<open>\<open>buf[64]\<close>\<close>

section \<open>The block function\<close>

definition T_MASK :: word32 where
  "T_MASK = NOT 0"

definition T_table :: "word32 list" where
  "T_table = [
   T_MASK XOR 0x28955b87,
   T_MASK XOR 0x173848a9,
   0x242070db,
   T_MASK XOR 0x3e423111,
   T_MASK XOR 0x0a83f050,
   0x4787c62a,
   T_MASK XOR 0x57cfb9ec,
   T_MASK XOR 0x02b96afe,
   0x698098d8,
   T_MASK XOR 0x74bb0850,
   T_MASK XOR 0x0000a44e,
   T_MASK XOR 0x76a32841,
   0x6b901122,
   T_MASK XOR 0x02678e6c,
   T_MASK XOR 0x5986bc71,
   0x49b40821,
   T_MASK XOR 0x09e1da9d,
   T_MASK XOR 0x3fbf4cbf,
   0x265e5a51,
   T_MASK XOR 0x16493855,
   T_MASK XOR 0x29d0efa2,
   0x02441453,
   T_MASK XOR 0x275e197e,
   T_MASK XOR 0x182c0437,
   0x21e1cde6,
   T_MASK XOR 0x3cc8f829,
   T_MASK XOR 0x0b2af278,
   0x455a14ed,
   T_MASK XOR 0x561c16fa,
   T_MASK XOR 0x03105c07,
   0x676f02d9,
   T_MASK XOR 0x72d5b375,
   T_MASK XOR 0x0005c6bd,
   T_MASK XOR 0x788e097e,
   0x6d9d6122,
   T_MASK XOR 0x021ac7f3,
   T_MASK XOR 0x5b4115bb,
   0x4bdecfa9,
   T_MASK XOR 0x0944b49f,
   T_MASK XOR 0x4140438f,
   0x289b7ec6,
   T_MASK XOR 0x155ed805,
   T_MASK XOR 0x2b10cf7a,
   0x04881d05,
   T_MASK XOR 0x262b2fc6,
   T_MASK XOR 0x1924661a,
   0x1fa27cf8,
   T_MASK XOR 0x3b53a99a,
   T_MASK XOR 0x0bd6ddbb,
   0x432aff97,
   T_MASK XOR 0x546bdc58,
   T_MASK XOR 0x036c5fc6,
   0x655b59c3,
   T_MASK XOR 0x70f3336d,
   T_MASK XOR 0x00100b82,
   T_MASK XOR 0x7a7ba22e,
   0x6fa87e4f,
   T_MASK XOR 0x01d3191f,
   T_MASK XOR 0x5cfebceb,
   0x4e0811a1,
   T_MASK XOR 0x08ac817d,
   T_MASK XOR 0x42c50dca,
   0x2ad7d2bb,
   T_MASK XOR 0x14792c6e]"

definition T :: "nat \<Rightarrow> word32" where
  "T n = T_table ! (n - 1)"

definition ROTATE_LEFT :: "word32 \<Rightarrow> nat \<Rightarrow> word32" where
  "ROTATE_LEFT x n = push_bit n x OR drop_bit (32 - n) x"

text \<open>
  The words of a block: the little-endian machine reads the 64 bytes in place,
  the big-endian branch arranges them with shifts; both give this value.
\<close>

definition block_word :: "byte list \<Rightarrow> nat \<Rightarrow> word32" where
  "block_word data i =
     ucast (data ! (4 * i)) + push_bit 8 (ucast (data ! (4 * i + 1)))
     + push_bit 16 (ucast (data ! (4 * i + 2))) + push_bit 24 (ucast (data ! (4 * i + 3)))"

definition F :: "word32 \<Rightarrow> word32 \<Rightarrow> word32 \<Rightarrow> word32" where
  "F x y z = (x AND y) OR (NOT x AND z)"

definition G :: "word32 \<Rightarrow> word32 \<Rightarrow> word32 \<Rightarrow> word32" where
  "G x y z = (x AND z) OR (y AND NOT z)"

definition H :: "word32 \<Rightarrow> word32 \<Rightarrow> word32 \<Rightarrow> word32" where
  "H x y z = x XOR y XOR z"

definition I :: "word32 \<Rightarrow> word32 \<Rightarrow> word32 \<Rightarrow> word32" where
  "I x y z = y XOR (x OR NOT z)"

datatype reg = Ra | Rb | Rc | Rd

text \<open>One macro call \<open>SET(a, b, c, d, k, s, Ti)\<close>, and its effect on the registers.\<close>

datatype set_op = SET reg reg reg reg nat nat word32

fun reg_get :: "reg \<Rightarrow> md5_regs \<Rightarrow> word32" where
  "reg_get Ra r = reg_a r"
| "reg_get Rb r = reg_b r"
| "reg_get Rc r = reg_c r"
| "reg_get Rd r = reg_d r"

fun reg_put :: "reg \<Rightarrow> word32 \<Rightarrow> md5_regs \<Rightarrow> md5_regs" where
  "reg_put Ra v r = r\<lparr>reg_a := v\<rparr>"
| "reg_put Rb v r = r\<lparr>reg_b := v\<rparr>"
| "reg_put Rc v r = r\<lparr>reg_c := v\<rparr>"
| "reg_put Rd v r = r\<lparr>reg_d := v\<rparr>"

fun exec_set :: "(word32 \<Rightarrow> word32 \<Rightarrow> word32 \<Rightarrow> word32) \<Rightarrow> (nat \<Rightarrow> word32) \<Rightarrow> set_op \<Rightarrow>
    md5_regs \<Rightarrow> md5_regs" where
  "exec_set f X (SET a b c d k s Ti) r =
     (let t = reg_get a r + f (reg_get b r) (reg_get c r) (reg_get d r) + X k + Ti
      in reg_put a (ROTATE_LEFT t s + reg_get b r) r)"

definition round1 :: "set_op list" where
  "round1 = [
   SET Ra Rb Rc Rd  0  7 (T 1),
   SET Rd Ra Rb Rc  1 12 (T 2),
   SET Rc Rd Ra Rb  2 17 (T 3),
   SET Rb Rc Rd Ra  3 22 (T 4),
   SET Ra Rb Rc Rd  4  7 (T 5),
   SET Rd Ra Rb Rc  5 12 (T 6),
   SET Rc Rd Ra Rb  6 17 (T 7),
   SET Rb Rc Rd Ra  7 22 (T 8),
   SET Ra Rb Rc Rd  8  7 (T 9),
   SET Rd Ra Rb Rc  9 12 (T 10),
   SET Rc Rd Ra Rb 10 17 (T 11),
   SET Rb Rc Rd Ra 11 22 (T 12),
   SET Ra Rb Rc Rd 12  7 (T 13),
   SET Rd Ra Rb Rc 13 12 (T 14),
   SET Rc Rd Ra Rb 14 17 (T 15),
   SET Rb Rc Rd Ra 15 22 (T 16)]"

definition round2 :: "set_op list" where
  "round2 = [
   SET Ra Rb Rc Rd  1  5 (T 17),
   SET Rd Ra Rb Rc  6  9 (T 18),
   SET Rc Rd Ra Rb 11 14 (T 19),
   SET Rb Rc Rd Ra  0 20 (T 20),
   SET Ra Rb Rc Rd  5  5 (T 21),
   SET Rd Ra Rb Rc 10  9 (T 22),
   SET Rc Rd Ra Rb 15 14 (T 23),
   SET Rb Rc Rd Ra  4 20 (T 24),
   SET Ra Rb Rc Rd  9  5 (T 25),
   SET Rd Ra Rb Rc 14  9 (T 26),
   SET Rc Rd Ra Rb  3 14 (T 27),
   SET Rb Rc Rd Ra  8 20 (T 28),
   SET Ra Rb Rc Rd 13  5 (T 29),
   SET Rd Ra Rb Rc  2  9 (T 30),
   SET Rc Rd Ra Rb  7 14 (T 31),
   SET Rb Rc Rd Ra 12 20 (T 32)]"

definition round3 :: "set_op list" where
  "round3 = [
   SET Ra Rb Rc Rd  5  4 (T 33),
   SET Rd Ra Rb Rc  8 11 (T 34),
   SET Rc Rd Ra Rb 11 16 (T 35),
   SET Rb Rc Rd Ra 14 23 (T 36),
   SET Ra Rb Rc Rd  1  4 (T 37),
   SET Rd Ra Rb Rc  4 11 (T 38),
   SET Rc Rd Ra Rb  7 16 (T 39),
   SET Rb Rc Rd Ra 10 23 (T 40),
   SET Ra Rb Rc Rd 13  4 (T 41),
   SET Rd Ra Rb Rc  0 11 (T 42),
   SET Rc Rd Ra Rb  3 16 (T 43),
   SET Rb Rc Rd Ra  6 23 (T 44),
   SET Ra Rb Rc Rd  9  4 (T 45),
   SET Rd Ra Rb Rc 12 11 (T 46),
   SET Rc Rd Ra Rb 15 16 (T 47),
   SET Rb Rc Rd Ra  2 23 (T 48)]"

definition round4 :: "set_op list" where
  "round4 = [
   SET Ra Rb Rc Rd  0  6 (T 49),
   SET Rd Ra Rb Rc  7 10 (T 50),
   SET Rc Rd Ra Rb 14 15 (T 51),
   SET Rb Rc Rd Ra  5 21 (T 52),
   SET Ra Rb Rc Rd 12  6 (T 53),
   SET Rd Ra Rb Rc  3 10 (T 54),
   SET Rc Rd Ra Rb 10 15 (T 55),
   SET Rb Rc Rd Ra  1 21 (T 56),
   SET Ra Rb Rc Rd  8  6 (T 57),
   SET Rd Ra Rb Rc 15 10 (T 58),
   SET Rc Rd Ra Rb  6 15 (T 59),
   SET Rb Rc Rd Ra 13 21 (T 60),
   SET Ra Rb Rc Rd  4  6 (T 61),
   SET Rd Ra Rb Rc 11 10 (T 62),
   SET Rc Rd Ra Rb  2 15 (T 63),
   SET Rb Rc Rd Ra  9 21 (T 64)]"

definition md5_process :: "md5_state \<Rightarrow> byte list \<Rightarrow> md5_state" where
  "md5_process pms data =
     (let X = block_word data;
          r1 = fold (exec_set F X) round1 (abcd pms);
          r2 = fold (exec_set G X) round2 r1;
          r3 = fold (exec_set H X) round3 r2;
          r4 = fold (exec_set I X) round4 r3
      in pms\<lparr>abcd := \<lparr>reg_a = reg_a (abcd pms) + reg_a r4, reg_b = reg_b (abcd pms) + reg_b r4,
                      reg_c = reg_c (abcd pms) + reg_c r4, reg_d = reg_d (abcd pms) + reg_d r4\<rparr>\<rparr>)"

section \<open>The streaming interface\<close>

definition md5_init :: "md5_state \<Rightarrow> md5_state" where
  "md5_init pms = pms\<lparr>count0 := 0, count1 := 0,
     abcd := \<lparr>reg_a = 0x67452301, reg_b = T_MASK XOR 0x10325476,
              reg_c = T_MASK XOR 0x67452301, reg_d = 0x10325476\<rparr>\<rparr>"

text \<open>The loop over full blocks: \<open>for (; left >= 64; p += 64, left -= 64) md5_process(pms, p)\<close>.\<close>

function full_blocks :: "md5_state \<Rightarrow> byte list \<Rightarrow> int \<Rightarrow> md5_state \<times> byte list \<times> int" where
  "full_blocks pms p left =
     (if left \<ge> 64 then full_blocks (md5_process pms (take 64 p)) (drop 64 p) (left - 64)
      else (pms, p, left))"
  by pat_completeness auto
termination
  by (relation "measure (\<lambda>(pms, p, left). nat left)") auto

declare full_blocks.simps [simp del]

text \<open>\<open>md5_append(pms, data, nbytes)\<close>, with \<open>nbytes\<close> the signed \<open>int\<close> of the source.\<close>

definition md5_append :: "md5_state \<Rightarrow> byte list \<Rightarrow> int \<Rightarrow> md5_state" where
  "md5_append pms data nbytes =
     (let offset = uint (drop_bit 3 (count0 pms) AND 63);
          nbits = word_of_int (nbytes * 8) :: word32
      in if nbytes \<le> 0 then pms
         else
           let lo = count0 pms + nbits;
               hi = count1 pms + word_of_int (nbytes div 2 ^ 29);
               pms1 = pms\<lparr>count0 := lo, count1 := (if lo < nbits then hi + 1 else hi)\<rparr>;
               copy = (if offset + nbytes > 64 then 64 - offset else nbytes);
               pms2 = pms1\<lparr>buf := memcpy_at (buf pms1) (nat offset) data (nat copy)\<rparr>
           in if offset \<noteq> 0 \<and> offset + copy < 64 then pms2
              else
                let (pms3, p, left) =
                      (if offset \<noteq> 0
                       then (md5_process pms2 (buf pms2), drop (nat copy) data, nbytes - copy)
                       else (pms1, data, nbytes));
                    (pms4, p', left') = full_blocks pms3 p left
                in if left' \<noteq> 0 then pms4\<lparr>buf := memcpy_at (buf pms4) 0 p' (nat left')\<rparr>
                   else pms4)"

definition pad :: "byte list" where
  "pad = 0x80 # replicate 63 0"

text \<open>\<open>(md5_byte_t)(w[i >> 2] >> ((i & 3) << 3))\<close> for \<open>i\<close> below \<open>4 * length ws\<close>.\<close>

definition le_byte :: "word32 list \<Rightarrow> nat \<Rightarrow> byte" where
  "le_byte ws i = ucast (drop_bit (8 * (i mod 4)) (ws ! (i div 4)))"

definition md5_finish :: "md5_state \<Rightarrow> md5_state \<times> byte list" where
  "md5_finish pms =
     (let data = map (le_byte [count0 pms, count1 pms]) [0..<8];
          pms1 = md5_append pms pad (uint ((55 - drop_bit 3 (count0 pms)) AND 63) + 1);
          pms2 = md5_append pms1 data 8;
          r = abcd pms2
      in (pms2, map (le_byte [reg_a r, reg_b r, reg_c r, reg_d r]) [0..<16]))"

section \<open>The reference specification (RFC 1321)\<close>

text \<open>
  The RFC's loop: operation \<open>i\<close> uses the nonlinear function of its round, the
  message word \<open>rfc_k i\<close>, the shift \<open>rfc_s i\<close> and the constant \<open>T (i + 1)\<close>, and
  rotates the registers.
\<close>

definition rfc_f :: "nat \<Rightarrow> word32 \<Rightarrow> word32 \<Rightarrow> word32 \<Rightarrow> word32" where
  "rfc_f i = (if i < 16 then F else if i < 32 then G else if i < 48 then H else I)"

definition rfc_k :: "nat \<Rightarrow> nat" where
  "rfc_k i = (if i < 16 then i else if i < 32 then (5 * i + 1) mod 16
              else if i < 48 then (3 * i + 5) mod 16 else (7 * i) mod 16)"

definition rfc_s :: "nat \<Rightarrow> nat" where
  "rfc_s i = [[7, 12, 17, 22], [5, 9, 14, 20], [4, 11, 16, 23], [6, 10, 15, 21]]
             ! (i div 16) ! (i mod 4)"

definition rfc_step :: "(nat \<Rightarrow> word32) \<Rightarrow> nat \<Rightarrow> md5_regs \<Rightarrow> md5_regs" where
  "rfc_step X i r = \<lparr>reg_a = reg_d r,
     reg_b = reg_b r + word_rotl (rfc_s i)
       (reg_a r + rfc_f i (reg_b r) (reg_c r) (reg_d r) + X (rfc_k i) + T (i + 1)),
     reg_c = reg_b r, reg_d = reg_c r\<rparr>"

definition add_regs :: "md5_regs \<Rightarrow> md5_regs \<Rightarrow> md5_regs" where
  "add_regs r q = \<lparr>reg_a = reg_a r + reg_a q, reg_b = reg_b r + reg_b q,
                   reg_c = reg_c r + reg_c q, reg_d = reg_d r + reg_d q\<rparr>"

definition rfc_compress :: "byte list \<Rightarrow> md5_regs \<Rightarrow> md5_regs" where
  "rfc_compress blk r = add_regs r (fold (rfc_step (block_word blk)) [0..<64] r)"

section \<open>The unrolled rounds are the RFC's loop\<close>

lemma ROTATE_LEFT_rotl:
  assumes "0 < n" "n < 32"
  shows "ROTATE_LEFT x n = word_rotl n x"
proof (rule bit_word_eqI)
  fix i assume i: "i < LENGTH(32)"
  have a: "bit (ROTATE_LEFT x n) i = (n \<le> i \<and> bit x (i - n) \<or> bit x (32 - n + i))"
    using i by (auto simp: ROTATE_LEFT_def bit_or_iff bit_push_bit_iff bit_drop_bit_eq)
  have b: "bit (word_rotl n x) i = bit x ((i + (32 - n)) mod 32)"
    using i assms by (simp add: bit_word_rotl_iff)
  show "bit (ROTATE_LEFT x n) i = bit (word_rotl n x) i"
  proof (cases "n \<le> i")
    case True
    then have "i + (32 - n) = (i - n) + 32" using assms by simp
    then have m: "(i + (32 - n)) mod 32 = i - n" using i by (simp only: mod_add_self2) simp
    have "\<not> bit x (32 - n + i)" using True assms by (auto dest: bit_imp_le_length)
    with True m show ?thesis by (simp only: a b) simp
  next
    case False
    then have m: "(i + (32 - n)) mod 32 = 32 - n + i" using assms by simp
    from False show ?thesis by (simp only: a b m) simp
  qed
qed

text \<open>Four consecutive \<open>SET\<close> operations, each with its registers rotated, are four steps of the loop.\<close>

definition spec_step :: "(word32 \<Rightarrow> word32 \<Rightarrow> word32 \<Rightarrow> word32) \<Rightarrow> (nat \<Rightarrow> word32) \<Rightarrow>
    nat \<times> nat \<times> word32 \<Rightarrow> md5_regs \<Rightarrow> md5_regs" where
  "spec_step f X = (\<lambda>(k, s, t) r. \<lparr>reg_a = reg_d r,
     reg_b = reg_b r + word_rotl s (reg_a r + f (reg_b r) (reg_c r) (reg_d r) + X k + t),
     reg_c = reg_b r, reg_d = reg_c r\<rparr>)"

lemma set_quad:
  assumes "0 < s0" "s0 < 32" "0 < s1" "s1 < 32" "0 < s2" "s2 < 32" "0 < s3" "s3 < 32"
  shows "exec_set f X (SET Rb Rc Rd Ra k3 s3 t3) (exec_set f X (SET Rc Rd Ra Rb k2 s2 t2)
           (exec_set f X (SET Rd Ra Rb Rc k1 s1 t1) (exec_set f X (SET Ra Rb Rc Rd k0 s0 t0) r)))
         = spec_step f X (k3, s3, t3) (spec_step f X (k2, s2, t2)
             (spec_step f X (k1, s1, t1) (spec_step f X (k0, s0, t0) r)))"
  using assms by (simp add: spec_step_def Let_def ROTATE_LEFT_rotl add.commute)

lemma upt_16:
  "[0..<16] = [0, 1, 2, 3, 4, 5, 6, 7, 8, 9, 10, 11, 12, 13, 14, 15::nat]"
  "[16..<32] = [16, 17, 18, 19, 20, 21, 22, 23, 24, 25, 26, 27, 28, 29, 30, 31::nat]"
  "[32..<48] = [32, 33, 34, 35, 36, 37, 38, 39, 40, 41, 42, 43, 44, 45, 46, 47::nat]"
  "[48..<64] = [48, 49, 50, 51, 52, 53, 54, 55, 56, 57, 58, 59, 60, 61, 62, 63::nat]"
  by (simp_all add: upt_rec)

text \<open>The index, shift and constant of the operations of one round.\<close>

definition rfc_args :: "nat list \<Rightarrow> (nat \<times> nat \<times> word32) list" where
  "rfc_args is = map (\<lambda>i. (rfc_k i, rfc_s i, T (i + 1))) is"

lemma round1_spec: "fold (exec_set F X) round1 r = fold (spec_step F X) (rfc_args [0..<16]) r"
  by (simp add: round1_def set_quad upt_16 rfc_args_def rfc_k_def rfc_s_def numeral_2_eq_2 [symmetric]
      del: exec_set.simps)

lemma round2_spec: "fold (exec_set G X) round2 r = fold (spec_step G X) (rfc_args [16..<32]) r"
  by (simp add: round2_def set_quad upt_16 rfc_args_def rfc_k_def rfc_s_def del: exec_set.simps)

lemma round3_spec: "fold (exec_set H X) round3 r = fold (spec_step H X) (rfc_args [32..<48]) r"
  by (simp add: round3_def set_quad upt_16 rfc_args_def rfc_k_def rfc_s_def del: exec_set.simps)

lemma round4_spec: "fold (exec_set I X) round4 r = fold (spec_step I X) (rfc_args [48..<64]) r"
  by (simp add: round4_def set_quad upt_16 rfc_args_def rfc_k_def rfc_s_def del: exec_set.simps)

lemmas rounds_spec = round1_spec round2_spec round3_spec round4_spec

lemma spec_step_rfc:
  "\<forall>i\<in>set is. rfc_f i = f \<Longrightarrow> fold (spec_step f X) (rfc_args is) r = fold (rfc_step X) is r"
  by (induction "is" arbitrary: r) (auto simp: rfc_args_def spec_step_def rfc_step_def)

lemma upt_64: "[0..<64] = [0..<16] @ [16..<32] @ [32..<48] @ [48..<(64::nat)]"
  by (simp add: upt_16 upt_rec)

lemma abcd_md5_process:
  "abcd (md5_process pms data) = rfc_compress data (abcd pms)"
proof -
  have "fold (rfc_step X) [0..<64] r =
      fold (exec_set I X) round4 (fold (exec_set H X) round3 (fold (exec_set G X) round2
        (fold (exec_set F X) round1 r)))" for X r
    unfolding upt_64 rounds_spec by (simp add: spec_step_rfc rfc_f_def)
  then show ?thesis
    by (simp add: md5_process_def rfc_compress_def add_regs_def Let_def)
qed

text \<open>The constants are those of the RFC, which the source only names in comments.\<close>

lemma T_table_values:
  "T 1 = 0xd76aa478" "T 2 = 0xe8c7b756" "T 4 = 0xc1bdceee" "T 64 = 0xeb86d391" "length T_table = 64"
  by (simp_all add: T_def T_table_def T_MASK_def)

lemma md5_process_compress:
  "md5_process pms data = pms\<lparr>abcd := rfc_compress data (abcd pms)\<rparr>"
proof -
  have "md5_process pms data = pms\<lparr>abcd := abcd (md5_process pms data)\<rparr>"
    by (simp add: md5_process_def Let_def)
  then show ?thesis by (simp add: abcd_md5_process)
qed

section \<open>The chain of blocks and the reference digest\<close>

function rfc_chain :: "md5_regs \<Rightarrow> byte list \<Rightarrow> md5_regs" where
  "rfc_chain r m = (if length m < 64 then r else rfc_chain (rfc_compress (take 64 m) r) (drop 64 m))"
  by pat_completeness auto
termination
  by (relation "measure (\<lambda>(r, m). length m)") auto

declare rfc_chain.simps [simp del]

definition rfc_iv :: md5_regs where
  "rfc_iv = \<lparr>reg_a = 0x67452301, reg_b = 0xefcdab89, reg_c = 0x98badcfe, reg_d = 0x10325476\<rparr>"

definition rfc_padding :: "nat \<Rightarrow> byte list" where
  "rfc_padding len = 0x80 # replicate ((119 - len mod 64) mod 64) 0
                     @ map (\<lambda>i. word_of_nat (8 * len div 256 ^ i)) [0..<8]"

definition rfc_output :: "md5_regs \<Rightarrow> byte list" where
  "rfc_output r = map (le_byte [reg_a r, reg_b r, reg_c r, reg_d r]) [0..<16]"

definition rfc_md5 :: "byte list \<Rightarrow> byte list" where
  "rfc_md5 m = rfc_output (rfc_chain rfc_iv (m @ rfc_padding (length m)))"

lemma rfc_chain_short [simp]: "length m < 64 \<Longrightarrow> rfc_chain r m = r"
  by (simp add: rfc_chain.simps)

lemma rfc_chain_block:
  "length b = 64 \<Longrightarrow> rfc_chain r (b @ m) = rfc_chain (rfc_compress b r) m"
  by (subst rfc_chain.simps) simp

lemma rfc_chain_append:
  "64 dvd length m \<Longrightarrow> rfc_chain r (m @ x) = rfc_chain (rfc_chain r m) x"
proof (induction r m rule: rfc_chain.induct)
  case (1 r m)
  show ?case
  proof (cases "length m < 64")
    case True
    with "1.prems" have "m = []" by (auto elim: dvdE)
    then show ?thesis by simp
  next
    case False
    then have d: "64 dvd length (drop 64 m)" using "1.prems" by (simp add: dvd_diff_nat)
    have "rfc_chain r (m @ x) = rfc_chain (rfc_compress (take 64 m) r) (drop 64 m @ x)"
      using False rfc_chain_block [of "take 64 m" r "drop 64 m @ x"]
      by (simp add: append_assoc [symmetric] del: append_assoc)
    also have "\<dots> = rfc_chain (rfc_chain (rfc_compress (take 64 m) r) (drop 64 m)) x"
      using "1.IH" [OF False] d by simp
    also have "rfc_chain (rfc_compress (take 64 m) r) (drop 64 m) = rfc_chain r m"
      using False by (simp add: rfc_chain.simps [of r m])
    finally show ?thesis .
  qed
qed

lemma rfc_chain_aligned:
  assumes "64 dvd length m" "length x < 64"
  shows "rfc_chain r (m @ x) = rfc_chain r m"
  using assms by (simp add: rfc_chain_append)

text \<open>The whole blocks of a message, and the bytes after them.\<close>

definition whole :: "byte list \<Rightarrow> byte list" where
  "whole m = take (64 * (length m div 64)) m"

definition rest :: "byte list \<Rightarrow> byte list" where
  "rest m = drop (64 * (length m div 64)) m"

lemma whole_rest: "whole m @ rest m = m"
  by (simp add: whole_def rest_def)

lemma length_whole [simp]: "length (whole m) = 64 * (length m div 64)"
  by (simp add: whole_def)

lemma length_rest [simp]: "length (rest m) = length m mod 64"
  by (simp add: rest_def minus_mult_div_eq_mod)

lemma rfc_chain_whole: "rfc_chain r m = rfc_chain r (whole m)"
proof -
  have "rfc_chain r (whole m @ rest m) = rfc_chain r (whole m)"
    by (rule rfc_chain_aligned) simp_all
  then show ?thesis by (simp only: whole_rest)
qed

lemma rest_append:
  assumes "64 dvd length m"
  shows "rest (m @ x) = rest x"
proof -
  from assms obtain q where "length m = 64 * q" by (auto elim: dvdE)
  then show ?thesis by (simp add: rest_def algebra_simps)
qed

text \<open>The loop over full blocks compresses the whole blocks and leaves the rest.\<close>

lemma full_blocks_chain:
  "0 \<le> left \<Longrightarrow> left \<le> int (length p) \<Longrightarrow>
   full_blocks pms p left =
     (pms\<lparr>abcd := rfc_chain (abcd pms) (take (nat left) p)\<rparr>,
      drop (64 * (nat left div 64)) p, left mod 64)"
proof (induction pms p left rule: full_blocks.induct)
  case (1 pms p left)
  show ?case
  proof (cases "left \<ge> 64")
    case True
    define k where "k = nat left - 64"
    define pms' where "pms' = md5_process pms (take 64 p)"
    have k: "nat left = 64 + k" "nat (left - 64) = k" using True by (auto simp: k_def)
    have len: "64 \<le> length p" using True "1.prems" by linarith
    have abcd': "abcd pms' = rfc_compress (take 64 p) (abcd pms)"
      and upd: "pms'\<lparr>abcd := a\<rparr> = pms\<lparr>abcd := a\<rparr>" for a
      by (simp_all add: pms'_def md5_process_compress)
    have chain: "rfc_chain (abcd pms') (take k (drop 64 p)) = rfc_chain (abcd pms) (take (nat left) p)"
      using len rfc_chain_block [of "take 64 p" "abcd pms" "take k (drop 64 p)"]
      by (simp add: k abcd' take_add)
    have q: "(64 + k) div 64 = Suc (k div 64)" by simp
    have dropped: "drop (64 * (k div 64)) (drop 64 p) = drop (64 * (nat left div 64)) p"
      unfolding k(1) q by (simp add: add.commute)
    have "full_blocks pms p left = full_blocks pms' (drop 64 p) (left - 64)"
      using True by (subst full_blocks.simps) (simp add: pms'_def)
    also have "\<dots> = (pms'\<lparr>abcd := rfc_chain (abcd pms') (take (nat (left - 64)) (drop 64 p))\<rparr>,
        drop (64 * (nat (left - 64) div 64)) (drop 64 p), (left - 64) mod 64)"
      unfolding pms'_def by (rule "1.IH") (use True "1.prems" in auto)
    also have "\<dots> = (pms\<lparr>abcd := rfc_chain (abcd pms) (take (nat left) p)\<rparr>,
        drop (64 * (nat left div 64)) p, left mod 64)"
      unfolding k(2) chain dropped upd by simp
    finally show ?thesis .
  next
    case False
    then have "length (take (nat left) p) < 64" "nat left div 64 = 0" "left mod 64 = left"
      using "1.prems" by auto
    with False show ?thesis
      by (subst full_blocks.simps) simp
  qed
qed


section \<open>A state and the message it has absorbed\<close>

text \<open>The 64-bit length counter, and its update with the carry of the source.\<close>

definition md5_count :: "md5_state \<Rightarrow> nat" where
  "md5_count s = unat (count0 s) + 2 ^ 32 * unat (count1 s)"

definition md5_absorbed :: "md5_state \<Rightarrow> byte list \<Rightarrow> bool" where
  "md5_absorbed s m \<longleftrightarrow>
     length (buf s) = 64 \<and> abcd s = rfc_chain rfc_iv m
     \<and> take (length m mod 64) (buf s) = rest m
     \<and> md5_count s = 8 * length m mod 2 ^ 64"

lemma md5_count_upd [simp]:
  "md5_count (s\<lparr>buf := b\<rparr>) = md5_count s" "md5_count (s\<lparr>abcd := r\<rparr>) = md5_count s"
  by (simp_all add: md5_count_def)

lemma mod_two_words: "(r::nat) < b \<Longrightarrow> (r + b * x) mod (b * b) = r + b * (x mod b)"
  by (simp add: mod_mult2_eq)

lemma carry_count:
  fixes lo hi :: word32 and n L :: nat
  assumes "unat lo + 2 ^ 32 * unat hi = L mod 2 ^ 64"
  defines "nbits \<equiv> of_nat (8 * n) :: word32"
  defines "hi' \<equiv> hi + of_nat (n div 2 ^ 29) + (if lo + nbits < nbits then 1 else 0)"
  shows "unat (lo + nbits) + 2 ^ 32 * unat hi' = (L + 8 * n) mod 2 ^ 64"
proof -
  define A where "A = unat lo"
  define B where "B = 8 * n mod 2 ^ 32"
  define C where "C = n div 2 ^ 29"
  define c :: nat where "c = (if A + B < 2 ^ 32 then 0 else 1)"
  have nb: "unat nbits = B"
    unfolding nbits_def B_def by (subst unat_of_nat) simp
  have AB: "A < 2 ^ 32" "B < 2 ^ 32"
    using unsigned_less [of lo] by (simp_all add: A_def B_def)
  have lo': "unat (lo + nbits) = (A + B) mod 2 ^ 32"
    by (simp add: unat_word_ariths nb A_def)
  have split: "A + B = (A + B) mod 2 ^ 32 + 2 ^ 32 * c"
    using AB by (auto simp: c_def mod_if)
  have "(lo + nbits < nbits) = (c = 1)"
    using AB by (auto simp: word_less_nat_alt lo' nb c_def mod_if)
  then have hi': "unat hi' = (unat hi + C + c) mod 2 ^ 32"
    by (auto simp: hi'_def C_def c_def unat_word_ariths unat_of_nat mod_simps)
  have n8: "8 * n = B + 2 ^ 32 * C"
  proof -
    have "8 * n div 2 ^ 32 = n div 2 ^ 29"
      using div_mult2_eq [of "8 * n" 8 "2 ^ 29"] by simp
    then show ?thesis
      unfolding B_def C_def by (metis mod_mult_div_eq)
  qed
  have "(L + 8 * n) mod 2 ^ 64 = (A + 2 ^ 32 * unat hi + 8 * n) mod 2 ^ 64"
    using assms(1) by (metis A_def mod_add_left_eq)
  also have "A + 2 ^ 32 * unat hi + 8 * n = (A + B) mod 2 ^ 32 + 2 ^ 32 * (unat hi + C + c)"
    using split n8 by (simp add: algebra_simps)
  also have "\<dots> mod 2 ^ 64 = (A + B) mod 2 ^ 32 + 2 ^ 32 * ((unat hi + C + c) mod 2 ^ 32)"
    using mod_two_words [of "(A + B) mod 2 ^ 32" "2 ^ 32" "unat hi + C + c"] by simp
  finally show ?thesis
    by (simp add: lo' hi')
qed

lemma unat_and_63: "unat (drop_bit 3 (w::word32) AND 63) = unat w div 8 mod 64"
proof -
  have "drop_bit 3 w AND 63 = take_bit 6 (drop_bit 3 w)"
    by (simp only: take_bit_eq_mask mask_eq_exp_minus_1) simp
  also have "\<dots> = w div 8 mod 64"
    by (simp add: take_bit_eq_mod drop_bit_eq_div)
  finally show ?thesis
    by (simp only:) (simp add: unat_div_distrib unat_mod_distrib)
qed

lemma absorbed_offset:
  assumes "md5_absorbed s m"
  shows "uint (drop_bit 3 (count0 s) AND 63) = int (length m mod 64)"
proof -
  have lt: "unat (count0 s) < 4294967296"
    using unsigned_less [of "count0 s"] by simp
  have "unat (count0 s) = md5_count s mod 2 ^ 32"
    by (simp add: md5_count_def lt)
  also have "\<dots> = 8 * length m mod 2 ^ 32"
    using assms by (simp add: md5_absorbed_def mod_mod_cancel)
  also have "\<dots> = 8 * (length m mod 2 ^ 29)"
    using mult_mod_right [of 8 "length m" "2 ^ 29"] by simp
  finally have "unat (count0 s) div 8 mod 64 = length m mod 64"
    by (simp add: mod_mod_cancel)
  then show ?thesis
    by (simp only: uint_nat unat_and_63)
qed


text \<open>Completing a block: the buffer and the bytes that fill it extend the chain.\<close>

lemma rfc_chain_fill:
  assumes "length m mod 64 + k = 64" "k \<le> length d"
  shows "rfc_compress (rest m @ take k d) (rfc_chain r m) = rfc_chain r (m @ take k d)"
proof -
  have "rfc_chain r (m @ take k d) = rfc_chain r (whole m @ rest m @ take k d)"
    by (simp only: append_assoc [symmetric] whole_rest)
  also have "\<dots> = rfc_chain (rfc_chain r (whole m)) ((rest m @ take k d) @ [])"
    by (simp add: rfc_chain_append)
  also have "\<dots> = rfc_chain (rfc_compress (rest m @ take k d) (rfc_chain r (whole m))) []"
    by (rule rfc_chain_block) (use assms in simp)
  finally show ?thesis by (simp add: rfc_chain_whole [symmetric])
qed

lemma block_arith:
  assumes "n mod 64 + k < (64::nat)"
  shows "(n + k) div 64 = n div 64" "(n + k) mod 64 = n mod 64 + k"
proof -
  have "n + k = 64 * (n div 64) + (n mod 64 + k)" by simp
  then show "(n + k) div 64 = n div 64" "(n + k) mod 64 = n mod 64 + k"
    using assms by (metis div_mult_self4 div_less add_0_right zero_neq_numeral,
        metis mod_mult_self4 mod_less)
qed

lemma rest_short: "length m mod 64 + length x < 64 \<Longrightarrow> rest (m @ x) = rest m @ x"
  by (simp add: rest_def block_arith)

lemma rfc_chain_short_append:
  assumes "length m mod 64 + length x < 64"
  shows "rfc_chain r (m @ x) = rfc_chain r m"
proof -
  have "rfc_chain r (m @ x) = rfc_chain r (whole m @ rest m @ x)"
    by (simp only: append_assoc [symmetric] whole_rest)
  also have "\<dots> = rfc_chain r (whole m)"
    by (rule rfc_chain_aligned) (use assms in simp_all)
  finally show ?thesis by (simp add: rfc_chain_whole [symmetric])
qed

text \<open>The tail of \<open>md5_append\<close> once the buffer is empty: full blocks, then the partial block.\<close>

definition append_tail :: "md5_state \<Rightarrow> byte list \<Rightarrow> int \<Rightarrow> md5_state" where
  "append_tail pms p left =
     (let (pms4, p', left') = full_blocks pms p left
      in if left' \<noteq> 0 then pms4\<lparr>buf := memcpy_at (buf pms4) 0 p' (nat left')\<rparr> else pms4)"

lemma append_tail_absorbed:
  assumes al: "64 dvd length m" and b: "length (buf s) = 64" and c: "abcd s = rfc_chain rfc_iv m"
    and n: "0 \<le> left" "left \<le> int (length p)"
    and cnt: "md5_count s = 8 * length (m @ take (nat left) p) mod 2 ^ 64"
  shows "md5_absorbed (append_tail s p left) (m @ take (nat left) p)"
proof -
  define k where "k = nat left"
  define x where "x = take k p"
  have k: "left = int k" "k \<le> length p" "nat left = k" using n by (auto simp: k_def)
  have lx: "length x = k" using k by (simp add: x_def)
  have left': "left mod 64 = int (k mod 64)" by (simp add: k zmod_int)
  have m64: "length (m @ x) mod 64 = k mod 64"
    using al by (auto simp: lx elim!: dvdE)
  have rest: "rest (m @ x) = take (k mod 64) (drop (64 * (k div 64)) p)"
    unfolding rest_append [OF al]
    by (simp add: rest_def lx) (simp add: x_def drop_take minus_mult_div_eq_mod)
  have chain: "rfc_chain (abcd s) x = rfc_chain rfc_iv (m @ x)"
    by (simp add: c rfc_chain_append [OF al])
  have avail: "k mod 64 \<le> length (drop (64 * (k div 64)) p)"
    using k(2) by (metis diff_le_mono length_drop minus_mult_div_eq_mod)
  have eq: "append_tail s p left =
      (if k mod 64 \<noteq> 0
       then s\<lparr>abcd := rfc_chain rfc_iv (m @ x), buf := memcpy_at (buf s) 0 (drop (64 * (k div 64)) p) (k mod 64)\<rparr>
       else s\<lparr>abcd := rfc_chain rfc_iv (m @ x)\<rparr>)"
    unfolding append_tail_def full_blocks_chain [OF n] left' k(3) x_def [symmetric] chain
    by (simp add: Let_def)
  have mc: "take (k mod 64) (memcpy_at (buf s) 0 (drop (64 * (k div 64)) p) (k mod 64))
      = take (k mod 64) (drop (64 * (k div 64)) p)"
    using take_memcpy_at [of 0 "k mod 64" "buf s"] b avail by simp
  have "length (memcpy_at (buf s) 0 (drop (64 * (k div 64)) p) (k mod 64)) = 64"
    using b avail by (subst length_memcpy_at) auto
  then show ?thesis
    using cnt b unfolding md5_absorbed_def eq k(3) x_def [symmetric] m64 rest
    by (simp add: md5_count_def mc)
qed


lemma md5_append_counts:
  assumes "md5_count s = L mod 2 ^ 64" and n: "0 \<le> n"
  defines "nbits \<equiv> word_of_int (n * 8) :: word32"
  defines "lo \<equiv> count0 s + nbits" and "hi \<equiv> count1 s + word_of_int (n div 2 ^ 29)"
  shows "md5_count (s\<lparr>count0 := lo, count1 := (if lo < nbits then hi + 1 else hi)\<rparr>)
         = (L + 8 * nat n) mod 2 ^ 64"
proof -
  have nb: "nbits = of_nat (8 * nat n)"
  proof -
    have "n * 8 = int (8 * nat n)" using n by simp
    then show ?thesis unfolding nbits_def by (simp only: of_int_of_nat_eq)
  qed
  have "int (nat n div 2 ^ 29) = n div 2 ^ 29"
    using n by (simp add: zdiv_int)
  then have h: "(word_of_int (n div 2 ^ 29) :: word32) = of_nat (nat n div 2 ^ 29)"
    by (metis of_int_of_nat_eq)
  show ?thesis
    using carry_count [of "count0 s" "count1 s" L "nat n"] assms(1)
    unfolding md5_count_def lo_def hi_def nb h by (simp split: if_splits)
qed

lemma md5_append_absorbed:
  assumes abs: "md5_absorbed s m" and n: "0 \<le> n" "n \<le> int (length d)"
  shows "md5_absorbed (md5_append s d n) (m @ take (nat n) d)"
proof (cases "n = 0")
  case True
  with abs show ?thesis by (simp add: md5_append_def Let_def)
next
  case False
  define s1 where "s1 = s\<lparr>count0 := count0 s + word_of_int (n * 8),
    count1 := (if count0 s + word_of_int (n * 8) < (word_of_int (n * 8) :: word32)
       then count1 s + word_of_int (n div 2 ^ 29) + 1
       else count1 s + word_of_int (n div 2 ^ 29))\<rparr>"
  define off where "off = length m mod 64"
  have off: "uint (drop_bit 3 (count0 s) AND 63) = int off" "off < 64"
    using absorbed_offset [OF abs] by (simp_all add: off_def)
  have b: "length (buf s) = 64" and c: "abcd s = rfc_chain rfc_iv m"
    and r: "take off (buf s) = rest m" and cnt: "md5_count s = 8 * length m mod 2 ^ 64"
    using abs by (auto simp: md5_absorbed_def off_def)
  have cnt1: "md5_count s1 = 8 * (length m + nat n) mod 2 ^ 64"
    using md5_append_counts [OF cnt n(1)] by (simp add: s1_def algebra_simps)
  have s1: "abcd s1 = rfc_chain rfc_iv m" "buf s1 = buf s"
    by (simp_all add: s1_def c)
  show ?thesis
  proof (cases "off = 0")
    case True
    then have al: "64 dvd length m" by (auto simp: off_def)
    have "md5_append s d n = append_tail s1 d n"
      using False n(1) True off(1)
      by (simp add: md5_append_def append_tail_def Let_def s1_def)
    moreover have "md5_count s1 = 8 * length (m @ take (nat n) d) mod 2 ^ 64"
      using cnt1 n by simp
    ultimately show ?thesis
      using append_tail_absorbed [OF al _ _ n, of s1] b s1 by simp
  next
    case off0: False
    define cp where "cp = (if off + nat n > 64 then 64 - off else nat n)"
    define bb where "bb = memcpy_at (buf s) off d cp"
    have cp: "off + cp \<le> 64" "cp \<le> nat n" "cp \<le> length d" using n off(2) by (auto simp: cp_def)
    have lbb: "length bb = 64" using b cp by (simp add: bb_def)
    have tbb: "take (off + cp) bb = rest m @ take cp d"
      using take_memcpy_at [of off cp "buf s" d] b cp r by (simp add: bb_def)
    have copy: "(if int off + n > 64 then 64 - int off else n) = int cp"
      using n off(2) by (auto simp: cp_def)
    have offset0: "int off \<noteq> 0" "\<not> n \<le> 0" using off0 False n by auto
    have early: "(int off \<noteq> 0 \<and> int off + int cp < 64) = (off + cp < 64)" using off0 by auto
    have eq: "md5_append s d n =
       (if off + cp < 64 then s1\<lparr>buf := bb\<rparr>
        else append_tail (md5_process (s1\<lparr>buf := bb\<rparr>) bb) (drop cp d) (n - int cp))"
      unfolding md5_append_def off(1) Let_def copy early nat_int append_tail_def
      using offset0 by (simp add: s1_def bb_def)
    show ?thesis
    proof (cases "off + cp < 64")
      case True
      then have cpn: "cp = nat n" using cp by (auto simp: cp_def split: if_splits)
      have short: "length m mod 64 + length (take (nat n) d) < 64"
        using True cpn n by (simp add: off_def)
      have len: "length (m @ take (nat n) d) mod 64 = off + cp"
        using True cpn n by (simp add: off_def block_arith)
      show ?thesis
        using True cnt1 lbb tbb n
        unfolding md5_absorbed_def len
        by (simp add: eq s1 rfc_chain_short_append [OF short] rest_short [OF short] cpn)
    next
      case full: False
      then have fill: "length m mod 64 + cp = 64" using cp(1) by (simp add: off_def)
      define m' where "m' = m @ take cp d"
      have al: "64 dvd length m'"
      proof -
        have "length m' = 64 * (length m div 64) + 64"
          using fill cp(3) by (simp add: m'_def) (metis add.assoc mult_div_mod_eq)
        then show ?thesis by simp
      qed
      define s2 where "s2 = md5_process (s1\<lparr>buf := bb\<rparr>) bb"
      have "bb = rest m @ take cp d"
        using tbb lbb full cp(1) by simp
      then have c2: "abcd s2 = rfc_chain rfc_iv m'"
        using rfc_chain_fill [OF fill cp(3)]
        by (simp add: s2_def md5_process_compress s1 m'_def)
      have take_n: "take cp d @ take (nat (n - int cp)) (drop cp d) = take (nat n) d"
        using cp(2) n by (simp add: nat_diff_distrib take_add [symmetric])
      have "md5_absorbed (append_tail s2 (drop cp d) (n - int cp))
          (m' @ take (nat (n - int cp)) (drop cp d))"
      proof (rule append_tail_absorbed [OF al _ c2])
        show "length (buf s2) = 64" using lbb by (simp add: s2_def md5_process_compress)
        show "0 \<le> n - int cp" "n - int cp \<le> int (length (drop cp d))" using cp n by auto
        have "length (m' @ take (nat (n - int cp)) (drop cp d)) = length m + nat n"
          using cp n by (simp add: m'_def)
        then show "md5_count s2 = 8 * length (m' @ take (nat (n - int cp)) (drop cp d)) mod 2 ^ 64"
          using cnt1 by (simp add: s2_def md5_process_compress)
      qed
      then show ?thesis
        using full by (simp add: eq s2_def m'_def take_n)
    qed
  qed
qed


lemma md5_init_absorbed:
  "length (buf s) = 64 \<Longrightarrow> md5_absorbed (md5_init s) []"
  by (simp add: md5_absorbed_def md5_init_def md5_count_def rfc_iv_def T_MASK_def rest_def)

text \<open>The length block and the amount of padding computed by \<open>md5_finish\<close>.\<close>

lemma absorbed_counts:
  assumes "md5_absorbed s m"
  shows "unat (count0 s) = take_bit 32 (8 * length m)"
    and "unat (count1 s) = take_bit 32 (drop_bit 32 (8 * length m))"
proof -
  have N: "unat (count0 s) + 2 ^ 32 * unat (count1 s) = 8 * length m mod 2 ^ 64"
    using assms by (simp add: md5_absorbed_def md5_count_def)
  have lt: "unat (count0 s) < 2 ^ 32"
    using unsigned_less [of "count0 s"] by simp
  have "unat (count0 s) = (unat (count0 s) + 2 ^ 32 * unat (count1 s)) mod 2 ^ 32"
    using lt by simp
  also have "\<dots> = 8 * length m mod 2 ^ 32"
    unfolding N by (rule mod_mod_cancel) simp
  finally show "unat (count0 s) = take_bit 32 (8 * length m)"
    by (simp only: take_bit_eq_mod)
  have "unat (count1 s) = (unat (count0 s) + 2 ^ 32 * unat (count1 s)) div 2 ^ 32"
    using lt by simp
  also have "\<dots> = take_bit 64 (8 * length m) div 2 ^ 32"
    unfolding N by (simp only: take_bit_eq_mod)
  also have "\<dots> = take_bit 32 (drop_bit 32 (8 * length m))"
    by (simp only: flip: drop_bit_eq_div) (simp add: drop_bit_take_bit)
  finally show "unat (count1 s) = take_bit 32 (drop_bit 32 (8 * length m))" .
qed

lemma length_block:
  assumes "md5_absorbed s m"
  shows "map (le_byte [count0 s, count1 s]) [0..<8]
         = map (\<lambda>i. word_of_nat (8 * length m div 256 ^ i)) [0..<8]"
proof (rule map_cong [OF refl])
  fix i assume "i \<in> set [0..<(8::nat)]"
  then have i: "i < 8" by simp
  define L where "L = 8 * length m"
  have pow: "(256::nat) ^ i = 2 ^ (8 * i)" by (simp add: power_mult)
  have b0: "bit (count0 s) j = (j < 32 \<and> bit L j)" for j
    using absorbed_counts(1) [OF assms] bit_unsigned_iff [where ?'b = 32 and ?'a = nat, of "count0 s" j]
    by (simp add: bit_take_bit_iff L_def)
  have b1: "bit (count1 s) j = (j < 32 \<and> bit L (32 + j))" for j
    using absorbed_counts(2) [OF assms] bit_unsigned_iff [where ?'b = 32 and ?'a = nat, of "count1 s" j]
    by (simp add: bit_take_bit_iff bit_drop_bit_eq L_def)
  show "le_byte [count0 s, count1 s] i = word_of_nat (8 * length m div 256 ^ i)"
  proof (rule bit_word_eqI)
    fix j assume j: "j < LENGTH(8)"
    have "bit (word_of_nat (8 * length m div 256 ^ i) :: byte) j = bit L (8 * i + j)"
      using j by (simp add: pow L_def bit_of_nat_iff bit_drop_bit_eq flip: drop_bit_eq_div)
    moreover have "bit (le_byte [count0 s, count1 s] i) j = bit L (8 * i + j)"
    proof (cases "i < 4")
      case True
      then show ?thesis using j
        by (simp add: le_byte_def bit_ucast_iff bit_drop_bit_eq b0)
    next
      case False
      define i' where "i' = i - 4"
      have i': "i = 4 + i'" "i' < 4" using False i by (auto simp: i'_def)
      then show ?thesis using j
        by (simp add: le_byte_def bit_ucast_iff bit_drop_bit_eq b1 algebra_simps)
    qed
    ultimately show "bit (le_byte [count0 s, count1 s] i) j
        = bit (word_of_nat (8 * length m div 256 ^ i) :: byte) j" by simp
  qed
qed

lemma pad_amount:
  assumes "md5_absorbed s m"
  shows "uint ((55 - drop_bit 3 (count0 s)) AND 63) = int ((119 - length m mod 64) mod 64)"
proof -
  define w where "w = drop_bit 3 (count0 s)"
  have and63: "x AND 63 = take_bit 6 x" for x :: word32
    by (simp only: take_bit_eq_mask mask_eq_exp_minus_1) simp
  have "uint (take_bit 6 x) = uint x mod 64" for x :: word32
    by (simp add: take_bit_eq_mod uint_mod)
  note tb = this
  have wm: "uint w mod 64 = int (length m mod 64)"
    using absorbed_offset [OF assms] unfolding and63 tb w_def .
  have "uint ((55 - w) AND 63) = (55 - uint w) mod 2 ^ 32 mod 64"
    unfolding and63 tb by (simp add: uint_word_ariths)
  also have "\<dots> = (55 - uint w) mod 64"
    by (rule mod_mod_cancel) simp
  also have "\<dots> = (55 - uint w mod 64) mod 64"
    by (simp only: mod_diff_right_eq)
  also have "\<dots> = (119 - int (length m mod 64)) mod 64"
  proof -
    have "119 - int (length m mod 64) = (55 - int (length m mod 64)) + 64" by simp
    then show ?thesis unfolding wm by (simp only: mod_add_self2)
  qed
  also have "\<dots> = int ((119 - length m mod 64) mod 64)"
    by (simp add: zmod_int of_nat_diff less_imp_le)
  finally show ?thesis by (simp add: w_def)
qed

lemma md5_finish_absorbed:
  assumes abs: "md5_absorbed s m"
  shows "snd (md5_finish s) = rfc_md5 m"
proof -
  define z where "z = (119 - length m mod 64) mod 64"
  define s1 where "s1 = md5_append s pad (int z + 1)"
  define data where "data = map (\<lambda>i. word_of_nat (8 * length m div 256 ^ i) :: byte) [0..<8]"
  define s2 where "s2 = md5_append s1 data 8"
  have z: "z < 64" by (simp add: z_def)
  have "take (nat (int z + 1)) pad = 0x80 # replicate z 0"
    using z by (simp add: pad_def nat_add_distrib)
  then have "md5_absorbed s1 (m @ 0x80 # replicate z 0)"
    using md5_append_absorbed [OF abs, of "int z + 1" pad] z by (simp add: s1_def pad_def)
  then have "md5_absorbed s2 (m @ rfc_padding (length m))"
    using md5_append_absorbed [of s1 "m @ 0x80 # replicate z 0" 8 data]
    by (simp add: s2_def data_def rfc_padding_def z_def)
  then have "abcd s2 = rfc_chain rfc_iv (m @ rfc_padding (length m))"
    by (simp add: md5_absorbed_def)
  then show ?thesis
    unfolding md5_finish_def Let_def pad_amount [OF abs] length_block [OF abs]
      z_def [symmetric] data_def [symmetric] s1_def [symmetric] s2_def [symmetric]
    by (simp add: rfc_md5_def rfc_output_def)
qed


lemma full_blocks_counts:
  "count0 (fst (full_blocks pms p left)) = count0 pms \<and> count1 (fst (full_blocks pms p left)) = count1 pms"
proof (induction pms p left rule: full_blocks.induct)
  case (1 pms p left)
  then show ?case
    by (cases "left \<ge> 64") (simp_all add: full_blocks.simps [of pms p left] md5_process_compress)
qed

lemmas full_blocks_count = full_blocks_counts [THEN conjunct1] full_blocks_counts [THEN conjunct2]

lemma append_tail_counts:
  "count0 (append_tail pms p left) = count0 pms" "count1 (append_tail pms p left) = count1 pms"
  by (simp_all add: append_tail_def split_beta full_blocks_count)

text \<open>\<open>md5_append\<close> by its three exits, and its effect on the counter.\<close>

definition counted :: "md5_state \<Rightarrow> int \<Rightarrow> md5_state" where
  "counted s n = s\<lparr>count0 := count0 s + word_of_int (n * 8),
    count1 := (if count0 s + word_of_int (n * 8) < (word_of_int (n * 8) :: word32)
       then count1 s + word_of_int (n div 2 ^ 29) + 1
       else count1 s + word_of_int (n div 2 ^ 29))\<rparr>"

lemma md5_append_exits:
  assumes "\<not> n \<le> 0"
  obtains b where "md5_append s d n = (counted s n)\<lparr>buf := b\<rparr>"
  | b p left where "md5_append s d n = append_tail (md5_process ((counted s n)\<lparr>buf := b\<rparr>) b) p left"
  | "md5_append s d n = append_tail (counted s n) d n"
proof -
  define off where "off = uint (drop_bit 3 (count0 s) AND 63)"
  define cp where "cp = (if off + n > 64 then 64 - off else n)"
  define b where "b = memcpy_at (buf s) (nat off) d (nat cp)"
  have "md5_append s d n =
     (if off \<noteq> 0 \<and> off + cp < 64 then (counted s n)\<lparr>buf := b\<rparr>
      else if off \<noteq> 0
      then append_tail (md5_process ((counted s n)\<lparr>buf := b\<rparr>) b) (drop (nat cp) d) (n - cp)
      else append_tail (counted s n) d n)"
    unfolding md5_append_def Let_def off_def [symmetric] cp_def [symmetric] append_tail_def counted_def b_def
    using assms by simp
  then show thesis using that by (metis (full_types))
qed

lemma md5_append_count_words:
  assumes "\<not> n \<le> 0"
  shows "md5_count (md5_append s d n) = md5_count (counted s n)"
  by (rule md5_append_exits [OF assms, of s d])
     (simp_all add: md5_count_def append_tail_counts md5_process_compress)

lemma md5_count_bound: "md5_count s < 2 ^ 64"
proof -
  have "unat (count0 s) < 2 ^ 32" "unat (count1 s) < 2 ^ 32"
    using unsigned_less [of "count0 s"] unsigned_less [of "count1 s"] by simp_all
  then show ?thesis by (simp add: md5_count_def)
qed

section \<open>The interface of the component\<close>

definition md5_ready :: "md5_state \<Rightarrow> bool" where
  "md5_ready s \<longleftrightarrow> length (buf s) = 64"

interpretation md5: digest_stream md5_init md5_append md5_finish md5_ready md5_absorbed rfc_md5
proof unfold_locales
  fix s :: md5_state and m d :: "byte list"
  show "md5_absorbed (md5_init s) []" if "md5_ready s"
    using that by (simp add: md5_ready_def md5_init_absorbed)
  assume abs: "md5_absorbed s m"
  show "md5_absorbed (md5_append s d (int (length d))) (m @ d)"
    using md5_append_absorbed [OF abs, of "int (length d)" d] by simp
  show "snd (md5_finish s) = rfc_md5 m"
    using abs by (rule md5_finish_absorbed)
qed

section \<open>Properties\<close>

text \<open>
  C3. Feeding a message to \<open>md5_append\<close> in pieces of any lengths, from any
  state whose buffer has its 64 bytes, makes \<open>md5_finish\<close> return the RFC 1321
  digest of the whole message: partial blocks, the carry of the length counter,
  the padding and the uninitialised buffer do not show.
\<close>

theorem md5_streaming_correct:
  assumes "length (buf s) = 64"
  shows "snd (md5_finish (fold (\<lambda>d s. md5_append s d (int (length d))) ds (md5_init s)))
         = rfc_md5 (concat ds)"
  using assms by (intro md5.digest_of_pieces) (simp add: md5_ready_def)

definition md5_blank :: md5_state where
  "md5_blank = \<lparr>count0 = 7, count1 = 9, abcd = rfc_iv, buf = replicate 64 0xff\<rparr>"

theorem md5_streaming_correct_witness:
  "length (buf md5_blank) = 64 \<and>
   snd (md5_finish (fold (\<lambda>d s. md5_append s d (int (length d))) [[97], [98, 99]] (md5_init md5_blank)))
   = rfc_md5 [97, 98, 99]"
proof -
  have "length (buf md5_blank) = 64" by (simp add: md5_blank_def)
  then show ?thesis using md5_streaming_correct [of md5_blank "[[97], [98, 99]]"] by simp
qed

text \<open>The digest of \<open>''abc''\<close> given by the RFC, evaluated.\<close>

lemma md5_abc:
  "snd (md5_finish (md5_append (md5_init md5_blank) [97, 98, 99] 3))
   = [0x90, 0x01, 0x50, 0x98, 0x3c, 0xd2, 0x4f, 0xb0, 0xd6, 0x96, 0x3f, 0x7d, 0x28, 0xe1, 0x7f, 0x72]"
  by code_simp

text \<open>
  C11. The 64 unrolled \<open>SET\<close> operations of \<open>md5_process\<close>, with their literal
  register orders, message indices, shifts and constants, compute the
  compression loop of RFC 1321.
\<close>

theorem md5_process_is_rfc_loop:
  "md5_process pms data =
     pms\<lparr>abcd := add_regs (abcd pms) (fold (rfc_step (block_word data)) [0..<64] (abcd pms))\<rparr>"
  by (simp add: md5_process_compress rfc_compress_def)

text \<open>
  The 64-bit message length kept in the two 32-bit words of \<open>count\<close>, with
  the source's carry test, is the number of bits appended modulo \<open>2 ^ 64\<close>.
\<close>

theorem md5_append_count:
  "unat (count0 (md5_append s d n)) + 2 ^ 32 * unat (count1 (md5_append s d n))
   = (unat (count0 s) + 2 ^ 32 * unat (count1 s) + 8 * nat n) mod 2 ^ 64"
proof (cases "n \<le> 0")
  case True
  with md5_count_bound [of s] show ?thesis
    by (simp add: md5_append_def Let_def md5_count_def)
next
  case False
  then have "md5_count (md5_append s d n) = (md5_count s + 8 * nat n) mod 2 ^ 64"
    using md5_append_counts [of s "md5_count s" n] md5_count_bound [of s]
    by (simp add: md5_append_count_words counted_def)
  then show ?thesis by (simp only: md5_count_def)
qed

end
