(* ===== verification/Cstring.thy ===== *)
theory Cstring
  imports Prelude
begin

text \<open>
  The C library's view of text, as far as the program uses it: C strings as
  character lists without a NUL (the terminator is the end of the list),
  character classes of the C locale, decimal and hexadecimal printing
  (\<open>%d\<close>, \<open>%lld\<close>, \<open>%X\<close>, \<open>%02x\<close>), and the number scanners (\<open>atoi\<close>,
  \<open>strtol\<close>) with their saturation.
\<close>

section \<open>Characters\<close>

abbreviation code :: "char \<Rightarrow> nat" where
  "code c \<equiv> of_char c"

definition isspace :: "char \<Rightarrow> bool" where
  "isspace c \<longleftrightarrow> c = CHR '' '' \<or> (9 \<le> code c \<and> code c \<le> 13)"

definition isdigit :: "char \<Rightarrow> bool" where
  "isdigit c \<longleftrightarrow> 48 \<le> code c \<and> code c \<le> 57"

definition isalpha :: "char \<Rightarrow> bool" where
  "isalpha c \<longleftrightarrow> (65 \<le> code c \<and> code c \<le> 90) \<or> (97 \<le> code c \<and> code c \<le> 122)"

definition isxdigit :: "char \<Rightarrow> bool" where
  "isxdigit c \<longleftrightarrow> isdigit c \<or> (65 \<le> code c \<and> code c \<le> 70) \<or> (97 \<le> code c \<and> code c \<le> 102)"

definition schar :: "char \<Rightarrow> int" where
  \<comment> \<open>the value of a \<open>char\<close>, which is signed on the target\<close>
  "schar c = (if code c < 128 then int (code c) else int (code c) - 256)"

definition xdigit_val :: "char \<Rightarrow> nat" where
  "xdigit_val c = (if isdigit c then code c - 48
                   else if code c \<le> 70 then code c - 55 else code c - 87)"

section \<open>Printing numbers\<close>

definition digit :: "nat \<Rightarrow> char" where
  "digit d = char_of (48 + d)"

fun show_nat :: "nat \<Rightarrow> string" where
  "show_nat n = (if n < 10 then [digit n] else show_nat (n div 10) @ [digit (n mod 10)])"

declare show_nat.simps [simp del]

definition show_int :: "int \<Rightarrow> string" where
  "show_int i = (if i < 0 then CHR ''-'' # show_nat (nat (- i)) else show_nat (nat i))"

definition Xdigit :: "nat \<Rightarrow> char" where
  "Xdigit d = (if d < 10 then digit d else char_of (55 + d))"

fun show_hex :: "nat \<Rightarrow> string" where
  "show_hex n = (if n < 16 then [Xdigit n] else show_hex (n div 16) @ [Xdigit (n mod 16)])"

declare show_hex.simps [simp del]

definition xdigit :: "nat \<Rightarrow> char" where
  "xdigit d = (if d < 10 then digit d else char_of (87 + d))"

definition show_02x :: "byte \<Rightarrow> string" where
  "show_02x b = [xdigit (unat b div 16), xdigit (unat b mod 16)]"

definition show_02X :: "byte \<Rightarrow> string" where
  "show_02X b = [Xdigit (unat b div 16), Xdigit (unat b mod 16)]"

section \<open>Scanning numbers\<close>

definition dec_val :: "nat \<Rightarrow> string \<Rightarrow> nat" where
  "dec_val acc ds = foldl (\<lambda>a c. 10 * a + (code c - 48)) acc ds"

definition hex_val :: "nat \<Rightarrow> string \<Rightarrow> nat" where
  "hex_val acc ds = foldl (\<lambda>a c. 16 * a + xdigit_val c) acc ds"

text \<open>\<open>strtol(s, NULL, 10)\<close> on the 64-bit target: white space, sign, digits, saturation.\<close>

definition strtol10 :: "string \<Rightarrow> int" where
  "strtol10 s =
     (let t = dropWhile isspace s;
          (neg, u) = (case t of c # r \<Rightarrow> if c = CHR ''-'' then (True, r)
                                         else if c = CHR ''+'' then (False, r) else (False, t)
                      | [] \<Rightarrow> (False, t));
          v = int (dec_val 0 (takeWhile isdigit u))
      in if neg then max (- (2 ^ 63)) (- v) else min (2 ^ 63 - 1) v)"

text \<open>\<open>atoi\<close> is \<open>(int) strtol(s, NULL, 10)\<close>, \<open>atoll\<close> is \<open>strtoll\<close>.\<close>

definition atoi :: "string \<Rightarrow> word32" where
  "atoi s = word_of_int (strtol10 s)"

definition atoll :: "string \<Rightarrow> word64" where
  "atoll s = word_of_int (strtol10 s)"

text \<open>\<open>strtoul(s, NULL, 16)\<close> and \<open>strtoull(s, NULL, 16)\<close> on a string \<open>0x...\<close>.\<close>

definition strtoul16 :: "string \<Rightarrow> nat" where
  "strtoul16 s = min (2 ^ 64 - 1) (hex_val 0 (takeWhile isxdigit (drop 2 s)))"

section \<open>Facts\<close>

lemma code_digit [simp]: "d < 10 \<Longrightarrow> code (digit d) = 48 + d"
  by (simp add: digit_def)

lemma isdigit_digit [simp]: "d < 10 \<Longrightarrow> isdigit (digit d)"
  by (simp add: isdigit_def)

lemma show_nat_nonempty [simp]: "show_nat n \<noteq> []"
  by (subst show_nat.simps) simp

lemma show_nat_digits: "\<forall>c \<in> set (show_nat n). isdigit c"
proof (induction n rule: show_nat.induct)
  case (1 n)
  then show ?case by (cases "n < 10") (auto simp: show_nat.simps [of n])
qed

lemma dec_val_append: "dec_val a (xs @ ys) = dec_val (dec_val a xs) ys"
  by (simp add: dec_val_def)

lemma dec_val_show_nat [simp]: "dec_val 0 (show_nat n) = n"
proof (induction n rule: show_nat.induct)
  case (1 n)
  then show ?case
    by (cases "n < 10") (simp_all add: show_nat.simps [of n] dec_val_append, simp_all add: dec_val_def)
qed

lemma show_nat_inj: "show_nat m = show_nat n \<Longrightarrow> m = n"
  by (metis dec_val_show_nat)

lemma takeWhile_digits_show_nat:
  "(\<forall>c. rest = [] \<or> \<not> isdigit (hd rest)) \<Longrightarrow> takeWhile isdigit (show_nat n @ rest) = show_nat n"
  using show_nat_digits [of n] by (cases rest) (auto simp: takeWhile_append2)

lemma isdigit_nonspace: "isdigit c \<Longrightarrow> \<not> isspace c \<and> c \<noteq> CHR ''-'' \<and> c \<noteq> CHR ''+''"
  by (auto simp: isdigit_def isspace_def)

lemma show_nat_Cons: obtains c r where "show_nat n = c # r" "isdigit c"
  using show_nat_nonempty [of n] show_nat_digits [of n] by (cases "show_nat n") auto

text \<open>Reading back what was printed.\<close>

lemma strtol10_show_nat:
  assumes "int n < 2 ^ 63" "rest = [] \<or> \<not> isdigit (hd rest)"
  shows "strtol10 (show_nat n @ rest) = int n"
proof -
  obtain c r where c: "show_nat n = c # r" "isdigit c" by (rule show_nat_Cons)
  have d: "dropWhile isspace (show_nat n @ rest) = show_nat n @ rest"
    using c isdigit_nonspace by simp
  have "dec_val 0 (takeWhile isdigit (show_nat n @ rest)) = n"
    using assms(2) by (subst takeWhile_digits_show_nat) auto
  then show ?thesis
    using assms(1) c isdigit_nonspace [OF c(2)] unfolding strtol10_def d by (simp add: Let_def)
qed

lemma strtol10_show_int:
  assumes "- (2 ^ 63) \<le> i" "i < 2 ^ 63" "rest = [] \<or> \<not> isdigit (hd rest)"
  shows "strtol10 (show_int i @ rest) = i"
proof (cases "i < 0")
  case True
  have "dec_val 0 (takeWhile isdigit (show_nat (nat (- i)) @ rest)) = nat (- i)"
    using assms(3) by (subst takeWhile_digits_show_nat) auto
  then show ?thesis
    using True assms(1) by (simp add: strtol10_def show_int_def isspace_def Let_def)
next
  case False
  then show ?thesis
    using strtol10_show_nat [of "nat i" rest] assms by (simp add: show_int_def)
qed

lemma atoi_show_int: "atoi (show_int (sint (w::word32))) = w"
proof -
  have "- (2 ^ 63) \<le> sint w" "sint w < 2 ^ 63"
    using sint_greater_eq [of w] sint_less [of w] by simp_all
  then have "strtol10 (show_int (sint w) @ []) = sint w"
    by (intro strtol10_show_int) auto
  then show ?thesis by (simp add: atoi_def)
qed

lemma show_int_inj: "show_int i = show_int j \<Longrightarrow> i = j"
proof -
  assume e: "show_int i = show_int j"
  obtain c r where c: "show_nat (nat i) = c # r" "isdigit c" by (rule show_nat_Cons)
  obtain d q where d: "show_nat (nat j) = d # q" "isdigit d" by (rule show_nat_Cons)
  have nd: "\<not> isdigit (CHR ''-'')" by (simp add: isdigit_def)
  have "(i < 0) = (j < 0)"
    using e c d nd by (auto simp: show_int_def split: if_splits)
  then have "nat (- i) = nat (- j) \<and> i < 0 \<and> j < 0 \<or> nat i = nat j \<and> \<not> i < 0 \<and> \<not> j < 0"
    using e show_nat_inj by (auto simp: show_int_def split: if_splits)
  then show "i = j" by auto
qed

end
