(* ===== verification/Util.thy ===== *)
theory Util
  imports Md5 Cstring
begin

text \<open>
  The utilities of \<open>src/util.cpp\<close>: trimming, the directory part of a path, the
  MD5 md5sum of a file, the checksum string of a file and regular expression
  matching.  The operating system is the parameter \<open>os\<close>: what \<open>lstat\<close> answers
  for a name, and what opening and reading a file yields, namely the pieces
  successive \<open>read\<close> calls deliver and whether the last call failed.  The
  POSIX regex functions are parameters of \<open>match_regex\<close>.
\<close>

section \<open>Trimming\<close>

definition ltrim :: "string \<Rightarrow> string" where
  "ltrim s = dropWhile isspace s"

definition rtrim :: "string \<Rightarrow> string" where
  "rtrim s = rev (dropWhile isspace (rev s))"

definition stringtrim :: "string \<Rightarrow> string" where
  "stringtrim s = ltrim (rtrim s)"

section \<open>The directory part of a path\<close>

definition is_sep :: "char \<Rightarrow> bool" where
  "is_sep c \<longleftrightarrow> code c = 47 \<or> code c = 92"   \<comment> \<open>slash or backslash\<close>

text \<open>\<open>find_last_of\<close>: the last position of a separator, \<open>None\<close> for \<open>npos\<close>.\<close>

definition find_last_of :: "(char \<Rightarrow> bool) \<Rightarrow> string \<Rightarrow> nat option" where
  "find_last_of p s = find (\<lambda>i. p (s ! i)) (rev [0..<length s])"

definition get_basedir :: "string \<Rightarrow> string" where
  "get_basedir str = (case find_last_of is_sep str of None \<Rightarrow> str | Some found \<Rightarrow> take found str)"

section \<open>Files\<close>

datatype errno = ENOENT | EOTHER

record stat =
  st_size :: word64
  st_mode :: word32
  st_uid :: word32
  st_gid :: word32

record os =
  lstat :: "string \<Rightarrow> errno + stat"
  open_read :: "string \<Rightarrow> (byte list list \<times> bool) option"

definition S_IFMT :: word32 where "S_IFMT = 0xF000"

definition S_ISREG :: "word32 \<Rightarrow> bool" where "S_ISREG m \<longleftrightarrow> m AND S_IFMT = 0x8000"
definition S_ISLNK :: "word32 \<Rightarrow> bool" where "S_ISLNK m \<longleftrightarrow> m AND S_IFMT = 0xA000"
definition S_ISDIR :: "word32 \<Rightarrow> bool" where "S_ISDIR m \<longleftrightarrow> m AND S_IFMT = 0x4000"

definition FILE_NOT_EXIST :: int where
  "FILE_NOT_EXIST = - 100"

section \<open>Checksums\<close>

definition hex_output :: "byte list \<Rightarrow> string" where
  "hex_output digest = concat (map show_02x digest)"

text \<open>
  The returned code and the C string left in \<open>checksum->str\<close>.  The argument
  \<open>state\<close> is the uninitialised \<open>md5_state_t\<close> on the stack.
\<close>

definition get_md5sum :: "'z os_scheme \<Rightarrow> md5_state \<Rightarrow> string \<Rightarrow> int \<times> string" where
  "get_md5sum os state fname =
     (case open_read os fname of
        None \<Rightarrow> (-1, '''')
      | Some (pieces, failed) \<Rightarrow>
          let st = fold (\<lambda>buff st. md5_append st buff (int (length buff))) pieces (md5_init state)
          in if failed then (-1, '''')
             else (0, hex_output (snd (md5_finish st))))"

definition cast_int :: "word64 \<Rightarrow> int" where
  "cast_int w = sint (ucast w :: word32)"

definition checksum_string :: "stat \<Rightarrow> string \<Rightarrow> string" where
  "checksum_string st md5sum =
     show_int (cast_int (st_size st)) @ '':'' @ show_int (sint (st_mode st)) @ '':''
     @ show_int (sint (st_uid st)) @ '':'' @ show_int (sint (st_gid st)) @ '':'' @ md5sum"

text \<open>The returned code and the string argument after the call.\<close>

definition get_checksum :: "'z os_scheme \<Rightarrow> md5_state \<Rightarrow> string \<Rightarrow> string \<Rightarrow> int \<times> string" where
  "get_checksum os state file_name checksum =
     (case lstat os file_name of
        Inl e \<Rightarrow> (if e = ENOENT then FILE_NOT_EXIST else -1, checksum)
      | Inr statbuf \<Rightarrow>
          if S_ISREG (st_mode statbuf) \<or> S_ISLNK (st_mode statbuf)
          then (0, checksum_string statbuf (snd (get_md5sum os state file_name)))
          else (-2, checksum))"

section \<open>Regular expressions\<close>

text \<open>
  \<open>rx\<close> stands for \<open>regcomp\<close> and \<open>regexec\<close>: \<open>None\<close> when the pattern does not
  compile, otherwise the predicate on subjects.
\<close>

definition match_regex :: "(string \<Rightarrow> (string \<Rightarrow> bool) option) \<Rightarrow> string \<Rightarrow> string \<Rightarrow> bool" where
  "match_regex rx str regex = (case rx regex of None \<Rightarrow> False | Some m \<Rightarrow> m str)"

section \<open>Facts on trimming and directories\<close>

lemma rtrim_append: "s = rtrim s @ drop (length (rtrim s)) s \<and> (\<forall>c\<in>set (drop (length (rtrim s)) s). isspace c)"
proof -
  have "rev s = takeWhile isspace (rev s) @ dropWhile isspace (rev s)" by simp
  then have "s = rtrim s @ rev (takeWhile isspace (rev s))"
    unfolding rtrim_def by (metis rev_append rev_rev_ident)
  moreover have "\<forall>c\<in>set (rev (takeWhile isspace (rev s))). isspace c"
    by (auto dest: set_takeWhileD)
  ultimately show ?thesis by (metis append_eq_conv_conj)
qed

lemma stringtrim_ends:
  "stringtrim s = [] \<or> \<not> isspace (hd (stringtrim s)) \<and> \<not> isspace (last (stringtrim s))"
proof (cases "stringtrim s = []")
  case False
  have h: "\<not> isspace (hd (stringtrim s))"
    using False hd_dropWhile [of isspace "rtrim s"] by (simp add: stringtrim_def ltrim_def)
  have ne: "rtrim s \<noteq> []" using False by (auto simp: stringtrim_def ltrim_def)
  have "last (stringtrim s) = last (rtrim s)"
    using False takeWhile_dropWhile_id [of isspace "rtrim s"]
    by (metis last_appendR ltrim_def stringtrim_def)
  moreover have "\<not> isspace (last (rtrim s))"
    using ne hd_dropWhile [of isspace "rev s"] by (simp add: rtrim_def last_rev)
  ultimately show ?thesis using h by simp
qed simp

lemma find_last_of_Some:
  "find_last_of p s = Some i \<longleftrightarrow> i < length s \<and> p (s ! i) \<and> (\<forall>j. i < j \<and> j < length s \<longrightarrow> \<not> p (s ! j))"
proof -
  have "find (\<lambda>i. p (s ! i)) (rev [0..<n]) = Some i \<longleftrightarrow>
      i < n \<and> p (s ! i) \<and> (\<forall>j. i < j \<and> j < n \<longrightarrow> \<not> p (s ! j))" for n
  proof (induction n)
    case (Suc n)
    show ?case
    proof (cases "p (s ! n)")
      case True
      have "n = i" if "i < Suc n" "\<forall>j. i < j \<and> j < Suc n \<longrightarrow> \<not> p (s ! j)"
        using that True by (metis lessI less_antisym)
      then show ?thesis using True by auto
    next
      case False
      then have "(\<exists>j. i < j \<and> j < Suc n \<and> p (s ! j)) = (\<exists>j. i < j \<and> j < n \<and> p (s ! j))"
        using less_Suc_eq by auto
      then show ?thesis using False Suc by (auto simp: less_Suc_eq)
    qed
  qed simp
  then show ?thesis by (simp add: find_last_of_def)
qed

lemma find_last_of_None: "find_last_of p s = None \<longleftrightarrow> (\<forall>c\<in>set s. \<not> p c)"
  by (auto simp: find_last_of_def find_None_iff all_set_conv_all_nth)

lemma get_basedir_split:
  assumes "\<forall>c\<in>set n. \<not> is_sep c" "is_sep c"
  shows "get_basedir (d @ c # n) = d"
proof -
  have "find_last_of is_sep (d @ c # n) = Some (length d)"
    unfolding find_last_of_Some using assms by (auto simp: nth_append nth_Cons')
  then show ?thesis by (simp add: get_basedir_def)
qed

lemma get_basedir_none: "\<forall>c\<in>set s. \<not> is_sep c \<Longrightarrow> get_basedir s = s"
  using find_last_of_None [of is_sep s] by (simp add: get_basedir_def)

lemma path_cases:
  obtains (none) "\<forall>c\<in>set s. \<not> is_sep c" "get_basedir s = s"
  | (split) d c n where "s = d @ c # n" "is_sep c" "\<forall>c\<in>set n. \<not> is_sep c" "get_basedir s = d"
proof (cases "\<exists>c\<in>set s. is_sep c")
  case True
  then obtain d c n where "s = d @ c # n" "is_sep c" "\<forall>c\<in>set n. \<not> is_sep c"
    using split_list_last_prop_iff [of s is_sep] by blast
  then show ?thesis using that(2) get_basedir_split by blast
next
  case False
  then show ?thesis using that(1) get_basedir_none by blast
qed

lemma get_basedir_shorter: "get_basedir s = s \<or> length (get_basedir s) < length s"
  by (cases s rule: path_cases) auto

section \<open>The checksum string\<close>

lemma xdigit_inj: "m < 16 \<Longrightarrow> n < 16 \<Longrightarrow> xdigit m = xdigit n \<Longrightarrow> m = n"
proof -
  assume a: "m < 16" "n < 16" "xdigit m = xdigit n"
  have v: "code (xdigit k) = (if k < 10 then 48 + k else 87 + k)" if "k < 16" for k
    using that by (simp add: xdigit_def)
  from a have "code (xdigit m) = code (xdigit n)" by simp
  then show "m = n" using a(1,2) by (simp add: v split: if_splits)
qed

lemma show_02x_inj: "show_02x a = show_02x b \<Longrightarrow> a = b"
proof -
  assume "show_02x a = show_02x b"
  then have "xdigit (unat a div 16) = xdigit (unat b div 16)" "xdigit (unat a mod 16) = xdigit (unat b mod 16)"
    by (simp_all add: show_02x_def)
  moreover have "unat w div 16 < 16" for w :: byte
  proof -
    have "unat w < 2 ^ LENGTH(8)" by (rule unsigned_less)
    then show ?thesis by simp
  qed
  ultimately have "unat a div 16 = unat b div 16" "unat a mod 16 = unat b mod 16"
    using xdigit_inj by simp_all
  then have "unat a = unat b" by (metis div_mult_mod_eq)
  then show "a = b" by (rule unsigned_word_eqI)
qed

lemma hex_output_inj: "hex_output xs = hex_output ys \<Longrightarrow> xs = ys"
proof (induction xs arbitrary: ys)
  case Nil
  then show ?case by (cases ys) (auto simp: hex_output_def show_02x_def)
next
  case (Cons x xs)
  then obtain y ys' where ys: "ys = y # ys'"
    by (cases ys) (auto simp: hex_output_def show_02x_def)
  then have "show_02x x @ hex_output xs = show_02x y @ hex_output ys'"
    using Cons.prems by (simp add: hex_output_def)
  then have "show_02x x = show_02x y" "hex_output xs = hex_output ys'"
    by (simp_all add: show_02x_def)
  then show ?case using Cons.IH ys show_02x_inj by blast
qed

lemma show_int_no_colon: "CHR '':'' \<notin> set (show_int i)"
proof -
  have "\<not> isdigit (CHR '':'')" by (simp add: isdigit_def)
  then show ?thesis using show_nat_digits unfolding show_int_def by auto
qed

lemma split_unique:
  "c \<notin> set a \<Longrightarrow> c \<notin> set b \<Longrightarrow> a @ c # r = b @ c # q \<Longrightarrow> a = b \<and> r = q"
proof (induction a arbitrary: b)
  case Nil
  then show ?case by (cases b) auto
next
  case (Cons x a)
  then obtain b' where "b = x # b'" by (cases b) auto
  then show ?case using Cons by simp
qed

lemma field_inj:
  "show_int i @ CHR '':'' # r = show_int j @ CHR '':'' # q \<Longrightarrow> i = j \<and> r = q"
  using split_unique [OF show_int_no_colon show_int_no_colon] show_int_inj by blast

lemma checksum_string_inj:
  assumes "checksum_string s1 m1 = checksum_string s2 m2"
  shows "cast_int (st_size s1) = cast_int (st_size s2) \<and> st_mode s1 = st_mode s2
    \<and> st_uid s1 = st_uid s2 \<and> st_gid s1 = st_gid s2 \<and> m1 = m2"
  using assms unfolding checksum_string_def
  by (auto dest!: field_inj intro: signed_word_eqI)

lemma get_md5sum_ok:
  assumes "open_read os f = Some (pieces, False)" "length (buf state) = 64"
  shows "get_md5sum os state f = (0, hex_output (rfc_md5 (concat pieces)))"
  using assms md5.digest_of_pieces [of state pieces]
  by (simp add: get_md5sum_def md5_ready_def Let_def)

section \<open>Properties\<close>

text \<open>
  The checksum of a readable file is \<open>size:mode:uid:gid:md5\<close> with the
  RFC 1321 digest of the whole contents in hexadecimal, however \<open>read\<close> cuts
  the contents into pieces and whatever the stack holds.
\<close>

theorem get_checksum_readable:
  assumes "lstat os f = Inr st" "S_ISREG (st_mode st) \<or> S_ISLNK (st_mode st)"
    and "open_read os f = Some (pieces, False)" "length (buf state) = 64"
  shows "get_checksum os state f c = (0, checksum_string st (hex_output (rfc_md5 (concat pieces))))"
  using assms get_md5sum_ok [OF assms(3,4)] by (simp add: get_checksum_def)

definition sample_os :: os where
  "sample_os = \<lparr>lstat = (\<lambda>f. if f = ''/etc/passwd''
       then Inr \<lparr>st_size = 3, st_mode = 0x81a4, st_uid = 0, st_gid = 0\<rparr> else Inl ENOENT),
     open_read = (\<lambda>f. if f = ''/etc/passwd'' then Some ([[97], [98, 99]], False) else None)\<rparr>"

theorem get_checksum_readable_witness:
  "get_checksum sample_os md5_blank ''/etc/passwd'' ''''
   = (0, checksum_string \<lparr>st_size = 3, st_mode = 0x81a4, st_uid = 0, st_gid = 0\<rparr>
        (hex_output (rfc_md5 [97, 98, 99])))"
proof -
  have m: "S_ISREG 0x81a4" by (simp add: S_ISREG_def S_IFMT_def)
  show ?thesis
    using get_checksum_readable [of sample_os "''/etc/passwd''"
        "\<lparr>st_size = 3, st_mode = 0x81a4, st_uid = 0, st_gid = 0\<rparr>" "[[97], [98, 99]]" md5_blank] m
    by (simp add: sample_os_def md5_blank_def)
qed

text \<open>
  C31. The checksum string determines what it is made of: two files with the
  same checksum have the same mode, owner and group, sizes equal as \<open>int\<close>, and
  contents with the same MD5 digest, so a change of any of these (short of an
  MD5 collision) changes the string.
\<close>

theorem get_checksum_determines:
  assumes "get_checksum os1 state f c1 = (0, s)" "get_checksum os2 state g c2 = (0, s)"
    and "lstat os1 f = Inr st1" "lstat os2 g = Inr st2"
    and "open_read os1 f = Some (p1, False)" "open_read os2 g = Some (p2, False)"
    and "length (buf state) = 64"
  shows "st_mode st1 = st_mode st2 \<and> st_uid st1 = st_uid st2 \<and> st_gid st1 = st_gid st2
    \<and> cast_int (st_size st1) = cast_int (st_size st2)
    \<and> rfc_md5 (concat p1) = rfc_md5 (concat p2)"
proof -
  have "checksum_string st1 (hex_output (rfc_md5 (concat p1)))
      = checksum_string st2 (hex_output (rfc_md5 (concat p2)))"
    using assms get_md5sum_ok [OF assms(5,7)] get_md5sum_ok [OF assms(6,7)]
    by (auto simp: get_checksum_def split: if_splits)
  then show ?thesis using checksum_string_inj hex_output_inj by blast
qed

theorem get_checksum_determines_witness:
  "\<exists>s. get_checksum sample_os md5_blank ''/etc/passwd'' '''' = (0, s) \<and>
     rfc_md5 (concat [[97], [98, 99]]) = rfc_md5 (concat [[97], [98, 99 :: byte]])"
proof -
  have m: "S_ISREG 0x81a4" by (simp add: S_ISREG_def S_IFMT_def)
  define s where "s = snd (get_checksum sample_os md5_blank ''/etc/passwd'' '''')"
  have c: "get_checksum sample_os md5_blank ''/etc/passwd'' '''' = (0, s)"
    using m by (simp add: get_checksum_def sample_os_def s_def)
  have "length (buf md5_blank) = 64" by (simp add: md5_blank_def)
  from get_checksum_determines [OF c c _ _ _ _ this]
  have "rfc_md5 (concat [[97], [98, 99]]) = rfc_md5 (concat [[97], [98, 99 :: byte]])"
    by (simp add: sample_os_def)
  with c show ?thesis by blast
qed

end
