(* ===== verification/Alerter.thy ===== *)
theory Alerter
  imports Util
begin

text \<open>
  The alert rules (\<open>src/alerter.h\<close>, \<open>src/alerter.cpp\<close>): a hash map from a
  directory and a level to action names, a hash map from action names to
  functions, and \<open>alert\<close>, which climbs from a directory towards the root until
  a rule applies and then calls the actions.  The state is a record of the two
  maps; the functions are an arbitrary type, and what \<open>alert\<close> does is the
  sequence of calls it makes.
\<close>

section \<open>State and operations\<close>

definition CHANGED :: int where "CHANGED = 1"
definition CREATED :: int where "CREATED = 2"
definition DELETED :: int where "DELETED = 3"

type_synonym conf_map = "string \<times> int \<rightharpoonup> string list"

record 'a alerter =
  conf :: conf_map
  actions :: "string \<rightharpoonup> 'a"

definition empty_alerter :: "'a alerter" where
  "empty_alerter = \<lparr>conf = Map.empty, actions = Map.empty\<rparr>"

definition add_action :: "string \<Rightarrow> 'a \<Rightarrow> 'a alerter \<Rightarrow> 'a alerter" where
  "add_action type act a = a\<lparr>actions := (actions a)(type \<mapsto> act)\<rparr>"

definition add_rule :: "int \<Rightarrow> string \<Rightarrow> string list \<Rightarrow> 'a alerter \<Rightarrow> 'a alerter" where
  "add_rule level dir type a =
     (if length (stringtrim dir) = 0 then a
      else a\<lparr>conf := (conf a)((dir, level) \<mapsto> type)\<rparr>)"

definition find_rule :: "'a alerter \<Rightarrow> int \<Rightarrow> string \<Rightarrow> string list option" where
  "find_rule a level dir = conf a (dir, level)"

text \<open>The do-while loop of \<open>alert\<close>: the rule found, if any.\<close>

function search_rule :: "'a alerter \<Rightarrow> int \<Rightarrow> string \<Rightarrow> string list option" where
  "search_rule a level path =
     (case find_rule a level path of
        Some action \<Rightarrow> Some action
      | None \<Rightarrow> if path \<noteq> get_basedir path then search_rule a level (get_basedir path) else None)"
  by pat_completeness auto
termination
proof (relation "measure (\<lambda>(a, level, path). length path)", goal_cases)
  case (2 a level path)
  then show ?case using get_basedir_shorter [of path] by simp
qed simp

declare search_rule.simps [simp del]

text \<open>One call of an action function: the function, the level, the directory, the file.\<close>

type_synonym 'a call = "'a \<times> int \<times> string \<times> string"

definition run_actions :: "'a alerter \<Rightarrow> int \<Rightarrow> string \<Rightarrow> string \<Rightarrow> string list \<Rightarrow> 'a call list" where
  "run_actions a level dir name action =
     concat (map (\<lambda>t. case actions a t of Some f \<Rightarrow> [(f, level, dir, name)] | None \<Rightarrow> []) action)"

definition alert :: "'a alerter \<Rightarrow> int \<Rightarrow> string \<Rightarrow> string \<Rightarrow> 'a call list" where
  "alert a level dir name =
     (case search_rule a level dir of
        None \<Rightarrow> []
      | Some action \<Rightarrow> run_actions a level dir name action)"

section \<open>Which rule applies\<close>

text \<open>A directory above another one (or itself): the path cut at one of its separators.\<close>

definition covers :: "string \<Rightarrow> string \<Rightarrow> bool" where
  "covers p dir \<longleftrightarrow> p = dir \<or> (\<exists>c r. dir = p @ c # r \<and> is_sep c)"

lemma covers_refl [simp]: "covers p p"
  by (simp add: covers_def)

lemma covers_length: "covers p d \<Longrightarrow> length p \<le> length d"
  by (auto simp: covers_def)

lemma covers_unique: "covers p d \<Longrightarrow> covers q d \<Longrightarrow> length p = length q \<Longrightarrow> p = q"
  by (auto simp: covers_def append_eq_append_conv)

lemma covers_basedir:
  assumes "p \<noteq> dir"
  shows "covers p dir \<longleftrightarrow> get_basedir dir \<noteq> dir \<and> covers p (get_basedir dir)"
proof (cases dir rule: path_cases)
  case none
  then show ?thesis using assms by (auto simp: covers_def)
next
  case (split d c n)
  have "(\<exists>e r. dir = p @ e # r \<and> is_sep e) \<longleftrightarrow> covers p d"
  proof
    assume "\<exists>e r. dir = p @ e # r \<and> is_sep e"
    then obtain e r where e: "d @ c # n = p @ e # r" "is_sep e" using split(1) by auto
    then consider us where "d = p @ us" "us @ c # n = e # r" | us where "p = d @ us" "c # n = us @ e # r"
      by (auto simp: append_eq_append_conv2)
    then show "covers p d"
    proof cases
      case 1
      then show ?thesis using e(2) by (cases us) (auto simp: covers_def)
    next
      case 2
      then have "us = [] \<or> e \<in> set n" by (cases us) auto
      then show ?thesis using split(3) e(2) 2(1) by auto
    qed
  next
    assume "covers p d"
    then show "\<exists>e r. dir = p @ e # r \<and> is_sep e" using split(1,2) by (auto simp: covers_def)
  qed
  then show ?thesis using assms split(1,4) by (auto simp: covers_def)
qed

lemma search_rule_spec:
  "search_rule a level dir = Some act \<longleftrightarrow>
   (\<exists>p. covers p dir \<and> conf a (p, level) = Some act
      \<and> (\<forall>q. covers q dir \<and> length p < length q \<longrightarrow> conf a (q, level) = None))"
proof (induction a level dir rule: search_rule.induct)
  case (1 a level dir)
  show ?case
  proof (cases "conf a (dir, level)")
    case (Some act')
    then have "search_rule a level dir = Some act'"
      by (simp add: search_rule.simps [of a level dir] find_rule_def)
    moreover have near: "p = dir" if "covers p dir" "\<forall>q. covers q dir \<and> length p < length q \<longrightarrow> conf a (q, level) = None" for p
      using that Some covers_length [OF that(1)] covers_unique [OF that(1) covers_refl] le_neq_implies_less
      by (metis covers_refl option.distinct(1))
    moreover have "covers dir dir \<and> (\<forall>q. covers q dir \<and> length dir < length q \<longrightarrow> conf a (q, level) = None)"
      using covers_length by (auto simp: not_less [symmetric])
    ultimately show ?thesis using Some near by (metis option.inject)
  next
    case None
    have iff: "covers p dir \<and> conf a (p, level) = Some act \<longleftrightarrow>
        get_basedir dir \<noteq> dir \<and> covers p (get_basedir dir) \<and> conf a (p, level) = Some act" for p
      using covers_basedir [of p dir] None by (cases "p = dir") (auto dest: covers_length)
    show ?thesis
    proof (cases "get_basedir dir = dir")
      case True
      then have "search_rule a level dir = None"
        using None by (simp add: search_rule.simps [of a level dir] find_rule_def)
      then show ?thesis using iff True by (metis option.distinct(1))
    next
      case False
      then have s: "search_rule a level dir = search_rule a level (get_basedir dir)"
        using None by (simp add: search_rule.simps [of a level dir] find_rule_def)
      have near: "(\<forall>q. covers q dir \<and> length p < length q \<longrightarrow> conf a (q, level) = None) \<longleftrightarrow>
          (\<forall>q. covers q (get_basedir dir) \<and> length p < length q \<longrightarrow> conf a (q, level) = None)" for p
      proof -
        have "covers q dir \<and> conf a (q, level) \<noteq> None \<longleftrightarrow> covers q (get_basedir dir) \<and> conf a (q, level) \<noteq> None" for q
          using covers_basedir [of q dir] None False by (cases "q = dir") (auto dest: covers_length)
        then show ?thesis by blast
      qed
      have "covers p dir \<and> conf a (p, level) = Some act
          \<and> (\<forall>q. covers q dir \<and> length p < length q \<longrightarrow> conf a (q, level) = None) \<longleftrightarrow>
        covers p (get_basedir dir) \<and> conf a (p, level) = Some act
          \<and> (\<forall>q. covers q (get_basedir dir) \<and> length p < length q \<longrightarrow> conf a (q, level) = None)" for p
        using iff [of p] near [of p] False by blast
      then show ?thesis
        using "1.IH" [OF _ False [symmetric]] None s by (simp add: find_rule_def)
    qed
  qed
qed

lemma covers_root: "covers ''/'' (c # d # r) \<Longrightarrow> is_sep d"
  by (auto simp: covers_def)

section \<open>Properties\<close>

text \<open>
  The nearest rule decides: an alert makes the calls of the rule for the
  longest path that covers the directory and has one for the level, each
  action in the rule's order, names without a function skipped; when no
  covering path has a rule it makes no call.
\<close>

theorem alert_nearest_rule:
  "((\<forall>p. covers p dir \<longrightarrow> conf a (p, level) = None) \<longrightarrow> alert a level dir name = []) \<and>
   (\<forall>p act. covers p dir \<and> conf a (p, level) = Some act
        \<and> (\<forall>q. covers q dir \<and> length p < length q \<longrightarrow> conf a (q, level) = None)
      \<longrightarrow> alert a level dir name = run_actions a level dir name act)"
proof -
  have s: "search_rule a level dir = Some act" if "covers p dir \<and> conf a (p, level) = Some act
        \<and> (\<forall>q. covers q dir \<and> length p < length q \<longrightarrow> conf a (q, level) = None)" for p act
    using that search_rule_spec by blast
  have n: "search_rule a level dir = None" if "\<forall>p. covers p dir \<longrightarrow> conf a (p, level) = None"
    using that search_rule_spec [of a level dir] by (metis option.distinct(1) option.exhaust)
  show ?thesis
    using s n by (simp add: alert_def)
qed

theorem alert_nearest_rule_witness:
  "alert (add_rule 2 ''/etc'' [''log'', ''pager'', ''mail''] (add_rule 2 ''/'' [''mail'']
      (add_action ''mail'' (1::nat) (add_action ''log'' 0 empty_alerter)))) 2 ''/etc/ssh'' ''/etc/ssh/key''
   = [(0, 2, ''/etc/ssh'', ''/etc/ssh/key''), (1, 2, ''/etc/ssh'', ''/etc/ssh/key'')]"
  (is "alert ?a 2 ?d ?n = _")
proof -
  have "conf ?a (q, 2) = None" if q: "covers q ?d" "length ''/etc'' < length q" for q
    using q by (auto simp: covers_def add_rule_def add_action_def empty_alerter_def)
  moreover have "covers ''/etc'' ?d" by (auto simp: covers_def is_sep_def)
  moreover have "conf ?a (''/etc'', 2) = Some [''log'', ''pager'', ''mail'']"
    by (simp add: add_rule_def stringtrim_def ltrim_def rtrim_def isspace_def)
  ultimately have "alert ?a 2 ?d ?n = run_actions ?a 2 ?d ?n [''log'', ''pager'', ''mail'']"
    using alert_nearest_rule [of ?d ?a 2 ?n] by blast
  then show ?thesis
    by (simp add: run_actions_def add_rule_def add_action_def empty_alerter_def)
qed

text \<open>
  A rule for the root directory covers nothing below it: from \<open>/etc\<close> the
  search goes on to the empty path and never tries \<open>/\<close>, so adding a rule for
  \<open>/\<close> changes the alerts of no directory below it.
\<close>

theorem root_rule_not_inherited:
  assumes "dir = CHR ''/'' # c # r" "\<not> is_sep c"
  shows "alert (add_rule level ''/'' act a) level' dir name = alert a level' dir name"
proof -
  have c: "conf (add_rule level ''/'' act a) (p, level') = conf a (p, level')" if "covers p dir" for p
    using that assms covers_root by (auto simp: add_rule_def)
  have "search_rule (add_rule level ''/'' act a) level' dir = Some act' \<longleftrightarrow>
      search_rule a level' dir = Some act'" for act'
    unfolding search_rule_spec using c by metis
  then have "search_rule (add_rule level ''/'' act a) level' dir = search_rule a level' dir"
    by (metis option.exhaust)
  moreover have "actions (add_rule level ''/'' act a) = actions a" by (simp add: add_rule_def)
  ultimately show ?thesis by (simp add: alert_def run_actions_def split: option.split)
qed

theorem root_rule_not_inherited_witness:
  "alert (add_rule 1 ''/'' [''log''] (add_action ''log'' (0::nat) empty_alerter)) 1 ''/etc'' ''/etc/passwd''
   = alert (add_action ''log'' (0::nat) empty_alerter) 1 ''/etc'' ''/etc/passwd''"
  by (rule root_rule_not_inherited) (auto simp: is_sep_def)

end
