(* ===== verification/FileDb.thy ===== *)
theory FileDb
  imports Cstring "HOL-Library.Sublist"
begin

text \<open>
  The checksum database (\<open>src/file_db.h\<close>, \<open>src/file_db.cpp\<close>): the SQL text
  each operation builds in its fixed-size buffer and the answer it makes of
  SQLite's.  SQLite itself is not part of the repository: it is the parameter
  \<open>eng\<close>, a function from statement texts and database states, and what the
  program relies on is the locale \<open>sqlite_files\<close>, the documented meaning of the
  four statement forms.  A small interpreter of these forms, \<open>ref_engine\<close>,
  satisfies it.
\<close>

section \<open>The interface to SQLite\<close>

record 'db sqlite =
  sql_exec :: "string \<Rightarrow> 'db \<Rightarrow> int \<times> 'db"
    \<comment> \<open>\<open>sqlite3_exec\<close>: result code and new database\<close>
  sql_query :: "string \<Rightarrow> 'db \<Rightarrow> (string option \<times> int) option"
    \<comment> \<open>prepare and first step: columns 0 (text, may be NULL) and 1 (int64) of the first row\<close>

definition execute :: "'db sqlite \<Rightarrow> string \<Rightarrow> 'db \<Rightarrow> int \<times> 'db" where
  "execute eng sql db = (let (rc, db') = sql_exec eng sql db in (if rc \<noteq> 0 then -1 else 0, db'))"

section \<open>Statement texts\<close>

abbreviation quote :: char where "quote \<equiv> CHR 0x27"
abbreviation dquote :: char where "dquote \<equiv> CHR 0x22"

definition create_text :: string where
  "create_text = ''CREATE TABLE IF NOT EXISTS files (name TEXT, md5sum TEXT, timestamp INTEGER)''"

definition select_text :: "string \<Rightarrow> string" where
  "select_text name = ''select md5sum, timestamp from files where name = '' @ [dquote] @ name @ [dquote]"

definition insert_text :: "string \<Rightarrow> string \<Rightarrow> int \<Rightarrow> string" where
  "insert_text name md5sum now = ''insert into files (name, md5sum, timestamp) values ('' @ [quote] @ name
     @ [quote] @ '', '' @ [quote] @ md5sum @ [quote] @ '', '' @ show_int now @ '')''"

definition update_text :: "string \<Rightarrow> string \<Rightarrow> int \<Rightarrow> string" where
  "update_text name md5sum now = ''update files set md5sum = '' @ [quote] @ md5sum @ [quote]
     @ '', timestamp = '' @ show_int now @ '' where name ='' @ [quote] @ name @ [quote]"

definition delete_text :: "string \<Rightarrow> string" where
  "delete_text name = ''delete from files where name ='' @ [quote] @ name @ [quote]"

section \<open>The operations\<close>

text \<open>The constructor; \<open>open_rc\<close> is what \<open>sqlite3_open\<close> returned.  \<open>Inl\<close> is the exception thrown.\<close>

definition FileDB_open :: "'db sqlite \<Rightarrow> int \<Rightarrow> 'db \<Rightarrow> string + 'db" where
  "FileDB_open eng open_rc db =
     (if open_rc \<noteq> 0 then Inl ''sqlite3 open failed''
      else let (rc, db') = execute eng create_text db
           in if rc \<noteq> 0 then Inl ''init sqlite3 db failed'' else Inr db')"

text \<open>
  \<open>FileDB::find\<close>.  The outer \<open>None\<close> is the undefined behaviour of \<open>sprintf\<close>
  writing past \<open>stmt[512]\<close>; \<open>Some None\<close> is the return value -1, and
  \<open>Some (Some (md5sum, timestamp))\<close> the return value 0 with the two results.
\<close>

definition FileDB_find :: "'db sqlite \<Rightarrow> 'db \<Rightarrow> string \<Rightarrow> (string \<times> int) option option" where
  "FileDB_find eng db name =
     (if length (select_text name) \<ge> 512 then None
      else Some (case sql_query eng (select_text name) db of
          Some (Some md5sum, ts) \<Rightarrow> Some (md5sum, ts)
        | _ \<Rightarrow> None))"

text \<open>\<open>snprintf\<close> into \<open>sql[1024]\<close> keeps 1023 characters.  \<open>now\<close> is the clock.\<close>

definition FileDB_insert :: "'db sqlite \<Rightarrow> int \<Rightarrow> string \<Rightarrow> string \<Rightarrow> 'db \<Rightarrow> int \<times> 'db" where
  "FileDB_insert eng now name md5sum db = execute eng (take 1023 (insert_text name md5sum now)) db"

definition FileDB_update :: "'db sqlite \<Rightarrow> int \<Rightarrow> string \<Rightarrow> string \<Rightarrow> 'db \<Rightarrow> int \<times> 'db" where
  "FileDB_update eng now name md5sum db = execute eng (take 1023 (update_text name md5sum now)) db"

definition FileDB_del :: "'db sqlite \<Rightarrow> string \<Rightarrow> 'db \<Rightarrow> int \<times> 'db" where
  "FileDB_del eng name db = execute eng (take 1023 (delete_text name)) db"

section \<open>What the program relies on\<close>

text \<open>
  Texts that need no quoting, and names that in addition are no column names
  for SQLite (which reads a double-quoted text as an identifier first).
\<close>

definition text_ok :: "string \<Rightarrow> bool" where
  "text_ok s \<longleftrightarrow> quote \<notin> set s \<and> dquote \<notin> set s"

definition name_ok :: "string \<Rightarrow> bool" where
  "name_ok n \<longleftrightarrow> text_ok n \<and> CHR ''/'' \<in> set n"

text \<open>The range of \<open>time_t\<close>.\<close>

definition time_ok :: "int \<Rightarrow> bool" where
  "time_ok t \<longleftrightarrow> - (2 ^ 63) \<le> t \<and> t < 2 ^ 63"

lemma map_of_append_row: "n \<notin> set (map fst rs) \<Longrightarrow> map_of (rs @ [(n, x)]) = (map_of rs)(n \<mapsto> x)"
  by (induction rs) (auto simp: fun_eq_iff)

text \<open>The laws: \<open>rows\<close> is the table, \<open>good\<close> says that the table exists.\<close>

locale sqlite_files =
  fixes eng :: "'db sqlite"
    and rows :: "'db \<Rightarrow> (string \<times> string \<times> int) list"
    and good :: "'db \<Rightarrow> bool"
  assumes exec_insert: "good db \<Longrightarrow> name_ok n \<Longrightarrow> text_ok s \<Longrightarrow> time_ok t \<Longrightarrow>
      \<exists>db'. sql_exec eng (insert_text n s t) db = (0, db') \<and> good db' \<and> rows db' = rows db @ [(n, s, t)]"
    and exec_update: "good db \<Longrightarrow> name_ok n \<Longrightarrow> text_ok s \<Longrightarrow> time_ok t \<Longrightarrow>
      \<exists>db'. sql_exec eng (update_text n s t) db = (0, db') \<and> good db'
        \<and> rows db' = map (\<lambda>(m, r). if m = n then (m, s, t) else (m, r)) (rows db)"
    and exec_delete: "good db \<Longrightarrow> name_ok n \<Longrightarrow>
      \<exists>db'. sql_exec eng (delete_text n) db = (0, db') \<and> good db'
        \<and> rows db' = filter (\<lambda>(m, r). m \<noteq> n) (rows db)"
    and query_select: "good db \<Longrightarrow> name_ok n \<Longrightarrow> distinct (map fst (rows db)) \<Longrightarrow>
      sql_query eng (select_text n) db = map_option (\<lambda>(s, t). (Some s, t)) (map_of (rows db) n)"
begin

text \<open>A database the program has built: the table exists and names are unique.\<close>

definition db_ok :: "'db \<Rightarrow> bool" where
  "db_ok db \<longleftrightarrow> good db \<and> distinct (map fst (rows db))"

definition files :: "'db \<Rightarrow> string \<rightharpoonup> string \<times> int" where
  "files db = map_of (rows db)"

lemma find_files:
  "db_ok db \<Longrightarrow> name_ok n \<Longrightarrow> length (select_text n) < 512 \<Longrightarrow> FileDB_find eng db n = Some (files db n)"
  by (auto simp: FileDB_find_def files_def db_ok_def query_select split: option.split)

lemma insert_files:
  assumes "db_ok db" "name_ok n" "text_ok s" "time_ok t" "length (insert_text n s t) < 1024" "files db n = None"
  shows "\<exists>db'. FileDB_insert eng t n s db = (0, db') \<and> db_ok db' \<and> files db' = (files db)(n \<mapsto> (s, t))"
proof -
  obtain db' where d: "sql_exec eng (insert_text n s t) db = (0, db')" "good db'"
      "rows db' = rows db @ [(n, s, t)]"
    using exec_insert [of db n s t] assms by (auto simp: db_ok_def)
  have "n \<notin> set (map fst (rows db))"
    using assms(6) by (auto simp: files_def map_of_eq_None_iff)
  then have "map_of (rows db @ [(n, s, t)]) = (map_of (rows db))(n \<mapsto> (s, t))"
    by (rule map_of_append_row)
  then have "db_ok db' \<and> files db' = (files db)(n \<mapsto> (s, t))"
    using d assms(1) \<open>n \<notin> set (map fst (rows db))\<close> by (simp add: db_ok_def files_def)
  then show ?thesis using d assms(5) by (auto simp: FileDB_insert_def execute_def)
qed

lemma map_of_update_rows:
  "map_of (map (\<lambda>(m, r). if m = n then (m, x) else (m, r)) rs)
   = (if n \<in> set (map fst rs) then (map_of rs)(n \<mapsto> x) else map_of rs)"
  by (induction rs) (auto simp: fun_eq_iff)

lemma update_files:
  assumes "db_ok db" "name_ok n" "text_ok s" "time_ok t" "length (update_text n s t) < 1024" "files db n \<noteq> None"
  shows "\<exists>db'. FileDB_update eng t n s db = (0, db') \<and> db_ok db' \<and> files db' = (files db)(n \<mapsto> (s, t))"
proof -
  obtain db' where d: "sql_exec eng (update_text n s t) db = (0, db')" "good db'"
      "rows db' = map (\<lambda>(m, r). if m = n then (m, s, t) else (m, r)) (rows db)"
    using exec_update [of db n s t] assms by (auto simp: db_ok_def)
  have k: "map fst (rows db') = map fst (rows db)"
    unfolding d(3) by (auto simp: comp_def case_prod_beta)
  have "n \<in> set (map fst (rows db))"
    using assms(6) by (auto simp: files_def map_of_eq_None_iff)
  then have "files db' = (files db)(n \<mapsto> (s, t))"
    using d map_of_update_rows [of n "(s, t)" "rows db"] by (simp add: files_def)
  moreover have "db_ok db'"
    using d(2) assms(1) unfolding db_ok_def k by simp
  ultimately show ?thesis using d assms(5) by (auto simp: FileDB_update_def execute_def)
qed

lemma map_of_filter_rows: "map_of (filter (\<lambda>(m, r). m \<noteq> n) rs) = (map_of rs)(n := None)"
  by (induction rs) (auto simp: fun_eq_iff)

lemma del_files:
  assumes "db_ok db" "name_ok n" "length (delete_text n) < 1024"
  shows "\<exists>db'. FileDB_del eng n db = (0, db') \<and> db_ok db' \<and> files db' = (files db)(n := None)"
proof -
  obtain db' where d: "sql_exec eng (delete_text n) db = (0, db')" "good db'"
      "rows db' = filter (\<lambda>(m, r). m \<noteq> n) (rows db)"
    using exec_delete [of db n] assms by (auto simp: db_ok_def)
  have "distinct (map fst (rows db'))"
    unfolding d(3) using assms(1) by (simp add: db_ok_def distinct_map_filter)
  then have "db_ok db' \<and> files db' = (files db)(n := None)"
    using d by (simp add: db_ok_def files_def map_of_filter_rows)
  then show ?thesis using d assms(3) by (auto simp: FileDB_del_def execute_def)
qed

end

section \<open>An interpreter of the four statement forms\<close>

type_synonym table = "(string \<times> string \<times> int) list"

definition expect :: "string \<Rightarrow> string \<Rightarrow> string option" where
  "expect pre s = (if prefix pre s then Some (drop (length pre) s) else None)"

definition upto_char :: "char \<Rightarrow> string \<Rightarrow> string \<times> string" where
  "upto_char c s = (takeWhile (\<lambda>d. d \<noteq> c) s, drop 1 (dropWhile (\<lambda>d. d \<noteq> c) s))"

definition ref_insert :: "string \<Rightarrow> table \<Rightarrow> table option" where
  "ref_insert sql db =
     (case expect (''insert into files (name, md5sum, timestamp) values ('' @ [quote]) sql of
        None \<Rightarrow> None
      | Some r \<Rightarrow> (let (n, r1) = upto_char quote r in
          case expect ('', '' @ [quote]) r1 of
            None \<Rightarrow> None
          | Some r2 \<Rightarrow> (let (s, r3) = upto_char quote r2 in
              case expect '', '' r3 of
                None \<Rightarrow> None
              | Some r4 \<Rightarrow> (let (t, r5) = upto_char (CHR '')'') r4 in
                  if r5 = [] then Some (db @ [(n, s, strtol10 t)]) else None))))"

definition ref_update :: "string \<Rightarrow> table \<Rightarrow> table option" where
  "ref_update sql db =
     (case expect (''update files set md5sum = '' @ [quote]) sql of
        None \<Rightarrow> None
      | Some r \<Rightarrow> (let (s, r1) = upto_char quote r in
          case expect '', timestamp = '' r1 of
            None \<Rightarrow> None
          | Some r2 \<Rightarrow> (let (t, r3) = upto_char (CHR '' '') r2 in
              case expect (''where name ='' @ [quote]) r3 of
                None \<Rightarrow> None
              | Some r4 \<Rightarrow> (let (n, r5) = upto_char quote r4 in
                  if r5 = [] then Some (map (\<lambda>(m, r). if m = n then (m, s, strtol10 t) else (m, r)) db)
                  else None))))"

definition ref_delete :: "string \<Rightarrow> table \<Rightarrow> table option" where
  "ref_delete sql db =
     (case expect (''delete from files where name ='' @ [quote]) sql of
        None \<Rightarrow> None
      | Some r \<Rightarrow> (let (n, r1) = upto_char quote r in
          if r1 = [] then Some (filter (\<lambda>(m, r). m \<noteq> n) db) else None))"

definition ref_select :: "string \<Rightarrow> table \<Rightarrow> (string option \<times> int) option" where
  "ref_select sql db =
     (case expect (''select md5sum, timestamp from files where name = '' @ [dquote]) sql of
        None \<Rightarrow> None
      | Some r \<Rightarrow> (let (n, r1) = upto_char dquote r in
          map_option (\<lambda>(s, t). (Some s, t)) (map_of db n)))"

definition ref_exec :: "string \<Rightarrow> table \<Rightarrow> int \<times> table" where
  "ref_exec sql db =
     (case ref_insert sql db of Some db' \<Rightarrow> (0, db') | None \<Rightarrow>
      (case ref_update sql db of Some db' \<Rightarrow> (0, db') | None \<Rightarrow>
       (case ref_delete sql db of Some db' \<Rightarrow> (0, db') | None \<Rightarrow>
        if sql = create_text then (0, db) else (1, db))))"

definition ref_engine :: "table sqlite" where
  "ref_engine = \<lparr>sql_exec = ref_exec, sql_query = ref_select\<rparr>"

lemma expect_append [simp]: "expect pre (pre @ r) = Some r"
  by (simp add: expect_def)

lemma upto_char_append [simp]: "c \<notin> set s \<Longrightarrow> upto_char c (s @ c # r) = (s, r)"
  by (induction s) (auto simp: upto_char_def)

lemma expect_head: "pre \<noteq> [] \<Longrightarrow> s \<noteq> [] \<Longrightarrow> hd pre \<noteq> hd s \<Longrightarrow> expect pre s = None"
  by (cases pre; cases s) (auto simp: expect_def)

lemma show_int_chars: "c \<in> set (show_int i) \<Longrightarrow> isdigit c \<or> c = CHR ''-''"
  using show_nat_digits by (auto simp: show_int_def split: if_splits)

lemma show_int_no_paren: "CHR '')'' \<notin> set (show_int i)" "CHR '' '' \<notin> set (show_int i)"
  using show_int_chars [of "CHR '')''" i] show_int_chars [of "CHR '' ''" i] by (auto simp: isdigit_def)

lemma strtol10_show_time: "time_ok t \<Longrightarrow> strtol10 (show_int t) = t"
  using strtol10_show_int [of t "[]"] by (simp add: time_ok_def)

lemma ref_insert_text:
  assumes "text_ok n" "text_ok s" "time_ok t"
  shows "ref_insert (insert_text n s t) db = Some (db @ [(n, s, t)])"
proof -
  have e: "insert_text n s t = (''insert into files (name, md5sum, timestamp) values ('' @ [quote]) @ n @ quote #
      (('', '' @ [quote]) @ s @ quote # ('', '' @ show_int t @ CHR '')'' # []))"
    by (simp add: insert_text_def)
  show ?thesis
    unfolding ref_insert_def e expect_append
    using assms show_int_no_paren(1) [of t] strtol10_show_time
    by (simp only: option.case upto_char_append text_ok_def Let_def prod.case expect_append append_Nil2 if_True simp_thms)
qed

lemma ref_update_text:
  assumes "text_ok n" "text_ok s" "time_ok t"
  shows "ref_update (update_text n s t) db = Some (map (\<lambda>(m, r). if m = n then (m, s, t) else (m, r)) db)"
proof -
  have e: "update_text n s t = (''update files set md5sum = '' @ [quote]) @ s @ quote #
      ('', timestamp = '' @ show_int t @ CHR '' '' # ((''where name ='' @ [quote]) @ n @ quote # []))"
    by (simp add: update_text_def)
  show ?thesis
    unfolding ref_update_def e expect_append
    using assms show_int_no_paren(2) [of t] strtol10_show_time
    by (simp only: option.case upto_char_append text_ok_def Let_def prod.case expect_append if_True simp_thms)
qed

lemma ref_delete_text:
  assumes "text_ok n"
  shows "ref_delete (delete_text n) db = Some (filter (\<lambda>(m, r). m \<noteq> n) db)"
proof -
  have e: "delete_text n = (''delete from files where name ='' @ [quote]) @ n @ quote # []"
    by (simp add: delete_text_def)
  show ?thesis
    unfolding ref_delete_def e expect_append
    using assms by (simp only: option.case upto_char_append text_ok_def Let_def prod.case if_True simp_thms)
qed

lemma ref_select_text:
  assumes "text_ok n"
  shows "ref_select (select_text n) db = map_option (\<lambda>(s, t). (Some s, t)) (map_of db n)"
proof -
  have e: "select_text n = (''select md5sum, timestamp from files where name = '' @ [dquote]) @ n @ dquote # []"
    by (simp add: select_text_def)
  show ?thesis
    unfolding ref_select_def e expect_append
    using assms by (simp only: option.case upto_char_append text_ok_def Let_def prod.case simp_thms)
qed

lemma ref_other_forms:
  "ref_insert (update_text n s t) db = None" "ref_insert (delete_text n) db = None"
  "ref_update (delete_text n) db = None"
  by (simp_all add: ref_insert_def ref_update_def update_text_def delete_text_def expect_def)

interpretation ref_files: sqlite_files ref_engine "\<lambda>db. db" "\<lambda>db. True"
proof
  fix db :: table and n s :: string and t :: int
  assume n: "name_ok n"
  then have n': "text_ok n" by (simp add: name_ok_def)
  show "sql_query ref_engine (select_text n) db = map_option (\<lambda>(s, t). (Some s, t)) (map_of db n)"
    using n' by (simp add: ref_engine_def ref_select_text)
  show "\<exists>db'. sql_exec ref_engine (delete_text n) db = (0, db') \<and> True
      \<and> db' = filter (\<lambda>(m, r). m \<noteq> n) db"
    using n' by (simp add: ref_engine_def ref_exec_def ref_other_forms ref_delete_text)
  assume s: "text_ok s" "time_ok t"
  show "\<exists>db'. sql_exec ref_engine (insert_text n s t) db = (0, db') \<and> True \<and> db' = db @ [(n, s, t)]"
    using n' s by (simp add: ref_engine_def ref_exec_def ref_insert_text)
  show "\<exists>db'. sql_exec ref_engine (update_text n s t) db = (0, db') \<and> True
      \<and> db' = map (\<lambda>(m, r). if m = n then (m, s, t) else (m, r)) db"
    using n' s by (simp add: ref_engine_def ref_exec_def ref_other_forms ref_update_text)
qed

section \<open>Lengths of the statements\<close>

lemma select_text_length: "length (select_text n) = 51 + length n"
  by (simp add: select_text_def)

lemma show_nat_length: "n < 10 ^ k \<Longrightarrow> 0 < k \<Longrightarrow> length (show_nat n) \<le> k"
proof (induction n arbitrary: k rule: show_nat.induct)
  case (1 n)
  show ?case
  proof (cases "n < 10")
    case True
    then show ?thesis using "1.prems" by (simp add: show_nat.simps [of n])
  next
    case False
    with "1.prems" obtain j where k: "k = Suc j" "0 < j" by (cases k; cases "k - 1") auto
    then have "n div 10 < 10 ^ j" using "1.prems" by simp
    then show ?thesis using "1.IH" [OF False _ k(2)] False k by (simp add: show_nat.simps [of n])
  qed
qed

lemma show_time_length: "time_ok t \<Longrightarrow> length (show_int t) \<le> 20"
proof -
  assume "time_ok t"
  then have "nat (- t) < 10 ^ 19" "nat t < 10 ^ 19" by (auto simp: time_ok_def)
  then show ?thesis using show_nat_length [of _ 19] by (fastforce simp: show_int_def)
qed

lemma text_lengths:
  assumes "length n \<le> 450" "length s \<le> 450" "time_ok t"
  shows "length (select_text n) < 512" "length (insert_text n s t) < 1024"
    "length (update_text n s t) < 1024" "length (delete_text n) < 1024"
  using assms show_time_length [of t]
  by (simp_all add: select_text_def insert_text_def update_text_def delete_text_def)

section \<open>Properties\<close>

text \<open>
  C15. The database is a finite map from file names to checksum and time: on
  any SQLite that gives the statements their documented meaning, and for names
  and checksums that need no quoting and fit the buffers, an insertion of a new
  name, an update of a known one and a deletion succeed, \<open>find\<close> then delivers
  exactly what was stored (or nothing), and no other name is affected.
\<close>

theorem FileDB_is_map:
  assumes "sqlite_files eng rows good" "good db" "distinct (map fst (rows db))"
    and "name_ok n" "text_ok s" "time_ok t" "length n \<le> 450" "length s \<le> 450"
  shows "(map_of (rows db) n = None \<longrightarrow> (\<exists>db'. FileDB_insert eng t n s db = (0, db') \<and> good db'
           \<and> distinct (map fst (rows db')) \<and> FileDB_find eng db' n = Some (Some (s, t))
           \<and> (\<forall>m. m \<noteq> n \<and> name_ok m \<longrightarrow> FileDB_find eng db' m = FileDB_find eng db m)))
    \<and> (map_of (rows db) n \<noteq> None \<longrightarrow> (\<exists>db'. FileDB_update eng t n s db = (0, db') \<and> good db'
           \<and> distinct (map fst (rows db')) \<and> FileDB_find eng db' n = Some (Some (s, t))
           \<and> (\<forall>m. m \<noteq> n \<and> name_ok m \<longrightarrow> FileDB_find eng db' m = FileDB_find eng db m)))
    \<and> (\<exists>db'. FileDB_del eng n db = (0, db') \<and> good db'
           \<and> distinct (map fst (rows db')) \<and> FileDB_find eng db' n = Some None
           \<and> (\<forall>m. m \<noteq> n \<and> name_ok m \<longrightarrow> FileDB_find eng db' m = FileDB_find eng db m))"
proof -
  note law = assms(1)
  note ok = sqlite_files.db_ok_def [OF law]
  note fd = sqlite_files.files_def [OF law]
  have db: "sqlite_files.db_ok rows good db" using assms(2,3) by (simp add: ok)
  note len = text_lengths [OF assms(7,8,6)]
  have find: "FileDB_find eng d m = (if length (select_text m) \<ge> 512 then None else Some (sqlite_files.files rows d m))"
    if "sqlite_files.db_ok rows good d" "name_ok m" for d m
    using sqlite_files.find_files [OF law that] by (simp add: FileDB_find_def not_le)
  have eff: "good d \<and> distinct (map fst (rows d)) \<and> FileDB_find eng d n = Some x
      \<and> (\<forall>m. m \<noteq> n \<and> name_ok m \<longrightarrow> FileDB_find eng d m = FileDB_find eng db m)"
    if "sqlite_files.db_ok rows good d" "sqlite_files.files rows d = (sqlite_files.files rows db)(n := x)" for d x
    using that find [OF that(1)] find [OF db] assms(4) len(1) by (simp add: ok)
  show ?thesis
    using sqlite_files.insert_files [OF law db assms(4,5,6) len(2)]
      sqlite_files.update_files [OF law db assms(4,5,6) len(3)]
      sqlite_files.del_files [OF law db assms(4) len(4)] eff
    unfolding fd by meson
qed

theorem FileDB_is_map_witness:
  "\<exists>db'. FileDB_insert ref_engine 1000 ''/etc/passwd'' ''3:33188:0:0:abc'' [] = (0, db')
     \<and> FileDB_find ref_engine db' ''/etc/passwd'' = Some (Some (''3:33188:0:0:abc'', 1000))"
  using FileDB_is_map [OF ref_files.sqlite_files_axioms, of "[]" "''/etc/passwd''" "''3:33188:0:0:abc''" 1000]
  by (auto simp: name_ok_def text_ok_def time_ok_def)

text \<open>
  File names are not quoted: inserting the file named \<open>/a', 'x\<close> with
  checksum \<open>y\<close> and inserting the file \<open>/a\<close> with checksum \<open>x', 'y\<close> is the same
  statement, so no database can tell the two apart.
\<close>

theorem FileDB_insert_unquoted:
  "FileDB_insert eng now (''/a'' @ [quote] @ '', '' @ [quote] @ ''x'') ''y'' db
   = FileDB_insert eng now ''/a'' (''x'' @ [quote] @ '', '' @ [quote] @ ''y'') db"
  by (simp add: FileDB_insert_def insert_text_def)

end
