(* ===== verification/Timer.thy ===== *)
theory Timer
  imports Prelude "HOL-Library.Multiset"
begin

text \<open>
  The timer manager (\<open>src/TaskTimerManager.hpp\<close>): a multimap from expiration
  times to timers, as the list of its entries in iteration order (ascending
  keys, equal keys in insertion order), with \<open>add\<close>, \<open>cancel\<close> and one round of
  the loop in \<open>execute\<close>.  Each operation holds the mutex from beginning to end,
  so an execution is a sequence of operations.
\<close>

section \<open>State and operations\<close>

record 'd task_timer =
  expiration :: int
  task_id :: word64
  user_data :: 'd

type_synonym 'd callback_map = "(int \<times> 'd task_timer) list"

text \<open>Assigning a \<open>time_t\<close> to an \<open>int\<close>.\<close>

definition to_int :: "int \<Rightarrow> int" where
  "to_int i = sint (word_of_int i :: word32)"

definition upper_bound :: "int \<Rightarrow> 'd callback_map \<Rightarrow> 'd callback_map \<times> 'd callback_map" where
  "upper_bound k cbs = (takeWhile (\<lambda>e. fst e \<le> k) cbs, dropWhile (\<lambda>e. fst e \<le> k) cbs)"

definition timer_add :: "'d task_timer \<Rightarrow> 'd callback_map \<Rightarrow> 'd callback_map" where
  "timer_add timer cbs =
     (let (before, after) = upper_bound (expiration timer) cbs
      in before @ [(expiration timer, timer)] @ after)"

text \<open>Erase the first entry of the range with the timer's identity.\<close>

fun erase_first :: "word64 \<Rightarrow> 'd callback_map \<Rightarrow> 'd callback_map" where
  "erase_first tid [] = []"
| "erase_first tid (e # es) = (if task_id (snd e) = tid then es else e # erase_first tid es)"

definition timer_cancel :: "'d task_timer \<Rightarrow> 'd callback_map \<Rightarrow> 'd callback_map" where
  "timer_cancel timer cbs =
     (let k = expiration timer;
          before = takeWhile (\<lambda>e. fst e < k) cbs;
          rest = dropWhile (\<lambda>e. fst e < k) cbs;
          range = takeWhile (\<lambda>e. fst e \<le> k) rest;
          after = dropWhile (\<lambda>e. fst e \<le> k) rest
      in before @ erase_first (task_id timer) range @ after)"

text \<open>
  One round of \<open>execute\<close> at clock value \<open>time\<close>: the timers whose callback is
  called, in order, and the map afterwards.
\<close>

definition timer_round :: "int \<Rightarrow> 'd callback_map \<Rightarrow> 'd task_timer list \<times> 'd callback_map" where
  "timer_round time cbs =
     (let now = to_int time; (due, rest) = upper_bound now cbs in (map snd due, rest))"

section \<open>The invariant: entries in order under their own key\<close>

definition timers_ok :: "'d callback_map \<Rightarrow> bool" where
  "timers_ok cbs \<longleftrightarrow> sorted (map fst cbs) \<and> (\<forall>e\<in>set cbs. fst e = expiration (snd e))"

lemma timers_ok_Nil [simp]: "timers_ok []"
  by (simp add: timers_ok_def)

lemma sorted_split:
  "sorted (map fst cbs) \<Longrightarrow> (\<forall>e\<in>set (takeWhile (\<lambda>e. fst e \<le> k) cbs). fst e \<le> k)
     \<and> (\<forall>e\<in>set (dropWhile (\<lambda>e. fst e \<le> k) cbs). (k::int) < fst e)"
  by (induction cbs) auto

lemma sorted_split_less:
  "sorted (map fst cbs) \<Longrightarrow> (\<forall>e\<in>set (takeWhile (\<lambda>e. fst e < k) cbs). fst e < k)
     \<and> (\<forall>e\<in>set (dropWhile (\<lambda>e. fst e < k) cbs). (k::int) \<le> fst e)"
  by (induction cbs) auto

lemma set_timer_add [simp]: "set (timer_add t cbs) = insert (expiration t, t) (set cbs)"
proof -
  have "set cbs = set (takeWhile (\<lambda>e. fst e \<le> expiration t) cbs) \<union> set (dropWhile (\<lambda>e. fst e \<le> expiration t) cbs)"
    by (metis set_append takeWhile_dropWhile_id)
  then show ?thesis by (auto simp: timer_add_def upper_bound_def)
qed

lemma mset_timer_add: "mset (timer_add t cbs) = add_mset (expiration t, t) (mset cbs)"
proof -
  have "mset cbs = mset (takeWhile (\<lambda>e. fst e \<le> expiration t) cbs) + mset (dropWhile (\<lambda>e. fst e \<le> expiration t) cbs)"
    by (metis mset_append takeWhile_dropWhile_id)
  then show ?thesis by (simp add: timer_add_def upper_bound_def)
qed

lemma sorted_parts:
  "sorted (map fst cbs) \<Longrightarrow> sorted (map fst (takeWhile P cbs)) \<and> sorted (map fst (dropWhile P cbs))"
  by (metis map_append sorted_append takeWhile_dropWhile_id)

lemma timers_ok_add:
  assumes "timers_ok cbs"
  shows "timers_ok (timer_add t cbs)"
proof -
  have s: "sorted (map fst cbs)" using assms by (simp add: timers_ok_def)
  have "sorted (map fst (timer_add t cbs))"
    using sorted_split [OF s, of "expiration t"] sorted_parts [OF s]
    by (fastforce simp: timer_add_def upper_bound_def sorted_append)
  then show ?thesis using assms by (simp add: timers_ok_def)
qed

lemma erase_first_subset: "set (erase_first tid cbs) \<subseteq> set cbs"
  by (induction cbs) auto

lemma sorted_erase_first: "sorted (map fst cbs) \<Longrightarrow> sorted (map fst (erase_first tid cbs))"
  using erase_first_subset by (induction cbs) fastforce+

lemma erase_first_append:
  "(\<forall>e\<in>set xs. task_id (snd e) \<noteq> tid) \<Longrightarrow> erase_first tid (xs @ ys) = xs @ erase_first tid ys"
  by (induction xs) auto

text \<open>Cancelling removes the first entry with the timer's key and identity.\<close>

fun remove_first :: "('e \<Rightarrow> bool) \<Rightarrow> 'e list \<Rightarrow> 'e list" where
  "remove_first P [] = []"
| "remove_first P (e # es) = (if P e then es else e # remove_first P es)"

lemma remove_first_append1: "(\<exists>e\<in>set xs. P e) \<Longrightarrow> remove_first P (xs @ ys) = remove_first P xs @ ys"
  by (induction xs) auto

lemma remove_first_append2: "(\<forall>e\<in>set xs. \<not> P e) \<Longrightarrow> remove_first P (xs @ ys) = xs @ remove_first P ys"
  by (induction xs) auto

lemma remove_first_none: "(\<forall>e\<in>set xs. \<not> P e) \<Longrightarrow> remove_first P xs = xs"
  by (induction xs) auto

lemma erase_first_remove:
  "(\<forall>e\<in>set xs. fst e = k) \<Longrightarrow> erase_first tid xs = remove_first (\<lambda>e. fst e = k \<and> task_id (snd e) = tid) xs"
  by (induction xs) auto

lemma timer_cancel_remove:
  assumes "timers_ok cbs"
  shows "timer_cancel t cbs = remove_first (\<lambda>e. fst e = expiration t \<and> task_id (snd e) = task_id t) cbs"
    (is "_ = remove_first ?P cbs")
proof -
  define k where "k = expiration t"
  define before where "before = takeWhile (\<lambda>e. fst e < k) cbs"
  define rest where "rest = dropWhile (\<lambda>e. fst e < k) cbs"
  define range where "range = takeWhile (\<lambda>e. fst e \<le> k) rest"
  define after where "after = dropWhile (\<lambda>e. fst e \<le> k) rest"
  have s: "sorted (map fst cbs)" using assms by (simp add: timers_ok_def)
  have sr: "sorted (map fst rest)" using sorted_parts [OF s] by (simp add: rest_def)
  have cbs: "cbs = before @ range @ after" by (simp add: before_def rest_def range_def after_def)
  have b: "\<forall>e\<in>set before. \<not> ?P e" using sorted_split_less [OF s, of k] by (auto simp: before_def k_def)
  have a: "\<forall>e\<in>set after. \<not> ?P e" using sorted_split [OF sr, of k] by (auto simp: after_def k_def)
  have r: "\<forall>e\<in>set range. fst e = k"
  proof
    fix e assume e: "e \<in> set range"
    then have "e \<in> set rest" by (auto simp: range_def dest: set_takeWhileD)
    then show "fst e = k"
      using e sorted_split_less [OF s, of k] sorted_split [OF sr, of k] by (force simp: rest_def range_def)
  qed
  have "remove_first ?P (range @ after) = remove_first ?P range @ after"
  proof (cases "\<exists>e\<in>set range. ?P e")
    case True
    then show ?thesis by (rule remove_first_append1)
  next
    case False
    then have n: "\<forall>e\<in>set range. \<not> ?P e" by blast
    show ?thesis by (simp only: remove_first_append2 [OF n] remove_first_none [OF n] remove_first_none [OF a])
  qed
  moreover have "timer_cancel t cbs = before @ erase_first (task_id t) range @ after"
    by (simp add: timer_cancel_def Let_def before_def rest_def range_def after_def k_def)
  moreover have "remove_first ?P cbs = before @ remove_first ?P (range @ after)"
    unfolding cbs by (rule remove_first_append2 [OF b])
  ultimately show ?thesis
    using erase_first_remove [OF r, of "task_id t"] by (simp add: k_def)
qed

lemma mset_remove_first:
  "mset (remove_first P xs) = (case find P xs of None \<Rightarrow> mset xs | Some e \<Rightarrow> mset xs - {#e#})"
proof (induction xs)
  case (Cons x xs)
  have "e \<in># mset xs" if "find P xs = Some e" for e
    using that by (auto simp: find_Some_iff)
  then show ?case using Cons by (auto split: option.splits)
qed simp

lemma set_remove_first: "set (remove_first P xs) \<subseteq> set xs"
  by (induction xs) auto

lemma sorted_remove_first: "sorted (map fst xs) \<Longrightarrow> sorted (map fst (remove_first P xs))"
  using set_remove_first by (induction xs) fastforce+

lemma timers_ok_cancel: "timers_ok cbs \<Longrightarrow> timers_ok (timer_cancel t cbs)"
  using set_remove_first [of "\<lambda>e. fst e = expiration t \<and> task_id (snd e) = task_id t" cbs]
  by (auto simp: timer_cancel_remove) (auto simp: timers_ok_def sorted_remove_first)

lemma timers_ok_round: "timers_ok cbs \<Longrightarrow> timers_ok (snd (timer_round now cbs))"
  by (auto simp: timers_ok_def timer_round_def upper_bound_def Let_def sorted_parts dest: set_dropWhileD)

lemma timer_round_split:
  assumes "timers_ok cbs" "timer_round now cbs = (due, rest)"
  shows "map snd cbs = due @ map snd rest" "\<forall>t\<in>set due. expiration t \<le> to_int now"
    "\<forall>e\<in>set rest. to_int now < expiration (snd e)"
proof -
  have s: "sorted (map fst cbs)" and k: "\<forall>e\<in>set cbs. fst e = expiration (snd e)"
    using assms(1) by (simp_all add: timers_ok_def)
  have d: "due = map snd (takeWhile (\<lambda>e. fst e \<le> to_int now) cbs)"
      "rest = dropWhile (\<lambda>e. fst e \<le> to_int now) cbs"
    using assms(2) by (auto simp: timer_round_def upper_bound_def Let_def)
  show "map snd cbs = due @ map snd rest"
    unfolding d by (metis map_append takeWhile_dropWhile_id)
  show "\<forall>t\<in>set due. expiration t \<le> to_int now"
    using k sorted_split [OF s, of "to_int now"] unfolding d
    by (auto dest: set_takeWhileD) (metis set_takeWhileD snd_conv fst_conv)
  show "\<forall>e\<in>set rest. to_int now < expiration (snd e)"
    using k sorted_split [OF s, of "to_int now"] unfolding d by (metis set_dropWhileD)
qed

section \<open>Executions\<close>

datatype 'd timer_op = Add "'d task_timer" | Cancel "'d task_timer" | Round int

text \<open>The pending entries, the timers called so far (in order) and the timers cancelled so far.\<close>

fun timer_step :: "'d timer_op \<Rightarrow> 'd callback_map \<times> 'd task_timer list \<times> 'd task_timer list \<Rightarrow>
    'd callback_map \<times> 'd task_timer list \<times> 'd task_timer list" where
  "timer_step (Add t) (cbs, called, cancelled) = (timer_add t cbs, called, cancelled)"
| "timer_step (Cancel t) (cbs, called, cancelled) =
     (timer_cancel t cbs, called,
      cancelled @ (case find (\<lambda>e. fst e = expiration t \<and> task_id (snd e) = task_id t) cbs of
         None \<Rightarrow> [] | Some e \<Rightarrow> [snd e]))"
| "timer_step (Round now) (cbs, called, cancelled) =
     (let (due, rest) = timer_round now cbs in (rest, called @ due, cancelled))"

fun added :: "'d timer_op list \<Rightarrow> 'd task_timer list" where
  "added [] = []"
| "added (Add t # ops) = t # added ops"
| "added (_ # ops) = added ops"

lemma timer_step_ok: "timers_ok cbs \<Longrightarrow> timers_ok (fst (timer_step opn (cbs, called, cancelled)))"
proof (cases opn)
  case (Round now)
  then show "timers_ok cbs \<Longrightarrow> timers_ok (fst (timer_step opn (cbs, called, cancelled)))"
    using timers_ok_round [of cbs now] by (cases "timer_round now cbs") simp
qed (simp_all add: timers_ok_add timers_ok_cancel)

lemma conservation_step:
  assumes "timers_ok cbs" "timer_step opn (cbs, called, cancelled) = (cbs', called', cancelled')"
  shows "mset called' + mset cancelled' + mset (map snd cbs')
       = mset called + mset cancelled + mset (map snd cbs) + mset (added [opn])"
proof (cases opn)
  case (Add t)
  then show ?thesis using assms(2) by (auto simp: mset_timer_add)
next
  case (Cancel t)
  let ?P = "\<lambda>e. fst e = expiration t \<and> task_id (snd e) = task_id t"
  have c: "cbs' = remove_first ?P cbs" "called' = called"
      "cancelled' = cancelled @ (case find ?P cbs of None \<Rightarrow> [] | Some e \<Rightarrow> [snd e])"
    using assms Cancel by (auto simp: timer_cancel_remove)
  show ?thesis
  proof (cases "find ?P cbs")
    case None
    then have "mset cbs' = mset cbs" unfolding c by (simp add: mset_remove_first)
    then have "mset (map snd cbs') = mset (map snd cbs)" by simp
    then show ?thesis using c(2,3) None Cancel by simp
  next
    case (Some e)
    then have "e \<in># mset cbs" by (auto simp: find_Some_iff)
    moreover have "mset cbs' = mset cbs - {#e#}" unfolding c using Some by (simp add: mset_remove_first)
    ultimately have "mset cbs = add_mset e (mset cbs')" by simp
    then have "mset (map snd cbs) = add_mset (snd e) (mset (map snd cbs'))" by simp
    then show ?thesis using c(2,3) Some Cancel by simp
  qed
next
  case (Round now)
  obtain due rest where r: "timer_round now cbs = (due, rest)" by (cases "timer_round now cbs")
  then have "mset (map snd cbs) = mset due + mset (map snd rest)"
    using timer_round_split(1) [OF assms(1) r] by simp
  then show ?thesis using assms(2) r Round by (auto simp: ac_simps)
qed

lemma added_Cons: "mset (added (opn # ops)) = mset (added [opn]) + mset (added ops)"
  by (cases opn) auto

lemma timers_run:
  assumes "timers_ok cbs" "fold timer_step ops (cbs, called, cancelled) = (cbs', called', cancelled')"
  shows "timers_ok cbs' \<and> mset called' + mset cancelled' + mset (map snd cbs')
       = mset called + mset cancelled + mset (map snd cbs) + mset (added ops)"
  using assms
proof (induction ops arbitrary: cbs called cancelled)
  case (Cons opn ops)
  obtain c1 a1 x1 where s: "timer_step opn (cbs, called, cancelled) = (c1, a1, x1)" by (metis prod_cases3)
  have ok: "timers_ok c1" using timer_step_ok [OF Cons.prems(1), of opn called cancelled] s by simp
  have "timers_ok cbs' \<and> mset called' + mset cancelled' + mset (map snd cbs')
       = mset a1 + mset x1 + mset (map snd c1) + mset (added ops)"
    using Cons.prems(2) s by (intro Cons.IH [OF ok]) simp
  then show ?case
    using conservation_step [OF Cons.prems(1) s] added_Cons [of opn ops] by (simp add: ac_simps)
qed simp

section \<open>Properties\<close>

text \<open>
  C30. No timer is lost or called twice: after any sequence of \<open>add\<close>, \<open>cancel\<close>
  and rounds from the empty map, the timers called, cancelled and pending are
  together exactly the timers added (as multisets), the pending entries are in
  order under their own keys, and a further round calls precisely those that
  have expired, in order of expiration.
\<close>

theorem timers_conserved:
  assumes "fold timer_step ops ([], [], []) = (cbs, called, cancelled)"
    and "timer_round now cbs = (due, rest)"
  shows "mset called + mset cancelled + mset (map snd cbs) = mset (added ops)
    \<and> sorted (map (expiration \<circ> snd) cbs)
    \<and> due = filter (\<lambda>t. expiration t \<le> to_int now) (map snd cbs)
    \<and> map snd rest = filter (\<lambda>t. to_int now < expiration t) (map snd cbs)"
proof -
  have r: "timers_ok cbs" "mset called + mset cancelled + mset (map snd cbs) = mset (added ops)"
    using timers_run [OF timers_ok_Nil assms(1)] by simp_all
  have "map fst cbs = map (expiration \<circ> snd) cbs" using r(1) by (auto simp: timers_ok_def)
  moreover have "sorted (map fst cbs)" using r(1) by (simp add: timers_ok_def)
  ultimately have "sorted (map (expiration \<circ> snd) cbs)" by (simp only:)
  moreover have "filter (\<lambda>t. expiration t \<le> to_int now) (due @ map snd rest) = due"
      "filter (\<lambda>t. to_int now < expiration t) (due @ map snd rest) = map snd rest"
    using timer_round_split(2,3) [OF r(1) assms(2)]
    by (fastforce simp: filter_empty_conv filter_id_conv)+
  ultimately show ?thesis using r(2) timer_round_split(1) [OF r(1) assms(2)] by simp
qed

theorem timers_conserved_witness:
  "fst (timer_round 20 (fst (fold timer_step
      [Add \<lparr>expiration = 30, task_id = 0, user_data = ''a''\<rparr>, Add \<lparr>expiration = 20, task_id = 1, user_data = ''b''\<rparr>,
       Cancel \<lparr>expiration = 30, task_id = 0, user_data = ''a''\<rparr>] ([], [], []))))
   = [\<lparr>expiration = 20, task_id = 1, user_data = ''b''\<rparr>]"
  using timers_conserved [of
      "[Add \<lparr>expiration = 30, task_id = 0, user_data = ''a''\<rparr>, Add \<lparr>expiration = 20, task_id = 1, user_data = ''b''\<rparr>,
       Cancel \<lparr>expiration = 30, task_id = 0, user_data = ''a''\<rparr>]"
      "[(20, \<lparr>expiration = 20, task_id = 1, user_data = ''b''\<rparr>)]" "[]"
      "[\<lparr>expiration = 30, task_id = 0, user_data = ''a''\<rparr>]" 20]
  by (simp add: timer_add_def timer_cancel_def upper_bound_def timer_round_def to_int_def Let_def)

end
