(* ===== verification/Analysis.thy ===== *)
theory Analysis
  imports Alerter FileDb Timer
begin

text \<open>
  The judge (\<open>src/file_analysis.h\<close>, \<open>src/file_analysis.cpp\<close>): a queue of
  changed files, filters, the checksum database, the delay of repeated checks
  by timers, and the alerts.  The environment of one check is the record
  \<open>env\<close>: the operating system, the regex functions, SQLite and the clock
  values it reads.  A check delivers
  the alerts it raises as a list of (level, directory, name); the actions they
  run are \<open>Alerter.alert\<close>.  Each operation on the shared queue and maps holds a
  mutex, so an execution of the three threads is a sequence of steps: the
  watcher notifies, the judge takes a node and checks it, the timer thread does
  a round.
\<close>

section \<open>Filters\<close>

text \<open>
  A hash table as its entries in iteration order.  Where a new key goes is up
  to the library: \<open>hins key m\<close> is the table after the key was inserted with an
  empty value, some arrangement of the old entries and the new one.
\<close>

type_synonym regmap = "(string \<times> string list) list"

definition hash_insert_ok :: "(string \<Rightarrow> regmap \<Rightarrow> regmap) \<Rightarrow> bool" where
  "hash_insert_ok hins \<longleftrightarrow> (\<forall>key m. mset (hins key m) = add_mset (key, []) (mset m))"

definition push_value :: "string \<Rightarrow> string \<Rightarrow> regmap \<Rightarrow> regmap" where
  "push_value key v m = map (\<lambda>(k, vs). if k = key then (k, vs @ [v]) else (k, vs)) m"

definition add_regex :: "(string \<Rightarrow> regmap \<Rightarrow> regmap) \<Rightarrow> string \<Rightarrow> string \<Rightarrow> regmap \<Rightarrow> regmap" where
  "add_regex hins dir reg m =
     (if length (stringtrim reg) = 0 then m
      else push_value dir (stringtrim reg) (if map_of m dir = None then hins dir m else m))"

definition add_regexes :: "(string \<Rightarrow> regmap \<Rightarrow> regmap) \<Rightarrow> string \<Rightarrow> string list \<Rightarrow> regmap \<Rightarrow> regmap" where
  "add_regexes hins dir regvec m = fold (add_regex hins dir) regvec m"

fun is_prefix :: "string \<Rightarrow> string \<Rightarrow> bool" where
  "is_prefix (p # ps) (q # qs) = (if p \<noteq> q then False else is_prefix ps qs)"
| "is_prefix _ _ = True"

definition match :: "(string \<Rightarrow> (string \<Rightarrow> bool) option) \<Rightarrow> regmap \<Rightarrow> string \<Rightarrow> bool" where
  "match rx regs filename =
     (case find (\<lambda>entry. is_prefix filename (fst entry)) regs of
        None \<Rightarrow> False
      | Some entry \<Rightarrow> length (filter (match_regex rx filename) (snd entry)) > 0)"

section \<open>State and environment\<close>

record analysis_node =
  node_dir :: string
  node_name :: string

record ('db, 'a) judge =
  interval :: int
  ignored :: regmap
  grep :: regmap
  alerter :: "'a alerter"
  fileDB :: 'db
  taskmap :: "string \<rightharpoonup> analysis_node task_timer"
  global_id :: word64
  timers :: "analysis_node callback_map"
  queue :: "analysis_node list"

record 'db env =
  e_sys :: os
  e_stack :: md5_state                              \<comment> \<open>the uninitialised digest state\<close>
  e_regex :: "string \<Rightarrow> (string \<Rightarrow> bool) option"
  e_eng :: "'db sqlite"
  e_now :: int                                      \<comment> \<open>the clock read by the check\<close>
  e_dbnow :: int                                   \<comment> \<open>the clock read by the database operation\<close>

section \<open>Operations\<close>

definition add_filter :: "(string \<Rightarrow> regmap \<Rightarrow> regmap) \<Rightarrow> string \<Rightarrow> string list \<Rightarrow> ('db, 'a) judge \<Rightarrow> ('db, 'a) judge" where
  "add_filter hins d regvec j = j\<lparr>ignored := add_regexes hins d regvec (ignored j)\<rparr>"

definition add_grep :: "(string \<Rightarrow> regmap \<Rightarrow> regmap) \<Rightarrow> string \<Rightarrow> string list \<Rightarrow> ('db, 'a) judge \<Rightarrow> ('db, 'a) judge" where
  "add_grep hins d regvec j = j\<lparr>grep := add_regexes hins d regvec (grep j)\<rparr>"

definition set_interval :: "int \<Rightarrow> ('db, 'a) judge \<Rightarrow> ('db, 'a) judge" where
  "set_interval i j = j\<lparr>interval := i\<rparr>"

definition add_queue :: "analysis_node \<Rightarrow> ('db, 'a) judge \<Rightarrow> ('db, 'a) judge" where
  "add_queue node j = j\<lparr>queue := queue j @ [node]\<rparr>"

definition analysis :: "string \<Rightarrow> string \<Rightarrow> ('db, 'a) judge \<Rightarrow> ('db, 'a) judge" where
  "analysis base_dir final_name j = add_queue \<lparr>node_dir = base_dir, node_name = final_name\<rparr> j"

definition get_task :: "('db, 'a) judge \<Rightarrow> string \<Rightarrow> analysis_node task_timer option" where
  "get_task j file = taskmap j file"

definition set_task :: "string \<Rightarrow> analysis_node task_timer \<Rightarrow> ('db, 'a) judge \<Rightarrow> ('db, 'a) judge" where
  "set_task file timer j = j\<lparr>taskmap := (taskmap j)(file \<mapsto> timer)\<rparr>"

definition del_task :: "string \<Rightarrow> ('db, 'a) judge \<Rightarrow> ('db, 'a) judge" where
  "del_task file j = j\<lparr>taskmap := (taskmap j)(file := None)\<rparr>"

text \<open>The branch of \<open>do_analysis\<close> that puts a check off.\<close>

definition delay_task :: "int \<Rightarrow> string \<Rightarrow> string \<Rightarrow> ('db, 'a) judge \<Rightarrow> ('db, 'a) judge" where
  "delay_task nw base_dir final_name j =
     (let j1 = (case get_task j final_name of
                  None \<Rightarrow> j
                | Some oldTask \<Rightarrow> j\<lparr>timers := timer_cancel oldTask (timers j)\<rparr>);
          taskTimer = \<lparr>expiration = to_int (interval j + nw), task_id = global_id j1,
                       user_data = \<lparr>node_dir = base_dir, node_name = final_name\<rparr>\<rparr>;
          j2 = j1\<lparr>global_id := global_id j1 + 1, timers := timer_add taskTimer (timers j1)\<rparr>
      in set_task final_name taskTimer j2)"

type_synonym alert_raised = "int \<times> string \<times> string"

text \<open>
  \<open>do_analysis\<close>: the judge afterwards and the alerts raised; \<open>None\<close> where
  \<open>FileDB::find\<close> overflows its buffer.
\<close>

definition do_analysis :: "'db env \<Rightarrow> string \<Rightarrow> string \<Rightarrow> ('db, 'a) judge \<Rightarrow>
    (('db, 'a) judge \<times> alert_raised list) option" where
  "do_analysis e base_dir final_name j =
     (if match (e_regex e) (ignored j) final_name then Some (j, [])
      else if length (grep j) > 0
              \<and> \<not> match (e_regex e) (grep j) final_name then Some (j, [])
      else (case FileDB_find (e_eng e) (fileDB j) final_name of
          None \<Rightarrow> None
        | Some None \<Rightarrow>
            (let checksum = snd (get_checksum (e_sys e) (e_stack e) final_name '''');
                 (rc, db) = FileDB_insert (e_eng e) (e_dbnow e) final_name checksum (fileDB j)
             in Some (j\<lparr>fileDB := db\<rparr>, [(CREATED, base_dir, final_name)]))
        | Some (Some (md5sum, timestamp)) \<Rightarrow>
            if interval j \<noteq> 0 \<and> e_now e < timestamp + interval j
            then Some (delay_task (e_now e) base_dir final_name j, [])
            else
              (let (rc, checksum) = get_checksum (e_sys e) (e_stack e) final_name '''';
                   (j1, raised) =
                     (if rc = FILE_NOT_EXIST
                      then (let (r, db) = FileDB_del (e_eng e) final_name (fileDB j)
                            in (j\<lparr>fileDB := db\<rparr>, [(DELETED, base_dir, final_name)]))
                      else if checksum \<noteq> md5sum
                      then (let (r, db) = FileDB_update (e_eng e) (e_dbnow e) final_name checksum (fileDB j)
                            in (j\<lparr>fileDB := db\<rparr>, [(CHANGED, base_dir, final_name)]))
                      else (j, []))
               in Some (del_task final_name j1, raised))))"

text \<open>The action calls an alert leads to.\<close>

definition alert_calls :: "('db, 'a) judge \<Rightarrow> alert_raised list \<Rightarrow> 'a call list" where
  "alert_calls j raised = concat (map (\<lambda>(level, d, n). alert (alerter j) level d n) raised)"

text \<open>
  The steps of the three threads.  The judge's step takes the first node of
  the queue; with an empty queue it waits (no step).  The timer thread's round
  runs \<open>delay_check\<close> on the timers that are due, which puts their nodes into the
  queue.
\<close>

datatype 'db event = Notify string string | Judge "'db env" | Tick int

definition loop_step :: "'db env \<Rightarrow> ('db, 'a) judge \<Rightarrow> (('db, 'a) judge \<times> alert_raised list) option" where
  "loop_step e j =
     (case queue j of
        [] \<Rightarrow> Some (j, [])
      | node # later \<Rightarrow> do_analysis e (node_dir node) (node_name node) (j\<lparr>queue := later\<rparr>))"

definition delay_check :: "analysis_node task_timer \<Rightarrow> ('db, 'a) judge \<Rightarrow> ('db, 'a) judge" where
  "delay_check task j = add_queue (user_data task) j"

definition tick_step :: "int \<Rightarrow> ('db, 'a) judge \<Rightarrow> ('db, 'a) judge" where
  "tick_step t j = (let (due, later) = timer_round t (timers j)
                    in fold delay_check due (j\<lparr>timers := later\<rparr>))"

fun step :: "'db event \<Rightarrow> ('db, 'a) judge \<Rightarrow> (('db, 'a) judge \<times> alert_raised list) option" where
  "step (Notify d n) j = Some (analysis d n j, [])"
| "step (Judge e) j = loop_step e j"
| "step (Tick t) j = Some (tick_step t j, [])"

section \<open>Filters, by prefix\<close>

lemma is_prefix_iff: "is_prefix p q \<longleftrightarrow> prefix p q \<or> prefix q p"
  by (induction p q rule: is_prefix.induct) auto

definition filtered :: "'db env \<Rightarrow> string \<Rightarrow> ('db, 'a) judge \<Rightarrow> bool" where
  "filtered e f j \<longleftrightarrow> match (e_regex e) (ignored j) f
     \<or> length (grep j) > 0 \<and> \<not> match (e_regex e) (grep j) f"

lemma match_unique:
  assumes "\<forall>x\<in>set regs. \<forall>y\<in>set regs. is_prefix f (fst x) \<and> is_prefix f (fst y) \<longrightarrow> x = y"
  shows "match rx regs f \<longleftrightarrow> (\<exists>(key, vs)\<in>set regs. is_prefix f key \<and> (\<exists>r\<in>set vs. match_regex rx f r))"
proof (cases "find (\<lambda>entry. is_prefix f (fst entry)) regs")
  case None
  then have "\<forall>x\<in>set regs. \<not> is_prefix f (fst x)" by (auto simp: find_None_iff)
  moreover have "\<not> match rx regs f" by (simp add: match_def None)
  ultimately show ?thesis by fastforce
next
  case (Some x)
  then have x: "x \<in> set regs" "is_prefix f (fst x)" by (auto simp: find_Some_iff)
  then have "(\<exists>(key, vs)\<in>set regs. is_prefix f key \<and> (\<exists>r\<in>set vs. match_regex rx f r))
      \<longleftrightarrow> (\<exists>r\<in>set (snd x). match_regex rx f r)"
    using assms by fastforce
  then show ?thesis using Some by (auto simp: match_def filter_empty_conv)
qed

section \<open>Checksums are plain text\<close>

lemma text_ok_append [simp]: "text_ok (a @ b) \<longleftrightarrow> text_ok a \<and> text_ok b"
  by (auto simp: text_ok_def)

lemma text_ok_show_int [simp]: "text_ok (show_int i)"
  using show_int_chars [of quote i] show_int_chars [of dquote i] by (auto simp: text_ok_def isdigit_def)

lemma xdigit_plain: "d < 16 \<Longrightarrow> quote \<noteq> xdigit d \<and> dquote \<noteq> xdigit d"
proof -
  assume "d < 16"
  then have "code (xdigit d) \<ge> 48" by (simp add: xdigit_def)
  moreover have "code quote < 48" "code dquote < 48" by simp_all
  ultimately show ?thesis by (metis not_le)
qed

lemma text_ok_hex: "text_ok (hex_output ds)"
proof (induction ds)
  case (Cons d ds)
  have "unat d < 2 ^ LENGTH(8)" by (rule unsigned_less)
  then have "unat d div 16 < 16" by simp
  then have "text_ok (show_02x d)"
    using xdigit_plain [of "unat d div 16"] xdigit_plain [of "unat d mod 16"]
    by (simp add: text_ok_def show_02x_def)
  then show ?case using Cons by (simp add: hex_output_def)
qed (simp add: hex_output_def text_ok_def)

lemma length_hex: "length (hex_output ds) = 2 * length ds"
  by (induction ds) (simp_all add: hex_output_def show_02x_def)

lemma get_md5sum_text: "text_ok (snd (get_md5sum s st f)) \<and> length (snd (get_md5sum s st f)) \<le> 32"
proof -
  have "length (snd (md5_finish x)) = 16" for x by (simp add: md5_finish_def Let_def)
  moreover have "text_ok ([] :: string)" by (simp add: text_ok_def)
  ultimately show ?thesis
    by (auto simp: get_md5sum_def Let_def text_ok_hex length_hex split: option.split)
qed

lemma show_word32_length: "length (show_int (sint (w :: word32))) \<le> 11"
proof -
  have "nat (- sint w) < 10 ^ 10" "nat (sint w) < 10 ^ 10"
    using sint_greater_eq [of w] sint_less [of w] by simp_all
  then show ?thesis using show_nat_length [of _ 10] by (fastforce simp: show_int_def)
qed

lemma get_checksum_text:
  "text_ok (snd (get_checksum s st f ''''))" "length (snd (get_checksum s st f '''')) \<le> 450"
proof -
  have colon: "text_ok (CHR '':'' # m) = text_ok m" for m by (simp add: text_ok_def)
  have c: "text_ok (checksum_string x m) \<and> length (checksum_string x m) \<le> 450"
    if "text_ok m" "length m \<le> 32" for x m
    using that show_word32_length [of "ucast (st_size x)"] show_word32_length [of "st_mode x"]
      show_word32_length [of "st_uid x"] show_word32_length [of "st_gid x"]
    using colon by (simp add: checksum_string_def cast_int_def)
  show "text_ok (snd (get_checksum s st f ''''))" "length (snd (get_checksum s st f '''')) \<le> 450"
    using c get_md5sum_text [of s st f] by (auto simp: get_checksum_def text_ok_def split: sum.split)
qed

section \<open>The verdict of a check\<close>

context sqlite_files
begin

definition env_ok :: "'db env \<Rightarrow> bool" where
  "env_ok e \<longleftrightarrow> e_eng e = eng \<and> time_ok (e_dbnow e)"

lemma do_analysis_filtered: "filtered e f j \<Longrightarrow> do_analysis e d f j = Some (j, [])"
  by (auto simp: filtered_def do_analysis_def)

lemma do_analysis_new:
  assumes e: "env_ok e" and j: "db_ok (fileDB j)" and f: "name_ok f" "length f \<le> 450"
    and nf: "\<not> filtered e f j" and new: "files (fileDB j) f = None"
  shows "\<exists>db'. do_analysis e d f j = Some (j\<lparr>fileDB := db'\<rparr>, [(CREATED, d, f)]) \<and> db_ok db'
    \<and> files db' = (files (fileDB j))(f \<mapsto> (snd (get_checksum (e_sys e) (e_stack e) f ''''), e_dbnow e))"
proof -
  let ?c = "snd (get_checksum (e_sys e) (e_stack e) f '''')"
  note c = get_checksum_text [of "e_sys e" "e_stack e" f]
  note len = text_lengths [OF f(2) c(2), of "e_dbnow e"]
  have t: "time_ok (e_dbnow e)" "e_eng e = eng" using e by (simp_all add: env_ok_def)
  obtain db' where "FileDB_insert eng (e_dbnow e) f ?c (fileDB j) = (0, db')" "db_ok db'"
      "files db' = (files (fileDB j))(f \<mapsto> (?c, e_dbnow e))"
    using insert_files [OF j f(1) c(1) t(1) len(2) [OF t(1)] new] by blast
  then show ?thesis
    using nf find_files [OF j f(1) len(1) [OF t(1)]] new t(2)
    by (auto simp: do_analysis_def filtered_def Let_def)
qed

lemma do_analysis_delayed:
  assumes e: "env_ok e" and j: "db_ok (fileDB j)" and f: "name_ok f" "length f \<le> 450"
    and nf: "\<not> filtered e f j" and old: "files (fileDB j) f = Some (s, ts)"
    and delay: "interval j \<noteq> 0" "e_now e < ts + interval j"
  shows "do_analysis e d f j = Some (delay_task (e_now e) d f j, [])"
proof -
  have t: "time_ok (e_dbnow e)" "e_eng e = eng" using e by (simp_all add: env_ok_def)
  show ?thesis
    using nf find_files [OF j f(1) text_lengths(1) [OF f(2) f(2) t(1)]] old t(2) delay
    by (auto simp: do_analysis_def filtered_def)
qed

lemma do_analysis_checked:
  assumes e: "env_ok e" and j: "db_ok (fileDB j)" and f: "name_ok f" "length f \<le> 450"
    and nf: "\<not> filtered e f j" and old: "files (fileDB j) f = Some (s, ts)"
    and due: "\<not> (interval j \<noteq> 0 \<and> e_now e < ts + interval j)"
    and c: "get_checksum (e_sys e) (e_stack e) f '''' = (rc, c)"
  shows "\<exists>db'. do_analysis e d f j = Some (del_task f (j\<lparr>fileDB := db'\<rparr>),
      if rc = FILE_NOT_EXIST then [(DELETED, d, f)] else if c \<noteq> s then [(CHANGED, d, f)] else [])
    \<and> db_ok db'
    \<and> files db' = (if rc = FILE_NOT_EXIST then (files (fileDB j))(f := None)
         else if c \<noteq> s then (files (fileDB j))(f \<mapsto> (c, e_dbnow e)) else files (fileDB j))"
proof -
  have ct: "text_ok c" "length c \<le> 450"
    using get_checksum_text [of "e_sys e" "e_stack e" f] c by simp_all
  have t: "time_ok (e_dbnow e)" "e_eng e = eng" using e by (simp_all add: env_ok_def)
  note len = text_lengths [OF f(2) ct(2) t(1)]
  note find = find_files [OF j f(1) len(1)]
  obtain d1 where d1: "FileDB_del eng f (fileDB j) = (0, d1)" "db_ok d1"
      "files d1 = (files (fileDB j))(f := None)"
    using del_files [OF j f(1) len(4)] by blast
  obtain d2 where d2: "FileDB_update eng (e_dbnow e) f c (fileDB j) = (0, d2)" "db_ok d2"
      "files d2 = (files (fileDB j))(f \<mapsto> (c, e_dbnow e))"
    using update_files [OF j f(1) ct(1) t(1) len(3)] old by auto
  have a: "do_analysis e d f j = Some (del_task f (if rc = FILE_NOT_EXIST then j\<lparr>fileDB := d1\<rparr>
        else if c \<noteq> s then j\<lparr>fileDB := d2\<rparr> else j),
      if rc = FILE_NOT_EXIST then [(DELETED, d, f)] else if c \<noteq> s then [(CHANGED, d, f)] else [])"
  proof -
    have g: "\<not> match (e_regex e) (ignored j) f"
        "\<not> (length (grep j) > 0 \<and> \<not> match (e_regex e) (grep j) f)"
      using nf by (simp_all add: filtered_def)
    show ?thesis
      unfolding do_analysis_def if_not_P [OF g(1)] if_not_P [OF g(2)] t(2) find old option.case prod.case
        if_not_P [OF due] c d1(1) d2(1) Let_def
      by (simp split: if_split)
  qed
  show ?thesis
  proof (cases "rc = FILE_NOT_EXIST")
    case True
    then show ?thesis using a d1(2,3) by (intro exI [of _ d1]) simp
  next
    case nd: False
    show ?thesis
    proof (cases "c = s")
      case True
      then show ?thesis using a nd j by (intro exI [of _ "fileDB j"]) simp
    next
      case False
      then show ?thesis using a nd d2(2,3) by (intro exI [of _ d2]) simp
    qed
  qed
qed

end

section \<open>Executions and the alerts they raise\<close>

text \<open>The alerts of an execution, stamped with the time their check began.\<close>

type_synonym stamped = "int \<times> int \<times> string"

fun stamp :: "'db event \<Rightarrow> alert_raised list \<Rightarrow> stamped list" where
  "stamp (Judge e) raised = map (\<lambda>(l, d, f). (e_now e, l, f)) raised"
| "stamp _ raised = []"

fun run :: "'db event list \<Rightarrow> ('db, 'a) judge \<Rightarrow> (('db, 'a) judge \<times> stamped list) option" where
  "run [] j = Some (j, [])"
| "run (s # ss) j =
     (case step s j of
        None \<Rightarrow> None
      | Some (j1, raised) \<Rightarrow>
          (case run ss j1 of None \<Rightarrow> None | Some (j2, log) \<Rightarrow> Some (j2, stamp s raised @ log)))"

lemma run_append:
  "run ss j = Some (j1, log) \<Longrightarrow>
   run (ss @ us) j = (case run us j1 of None \<Rightarrow> None | Some (j2, log') \<Rightarrow> Some (j2, log @ log'))"
  by (induction ss arbitrary: j log) (auto split: option.splits prod.splits)

text \<open>The next alert for a file, and alerts that keep their distance.\<close>

definition next_alert :: "string \<Rightarrow> stamped list \<Rightarrow> stamped option" where
  "next_alert f log = find (\<lambda>(t, l, g). g = f) log"

fun spaced :: "int \<Rightarrow> stamped list \<Rightarrow> bool" where
  "spaced i [] = True"
| "spaced i ((t, l, f) # log) =
     ((l \<noteq> DELETED \<longrightarrow> (case next_alert f log of None \<Rightarrow> True | Some (u, _) \<Rightarrow> t + i \<le> u)) \<and> spaced i log)"

definition node_ok :: "analysis_node \<Rightarrow> bool" where
  "node_ok n \<longleftrightarrow> name_ok (node_name n) \<and> length (node_name n) \<le> 450"

definition nodes_ok :: "('db, 'a) judge \<Rightarrow> bool" where
  "nodes_ok j \<longleftrightarrow> (\<forall>n\<in>set (queue j). node_ok n) \<and> (\<forall>x\<in>set (timers j). node_ok (user_data (snd x)))"

lemma delay_task_fields:
  "interval (delay_task t d f j) = interval j" "fileDB (delay_task t d f j) = fileDB j"
  "queue (delay_task t d f j) = queue j"
  "ignored (delay_task t d f j) = ignored j" "grep (delay_task t d f j) = grep j"
  "global_id (delay_task t d f j) = global_id j + 1"
  by (simp_all add: delay_task_def Let_def set_task_def split: option.split)

lemma delay_task_timers:
  "timers (delay_task t d f j) = timer_add \<lparr>expiration = to_int (interval j + t), task_id = global_id j,
       user_data = \<lparr>node_dir = d, node_name = f\<rparr>\<rparr>
     (case taskmap j f of None \<Rightarrow> timers j | Some old \<Rightarrow> timer_cancel old (timers j))"
  "taskmap (delay_task t d f j) = (taskmap j)(f \<mapsto> \<lparr>expiration = to_int (interval j + t), task_id = global_id j,
       user_data = \<lparr>node_dir = d, node_name = f\<rparr>\<rparr>)"
  by (simp_all add: delay_task_def Let_def set_task_def get_task_def split: option.split)

lemma set_timer_cancel: "set (timer_cancel t cbs) \<subseteq> set cbs"
  unfolding timer_cancel_def Let_def
  by (auto dest!: erase_first_subset [THEN subsetD] dest: set_takeWhileD set_dropWhileD)

lemma nodes_ok_delay:
  assumes "nodes_ok j" "node_ok \<lparr>node_dir = d, node_name = f\<rparr>"
  shows "nodes_ok (delay_task t d f j)"
  using assms set_timer_cancel by (fastforce simp: nodes_ok_def delay_task_fields delay_task_timers split: option.splits)

lemma delay_checks_queue:
  "queue (fold delay_check due j) = queue j @ map user_data due"
  "timers (fold delay_check due j) = timers j" "taskmap (fold delay_check due j) = taskmap j"
  "fileDB (fold delay_check due j) = fileDB j" "interval (fold delay_check due j) = interval j"
  "global_id (fold delay_check due j) = global_id j"
  by (induction due arbitrary: j) (simp_all add: delay_check_def add_queue_def)

lemma tick_step_fields:
  assumes "timer_round t (timers j) = (due, later)"
  shows "queue (tick_step t j) = queue j @ map user_data due" "timers (tick_step t j) = later"
    "taskmap (tick_step t j) = taskmap j" "fileDB (tick_step t j) = fileDB j"
    "interval (tick_step t j) = interval j" "global_id (tick_step t j) = global_id j"
  using assms by (simp_all add: tick_step_def delay_checks_queue)

lemma round_parts: "timer_round t cbs = (due, later) \<Longrightarrow> set cbs \<supseteq> set later \<and> snd ` set cbs \<supseteq> set due"
  by (auto simp: timer_round_def upper_bound_def Let_def dest!: set_takeWhileD set_dropWhileD)

lemma nodes_ok_tick: "nodes_ok j \<Longrightarrow> nodes_ok (tick_step t j)"
proof -
  assume "nodes_ok j"
  moreover obtain due later where "timer_round t (timers j) = (due, later)" by (cases "timer_round t (timers j)")
  ultimately show ?thesis
    using round_parts [of t "timers j" due later] by (fastforce simp: nodes_ok_def tick_step_fields)
qed

context sqlite_files
begin

definition judge_ok :: "('db, 'b) judge \<Rightarrow> bool" where
  "judge_ok j \<longleftrightarrow> db_ok (fileDB j) \<and> nodes_ok j"

definition event_ok :: "'db event \<Rightarrow> bool" where
  "event_ok s \<longleftrightarrow> (case s of
      Notify d f \<Rightarrow> node_ok \<lparr>node_dir = d, node_name = f\<rparr>
    | Judge e \<Rightarrow> env_ok e \<and> e_now e \<le> e_dbnow e
    | Tick t \<Rightarrow> True)"

text \<open>What one step does to the database, and the one alert it may raise.\<close>

definition quiet_step :: "'db event \<Rightarrow> ('db, 'b) judge \<Rightarrow> ('db, 'b) judge \<Rightarrow> alert_raised list \<Rightarrow> bool" where
  "quiet_step s j j' raised \<longleftrightarrow> stamp s raised = [] \<and> files (fileDB j') = files (fileDB j)"

definition alert_step :: "'db event \<Rightarrow> ('db, 'b) judge \<Rightarrow> ('db, 'b) judge \<Rightarrow> alert_raised list \<Rightarrow> bool" where
  "alert_step s j j' raised \<longleftrightarrow> (\<exists>t l f.
      stamp s raised = [(t, l, f)]
    \<and> (\<forall>g. g \<noteq> f \<longrightarrow> files (fileDB j') g = files (fileDB j) g)
    \<and> (\<forall>c ts. files (fileDB j) f = Some (c, ts) \<longrightarrow> interval j = 0 \<or> ts + interval j \<le> t)
    \<and> (l \<noteq> DELETED \<longrightarrow> (\<exists>c ts. files (fileDB j') f = Some (c, ts) \<and> t \<le> ts)))"

lemma judge_step_cases:
  assumes e: "env_ok e" "e_now e \<le> e_dbnow e" and j: "judge_ok j"
    and n: "node_ok \<lparr>node_dir = d, node_name = f\<rparr>"
    and st: "do_analysis e d f j = Some (j', raised)"
  shows "judge_ok j' \<and> interval j' = interval j
    \<and> (quiet_step (Judge e) j j' raised \<or> alert_step (Judge e) j j' raised)"
proof (cases "filtered e f j")
  case True
  then show ?thesis using st j do_analysis_filtered [OF True, of d] by (simp add: quiet_step_def)
next
  case nf: False
  have db: "db_ok (fileDB j)" and ns: "nodes_ok j" and fo: "name_ok f" "length f \<le> 450"
    using j n by (simp_all add: judge_ok_def node_ok_def)
  show ?thesis
  proof (cases "files (fileDB j) f")
    case None
    obtain db' where a: "do_analysis e d f j = Some (j\<lparr>fileDB := db'\<rparr>, [(CREATED, d, f)])" "db_ok db'"
        "files db' = (files (fileDB j))(f \<mapsto> (snd (get_checksum (e_sys e) (e_stack e) f ''''), e_dbnow e))"
      using do_analysis_new [OF e(1) db fo nf None, of d] by blast
    have "j' = j\<lparr>fileDB := db'\<rparr>" "raised = [(CREATED, d, f)]" using a(1) st by simp_all
    then show ?thesis
      using a(2,3) ns e(2) None by (simp add: judge_ok_def nodes_ok_def alert_step_def)
  next
    case (Some sts)
    obtain s ts where sts: "files (fileDB j) f = Some (s, ts)" using Some by (cases sts) auto
    obtain rc c where c: "get_checksum (e_sys e) (e_stack e) f '''' = (rc, c)" by fastforce
    show ?thesis
    proof (cases "interval j \<noteq> 0 \<and> e_now e < ts + interval j")
      case True
      then show ?thesis
        using st j ns db do_analysis_delayed [OF e(1) db fo nf sts, of d] nodes_ok_delay [OF ns n]
        by (auto simp: judge_ok_def quiet_step_def delay_task_fields)
    next
      case False
      obtain db' where a: "do_analysis e d f j = Some (del_task f (j\<lparr>fileDB := db'\<rparr>),
            if rc = FILE_NOT_EXIST then [(DELETED, d, f)] else if c \<noteq> s then [(CHANGED, d, f)] else [])"
          "db_ok db'" "files db' = (if rc = FILE_NOT_EXIST then (files (fileDB j))(f := None)
            else if c \<noteq> s then (files (fileDB j))(f \<mapsto> (c, e_dbnow e)) else files (fileDB j))"
        using do_analysis_checked [OF e(1) db fo nf sts False c, of d] by blast
      have j': "j' = del_task f (j\<lparr>fileDB := db'\<rparr>)" and
          raised: "raised = (if rc = FILE_NOT_EXIST then [(DELETED, d, f)] else if c \<noteq> s then [(CHANGED, d, f)] else [])"
        using a(1) st by simp_all
      have ok: "judge_ok j'" "interval j' = interval j" "fileDB j' = db'"
        using a(2) ns by (simp_all add: j' judge_ok_def nodes_ok_def del_task_def)
      show ?thesis
        using ok raised a(3) e(2) False sts by (auto simp: alert_step_def quiet_step_def)
    qed
  qed
qed

lemma step_cases:
  assumes s: "event_ok s" and j: "judge_ok j" and st: "step s j = Some (j', raised)"
  shows "judge_ok j' \<and> interval j' = interval j \<and> (quiet_step s j j' raised \<or> alert_step s j j' raised)"
proof (cases s)
  case (Notify d f)
  then show ?thesis
    using assms by (auto simp: event_ok_def judge_ok_def nodes_ok_def analysis_def add_queue_def quiet_step_def)
next
  case (Tick t)
  obtain due later where r: "timer_round t (timers j) = (due, later)" by (cases "timer_round t (timers j)")
  show ?thesis
    using st j Tick nodes_ok_tick [of j t] tick_step_fields [OF r]
    by (auto simp: judge_ok_def quiet_step_def)
next
  case (Judge e)
  show ?thesis
  proof (cases "queue j")
    case Nil
    then show ?thesis using st j Judge by (auto simp: loop_step_def quiet_step_def)
  next
    case (Cons n ns)
    have n: "node_ok \<lparr>node_dir = node_dir n, node_name = node_name n\<rparr>"
      using j Cons by (simp add: judge_ok_def nodes_ok_def node_ok_def)
    have "judge_ok (j\<lparr>queue := ns\<rparr>)" using j Cons by (simp add: judge_ok_def nodes_ok_def)
    from judge_step_cases [OF _ _ this n, of e j' raised] show ?thesis
      using st s Judge Cons
      by (simp add: event_ok_def loop_step_def quiet_step_def alert_step_def)
  qed
qed

lemma run_spaced:
  assumes "\<forall>s\<in>set ss. event_ok s" "judge_ok j" "interval j \<noteq> 0" "run ss j = Some (j', log)"
  shows "spaced (interval j) log \<and> (\<forall>f c ts t l. files (fileDB j) f = Some (c, ts)
     \<and> next_alert f log = Some (t, l) \<longrightarrow> ts + interval j \<le> t)"
  using assms
proof (induction ss arbitrary: j log)
  case Nil
  then show ?case by (simp add: next_alert_def)
next
  case (Cons s ss)
  obtain j1 raised log1 where s1: "step s j = Some (j1, raised)" and r1: "run ss j1 = Some (j', log1)"
      and log: "log = stamp s raised @ log1"
    using Cons.prems(4) by (auto split: option.splits prod.splits)
  have c: "judge_ok j1" "interval j1 = interval j" "quiet_step s j j1 raised \<or> alert_step s j j1 raised"
    using step_cases [OF _ Cons.prems(2) s1] Cons.prems(1) by auto
  have ih: "spaced (interval j) log1" "\<And>f c ts t l. files (fileDB j1) f = Some (c, ts) \<Longrightarrow>
      next_alert f log1 = Some (t, l) \<Longrightarrow> ts + interval j \<le> t"
  proof -
    have "spaced (interval j1) log1 \<and> (\<forall>f c ts t l. files (fileDB j1) f = Some (c, ts)
        \<and> next_alert f log1 = Some (t, l) \<longrightarrow> ts + interval j1 \<le> t)"
      using Cons.IH [OF _ c(1) _ r1] Cons.prems(1,3) c(2) by simp
    then show "spaced (interval j) log1" "\<And>f c ts t l. files (fileDB j1) f = Some (c, ts) \<Longrightarrow>
        next_alert f log1 = Some (t, l) \<Longrightarrow> ts + interval j \<le> t"
      unfolding c(2) by blast+
  qed
  from c(3) show ?case
  proof
    assume "quiet_step s j j1 raised"
    then show ?thesis using ih log by (auto simp: quiet_step_def)
  next
    assume "alert_step s j j1 raised"
    then obtain t l f where a: "stamp s raised = [(t, l, f)]"
        "\<And>g. g \<noteq> f \<Longrightarrow> files (fileDB j1) g = files (fileDB j) g"
        "\<And>c ts. files (fileDB j) f = Some (c, ts) \<Longrightarrow> ts + interval j \<le> t"
        "l \<noteq> DELETED \<Longrightarrow> \<exists>c ts. files (fileDB j1) f = Some (c, ts) \<and> t \<le> ts"
      using Cons.prems(3) unfolding alert_step_def by blast
    have sp: "spaced (interval j) log"
      using ih a(1,4) log by (fastforce split: option.split)
    have "ts + interval j \<le> u" if "files (fileDB j) g = Some (c, ts)" "next_alert g log = Some (u, l')" for g c ts u l'
      using that a(1-3) ih(2) [of g] log by (cases "g = f") (auto simp: next_alert_def)
    with sp show ?thesis by blast
  qed
qed

end

section \<open>No notification is lost\<close>

text \<open>A check that is put off.\<close>

definition delays :: "'db env \<Rightarrow> string \<Rightarrow> ('db, 'a) judge \<Rightarrow> bool" where
  "delays e f j \<longleftrightarrow> \<not> filtered e f j \<and>
     (case FileDB_find (e_eng e) (fileDB j) f of
        Some (Some (s, ts)) \<Rightarrow> interval j \<noteq> 0 \<and> e_now e < ts + interval j
      | _ \<Rightarrow> False)"

text \<open>
  The files whose last notification has not been settled: a notification adds
  its file, a check that is not put off removes it, and a put-off check keeps
  (or makes) it outstanding.
\<close>

definition owed_step :: "'db event \<Rightarrow> ('db, 'a) judge \<Rightarrow> string set \<Rightarrow> string set" where
  "owed_step s j owed =
     (case s of
        Notify d f \<Rightarrow> insert f owed
      | Tick t \<Rightarrow> owed
      | Judge e \<Rightarrow> (case queue j of
            [] \<Rightarrow> owed
          | n # ns \<Rightarrow> if delays e (node_name n) (j\<lparr>queue := ns\<rparr>) then insert (node_name n) owed
                      else owed - {node_name n}))"

fun run_owed :: "'db event list \<Rightarrow> ('db, 'a) judge \<Rightarrow> string set \<Rightarrow> (('db, 'a) judge \<times> string set) option" where
  "run_owed [] j owed = Some (j, owed)"
| "run_owed (s # ss) j owed =
     (case step s j of None \<Rightarrow> None | Some (j1, raised) \<Rightarrow> run_owed ss j1 (owed_step s j owed))"

text \<open>A file is pending when the queue or a timer holds a node for it.\<close>

definition pending :: "('db, 'a) judge \<Rightarrow> string \<Rightarrow> bool" where
  "pending j f \<longleftrightarrow> (\<exists>n\<in>set (queue j). node_name n = f)
     \<or> (\<exists>x\<in>set (timers j). node_name (user_data (snd x)) = f)"

text \<open>Identities are fresh, and the task map knows its own timers.\<close>

definition task_inv :: "nat \<Rightarrow> ('db, 'a) judge \<Rightarrow> bool" where
  "task_inv g j \<longleftrightarrow> timers_ok (timers j) \<and> unat (global_id j) = g
     \<and> (\<forall>x\<in>set (timers j). unat (task_id (snd x)) < g)
     \<and> (\<forall>f t. taskmap j f = Some t \<longrightarrow> node_name (user_data t) = f \<and> unat (task_id t) < g
          \<and> (\<forall>x\<in>set (timers j). task_id (snd x) = task_id t \<longrightarrow> snd x = t))"

lemma do_analysis_fields:
  assumes "do_analysis e d f j = Some (j', raised)"
  shows "(delays e f j \<and> j' = delay_task (e_now e) d f j)
    \<or> (\<not> delays e f j \<and> queue j' = queue j \<and> timers j' = timers j \<and> global_id j' = global_id j
        \<and> (taskmap j' = taskmap j \<or> taskmap j' = (taskmap j)(f := None)))"
proof (cases "filtered e f j")
  case True
  then have "do_analysis e d f j = Some (j, [])" by (auto simp: filtered_def do_analysis_def)
  then show ?thesis using assms True by (simp add: delays_def)
next
  case False
  then have g: "\<not> match (e_regex e) (ignored j) f"
      "\<not> (length (grep j) > 0 \<and> \<not> match (e_regex e) (grep j) f)" by (simp_all add: filtered_def)
  note a = assms [unfolded do_analysis_def if_not_P [OF g(1)] if_not_P [OF g(2)]]
  show ?thesis
  proof (cases "FileDB_find (e_eng e) (fileDB j) f")
    case None
    then show ?thesis using a by simp
  next
    case (Some r)
    show ?thesis
    proof (cases r)
      case None
      then show ?thesis using a Some False
        by (auto simp: delays_def Let_def split: prod.splits)
    next
      case (Some sts)
      then show ?thesis
        using a False \<open>FileDB_find (e_eng e) (fileDB j) f = Some r\<close>
        by (cases sts) (auto simp: delays_def Let_def del_task_def split: prod.splits if_splits)
    qed
  qed
qed

lemma cancel_own_timer:
  assumes "task_inv g j" "taskmap j f = Some old" "x \<in> set (timers j)"
    and "x \<notin> set (timer_cancel old (timers j))"
  shows "node_name (user_data (snd x)) = f"
proof -
  let ?P = "\<lambda>e. fst e = expiration old \<and> task_id (snd e) = task_id old"
  have "x \<in> set (remove_first P xs) \<or> P x" if "x \<in> set xs" for P xs
    using that by (induction xs) auto
  then have "x \<in> set (remove_first ?P (timers j)) \<or> ?P x" using assms(3) by blast
  moreover have "timers_ok (timers j)" using assms(1) by (simp add: task_inv_def)
  ultimately have "task_id (snd x) = task_id old"
    using assms(4) timer_cancel_remove [of "timers j" old] by simp
  then have "snd x = old" using assms(1,2,3) unfolding task_inv_def by blast
  then show ?thesis using assms(1,2) unfolding task_inv_def by blast
qed

lemma delay_task_inv:
  assumes j: "task_inv g j" and g: "g + 1 < 2 ^ 64"
  shows "task_inv (g + 1) (delay_task t d f j)"
    "pending j h \<Longrightarrow> pending (delay_task t d f j) h" "pending (delay_task t d f j) f"
proof -
  define cs where "cs = (case taskmap j f of None \<Rightarrow> timers j | Some old \<Rightarrow> timer_cancel old (timers j))"
  define new where "new = \<lparr>expiration = to_int (interval j + t), task_id = global_id j,
       user_data = \<lparr>node_dir = d, node_name = f\<rparr>\<rparr>"
  have tm: "timers (delay_task t d f j) = timer_add new cs"
      "taskmap (delay_task t d f j) = (taskmap j)(f \<mapsto> new)"
    by (simp_all add: delay_task_timers new_def cs_def)
  have sub: "set cs \<subseteq> set (timers j)"
    using set_timer_cancel by (auto simp: cs_def split: option.splits)
  have ok: "timers_ok cs" using j by (auto simp: cs_def task_inv_def timers_ok_cancel split: option.split)
  have id: "unat (global_id j) = g" using j by (simp add: task_inv_def)
  have gid: "unat (global_id j + 1) = g + 1"
    using id g by (simp add: unat_word_ariths)
  have lt: "unat (task_id (snd x)) < g" if "x \<in> set cs" for x
    using that sub j by (auto simp: task_inv_def)
  have old: "node_name (user_data u) = h" "unat (task_id u) < g"
      "\<And>x. x \<in> set cs \<Longrightarrow> task_id (snd x) = task_id u \<Longrightarrow> snd x = u" if "taskmap j h = Some u" for h u
    using j sub that unfolding task_inv_def by blast+
  have new: "unat (task_id new) = g" "node_name (user_data new) = f" using id by (simp_all add: new_def)
  have set: "set (timer_add new cs) = insert (expiration new, new) (set cs)" by simp
  have c4: "node_name (user_data u) = h \<and> unat (task_id u) < g + 1
      \<and> (\<forall>x\<in>set (timer_add new cs). task_id (snd x) = task_id u \<longrightarrow> snd x = u)"
    if u: "((taskmap j)(f \<mapsto> new)) h = Some u" for h u
  proof (cases "h = f")
    case True
    then have "u = new" using u by simp
    then show ?thesis using new lt True unfolding set by force
  next
    case False
    then have "taskmap j h = Some u" using u by simp
    from old [OF this] show ?thesis using new unfolding set by force
  qed
  have c3: "\<forall>x\<in>set (timer_add new cs). unat (task_id (snd x)) < g + 1"
    unfolding set using new(1) lt by (auto intro: less_SucI)
  show "task_inv (g + 1) (delay_task t d f j)"
    unfolding task_inv_def tm delay_task_fields
    using timers_ok_add [OF ok, of new] gid c3 c4 by blast
  show pf: "pending (delay_task t d f j) f"
    unfolding pending_def tm by (auto simp: new_def)
  show "pending (delay_task t d f j) h" if p: "pending j h"
  proof (cases "h = f")
    case False
    have "x \<in> set cs" if x: "x \<in> set (timers j)" "node_name (user_data (snd x)) = h" for x
      using x False cancel_own_timer [OF j _ x(1)] by (auto simp: cs_def split: option.split)
    then show ?thesis using p unfolding pending_def tm delay_task_fields by auto
  qed (use pf in simp)
qed

lemma step_owed:
  assumes j: "task_inv g j" and g: "g + 1 < 2 ^ 64" and st: "step s j = Some (j', raised)"
    and p: "\<forall>f\<in>owed. pending j f"
  shows "(\<exists>h\<le>g + 1. task_inv h j') \<and> (\<forall>f\<in>owed_step s j owed. pending j' f)"
proof (cases s)
  case (Notify d f)
  then have "j' = add_queue \<lparr>node_dir = d, node_name = f\<rparr> j" using st by (simp add: analysis_def)
  then show ?thesis
    using j p Notify by (auto simp: task_inv_def add_queue_def owed_step_def pending_def intro!: exI [of _ g])
next
  case (Tick t)
  obtain due later where r: "timer_round t (timers j) = (due, later)" by (cases "timer_round t (timers j)")
  have j': "j' = tick_step t j" using st Tick by simp
  have ok: "timers_ok (timers j)" using j by (simp add: task_inv_def)
  have "timers_ok later" using timers_ok_round [OF ok, of t] r by simp
  moreover have "set later \<subseteq> set (timers j)" using round_parts [OF r] by simp
  ultimately have "task_inv g j'"
    using j unfolding task_inv_def j' tick_step_fields [OF r] by blast
  moreover have "pending j' f" if "pending j f" for f
  proof -
    have "snd ` set (timers j) = set due \<union> snd ` set later"
      using arg_cong [OF timer_round_split(1) [OF ok r], of set] by simp
    then have "x \<in> set (timers j) \<Longrightarrow> snd x \<in> set due \<or> snd x \<in> snd ` set later" for x by blast
    then show ?thesis
      using that by (auto simp: pending_def j' tick_step_fields [OF r]) blast
  qed
  ultimately show ?thesis using p Tick by (auto simp: owed_step_def intro!: exI [of _ g])
next
  case (Judge e)
  show ?thesis
  proof (cases "queue j")
    case Nil
    then show ?thesis using j p st Judge by (auto simp: loop_step_def owed_step_def intro!: exI [of _ g])
  next
    case (Cons n ns)
    let ?j = "j\<lparr>queue := ns\<rparr>"
    have a: "do_analysis e (node_dir n) (node_name n) ?j = Some (j', raised)"
      using st Judge Cons by (simp add: loop_step_def)
    have i: "task_inv g ?j" using j by (simp add: task_inv_def)
    have pn: "pending ?j h" if "pending j h" "h \<noteq> node_name n" for h
      using that Cons by (auto simp: pending_def)
    from do_analysis_fields [OF a] show ?thesis
    proof
      assume d: "delays e (node_name n) ?j \<and> j' = delay_task (e_now e) (node_dir n) (node_name n) ?j"
      have "pending j' h" if "h \<in> insert (node_name n) owed" for h
        using that p pn d delay_task_inv(2,3) [OF i g] by (cases "h = node_name n") auto
      then show ?thesis
        using d delay_task_inv(1) [OF i g] Judge Cons by (auto simp: owed_step_def intro!: exI [of _ "g + 1"])
    next
      assume d: "\<not> delays e (node_name n) ?j \<and> queue j' = queue ?j \<and> timers j' = timers ?j
          \<and> global_id j' = global_id ?j \<and> (taskmap j' = taskmap ?j \<or> taskmap j' = (taskmap ?j)(node_name n := None))"
      then have "taskmap j' h = Some u \<Longrightarrow> taskmap ?j h = Some u" for h u
        by (auto split: if_splits)
      then have "task_inv g j'" using i d unfolding task_inv_def by metis
      moreover have "pending j' h" if "h \<in> owed - {node_name n}" for h
        using that p pn [of h] d by (auto simp: pending_def)
      ultimately show ?thesis using d Judge Cons by (auto simp: owed_step_def intro!: exI [of _ g])
    qed
  qed
qed

lemma run_owed_pending:
  "task_inv g j \<Longrightarrow> g + length ss + 1 < 2 ^ 64 \<Longrightarrow> \<forall>f\<in>owed. pending j f \<Longrightarrow>
   run_owed ss j owed = Some (j', owed') \<Longrightarrow> \<forall>f\<in>owed'. pending j' f"
proof (induction ss arbitrary: j owed g)
  case (Cons s ss)
  obtain j1 raised where s1: "step s j = Some (j1, raised)" and r: "run_owed ss j1 (owed_step s j owed) = Some (j', owed')"
    using Cons.prems(4) by (auto split: option.splits prod.splits)
  have "g + 1 < 2 ^ 64" using Cons.prems(2) by simp
  from step_owed [OF Cons.prems(1) this s1 Cons.prems(3)]
  obtain h where h: "h \<le> g + 1" "task_inv h j1" "\<forall>f\<in>owed_step s j owed. pending j1 f" by blast
  show ?case using Cons.IH [OF h(2) _ h(3) r] h(1) Cons.prems(2) by simp
qed simp

section \<open>A put-off check is kept\<close>

text \<open>A step in which the judge takes a node of the file, and executions without such a step.\<close>

definition takes :: "'db event \<Rightarrow> ('db, 'a) judge \<Rightarrow> string \<Rightarrow> bool" where
  "takes s j f \<longleftrightarrow>
     (case s of Judge e \<Rightarrow> (case queue j of [] \<Rightarrow> False | n # ns \<Rightarrow> node_name n = f) | _ \<Rightarrow> False)"

fun untaken :: "string \<Rightarrow> 'db event list \<Rightarrow> ('db, 'a) judge \<Rightarrow> bool" where
  "untaken f [] j = True"
| "untaken f (s # ss) j =
     (\<not> takes s j f \<and> (case step s j of None \<Rightarrow> True | Some (j1, raised) \<Rightarrow> untaken f ss j1))"

text \<open>The node of a timer waits in the queue, or its entry is still in the map.\<close>

definition kept :: "int \<times> analysis_node task_timer \<Rightarrow> ('db, 'a) judge \<Rightarrow> bool" where
  "kept x j \<longleftrightarrow> user_data (snd x) \<in> set (queue j) \<or> x \<in> set (timers j)"

lemma tick_entry:
  assumes "timers_ok (timers j)" "x \<in> set (timers j)"
  shows "if fst x \<le> to_int t then user_data (snd x) \<in> set (queue (tick_step t j)) else x \<in> set (timers (tick_step t j))"
proof -
  obtain due later where r: "timer_round t (timers j) = (due, later)" by (cases "timer_round t (timers j)")
  have d: "due = map snd (takeWhile (\<lambda>e. fst e \<le> to_int t) (timers j))" "later = dropWhile (\<lambda>e. fst e \<le> to_int t) (timers j)"
    using r by (auto simp: timer_round_def upper_bound_def Let_def)
  have "x \<in> set (takeWhile (\<lambda>e. fst e \<le> to_int t) (timers j)) \<or> x \<in> set later"
    using assms(2) d(2) by (metis Un_iff set_append takeWhile_dropWhile_id)
  moreover have "fst x \<le> to_int t" if "x \<in> set (takeWhile (\<lambda>e. fst e \<le> to_int t) (timers j))"
    using set_takeWhileD [OF that] by simp
  moreover have "\<not> fst x \<le> to_int t" if "x \<in> set later"
  proof -
    have "fst x = expiration (snd x)"
      using assms by (simp add: timers_ok_def)
    then show ?thesis using timer_round_split(3) [OF assms(1) r] that by fastforce
  qed
  ultimately show ?thesis by (auto simp: tick_step_fields [OF r] d(1))
qed

lemma judge_keeps:
  assumes j: "task_inv g j" and a: "do_analysis e d h j = Some (j', raised)"
    and x: "node_name (user_data (snd x)) \<noteq> h"
  shows "queue j' = queue j" "x \<in> set (timers j) \<Longrightarrow> x \<in> set (timers j')"
proof -
  have "queue j' = queue j \<and> (x \<in> set (timers j) \<longrightarrow> x \<in> set (timers j'))"
    using do_analysis_fields [OF a]
  proof
    assume del: "delays e h j \<and> j' = delay_task (e_now e) d h j"
    have "x \<in> set (case taskmap j h of None \<Rightarrow> timers j | Some old \<Rightarrow> timer_cancel old (timers j))" if "x \<in> set (timers j)"
      using that x cancel_own_timer [OF j _ that] by (auto split: option.split)
    then show ?thesis using del by (simp add: delay_task_fields delay_task_timers)
  qed simp
  then show "queue j' = queue j" "x \<in> set (timers j) \<Longrightarrow> x \<in> set (timers j')" by simp_all
qed

lemma step_kept:
  assumes j: "task_inv g j" and st: "step s j = Some (j', raised)"
    and f: "\<not> takes s j (node_name (user_data (snd x)))"
  shows "kept x j \<Longrightarrow> kept x j'"
    "(\<And>t. s = Tick t \<Longrightarrow> to_int t < fst x) \<Longrightarrow> x \<in> set (timers j) \<Longrightarrow> x \<in> set (timers j')"
proof -
  have ok: "timers_ok (timers j)" using j by (simp add: task_inv_def)
  have "(kept x j \<longrightarrow> kept x j') \<and> ((\<forall>t. s = Tick t \<longrightarrow> to_int t < fst x) \<longrightarrow> x \<in> set (timers j) \<longrightarrow> x \<in> set (timers j'))"
  proof (cases s)
    case (Notify d n)
    then show ?thesis using st by (auto simp: kept_def analysis_def add_queue_def)
  next
    case (Tick t)
    obtain due later where r: "timer_round t (timers j) = (due, later)" by (cases "timer_round t (timers j)")
    have "j' = tick_step t j" using st Tick by simp
    then show ?thesis
      using Tick tick_entry [OF ok, of x t] tick_step_fields(1) [OF r] by (auto simp: kept_def split: if_splits)
  next
    case (Judge e)
    show ?thesis
    proof (cases "queue j")
      case Nil
      then show ?thesis using st Judge by (simp add: loop_step_def)
    next
      case (Cons n ns)
      have a: "do_analysis e (node_dir n) (node_name n) (j\<lparr>queue := ns\<rparr>) = Some (j', raised)"
        using st Judge Cons by (simp add: loop_step_def)
      have i: "task_inv g (j\<lparr>queue := ns\<rparr>)" using j by (simp add: task_inv_def)
      have n: "node_name (user_data (snd x)) \<noteq> node_name n" using f Judge Cons by (auto simp: takes_def)
      show ?thesis using judge_keeps [OF i a n] n Cons by (auto simp: kept_def)
    qed
  qed
  then show "kept x j \<Longrightarrow> kept x j'"
    "(\<And>t. s = Tick t \<Longrightarrow> to_int t < fst x) \<Longrightarrow> x \<in> set (timers j) \<Longrightarrow> x \<in> set (timers j')" by blast+
qed

lemma run_kept:
  assumes "task_inv g j" "g + length ss + 1 < 2 ^ 64" "run ss j = Some (j', log)" "untaken (node_name (user_data (snd x))) ss j"
  shows "(\<exists>h. task_inv h j') \<and> (kept x j \<longrightarrow> kept x j')
    \<and> ((\<forall>t. Tick t \<in> set ss \<longrightarrow> to_int t < fst x) \<longrightarrow> x \<in> set (timers j) \<longrightarrow> x \<in> set (timers j'))"
  using assms
proof (induction ss arbitrary: j g log)
  case (Cons s ss)
  obtain j1 raised log1 where s1: "step s j = Some (j1, raised)" and r1: "run ss j1 = Some (j', log1)"
    using Cons.prems(3) by (auto split: option.splits prod.splits)
  have f: "\<not> takes s j (node_name (user_data (snd x)))" and u: "untaken (node_name (user_data (snd x))) ss j1"
    using Cons.prems(4) s1 by simp_all
  have "g + 1 < 2 ^ 64" using Cons.prems(2) by simp
  from step_owed [OF Cons.prems(1) this s1, of "{}"] obtain h where h: "h \<le> g + 1" "task_inv h j1" by auto
  have "h + length ss + 1 < 2 ^ 64" using h(1) Cons.prems(2) by simp
  note ih = Cons.IH [OF h(2) this r1 u] and k = step_kept [OF Cons.prems(1) s1 f]
  show ?case
  proof (intro conjI impI)
    show "\<exists>h. task_inv h j'" using ih by blast
    show "kept x j'" if "kept x j" using that k(1) ih by blast
    show "x \<in> set (timers j')" if "\<forall>t. Tick t \<in> set (s # ss) \<longrightarrow> to_int t < fst x" "x \<in> set (timers j)"
      using that k(2) ih by simp
  qed
qed auto

lemma run_inv:
  "task_inv g j \<Longrightarrow> g + length ss + 1 < 2 ^ 64 \<Longrightarrow> run ss j = Some (j', log) \<Longrightarrow> \<exists>h\<le>g + length ss. task_inv h j'"
proof (induction ss arbitrary: j g log)
  case (Cons s ss)
  obtain j1 raised log1 where s1: "step s j = Some (j1, raised)" and r1: "run ss j1 = Some (j', log1)"
    using Cons.prems(3) by (auto split: option.splits prod.splits)
  have "g + 1 < 2 ^ 64" using Cons.prems(2) by simp
  from step_owed [OF Cons.prems(1) this s1, of "{}"] obtain h where h: "h \<le> g + 1" "task_inv h j1" by auto
  have "h + length ss + 1 < 2 ^ 64" using h(1) Cons.prems(2) by simp
  from Cons.IH [OF h(2) this r1] obtain h' where "h' \<le> h + length ss" "task_inv h' j'" by blast
  then show ?case using h(1) by (intro exI [of _ h']) simp
qed auto

section \<open>Properties\<close>

definition no_regex :: "string \<Rightarrow> (string \<Rightarrow> bool) option" where
  "no_regex r = None"

definition empty_os :: os where
  "empty_os = \<lparr>lstat = (\<lambda>f. Inl ENOENT), open_read = (\<lambda>f. None)\<rparr>"

definition fresh_judge :: "int \<Rightarrow> 'db \<Rightarrow> ('db, nat) judge" where
  "fresh_judge i db = \<lparr>interval = i, ignored = [], grep = [], alerter = empty_alerter, fileDB = db,
     taskmap = Map.empty, global_id = 0, timers = [], queue = []\<rparr>"

definition sample_env :: "int \<Rightarrow> table env" where
  "sample_env t = \<lparr>e_sys = empty_os, e_stack = md5_blank, e_regex = no_regex, e_eng = ref_engine,
     e_now = t, e_dbnow = t\<rparr>"

text \<open>
  C19. The verdict of a check, on any SQLite with the documented meaning of the
  statements and for a file that no filter excludes: an unknown file raises
  \<open>CREATED\<close> and is recorded with its checksum; a known one is put off without
  alert while its record is younger than the interval; otherwise a missing
  file raises \<open>DELETED\<close> and is forgotten, a differing checksum raises \<open>CHANGED\<close>
  and is recorded, an equal one raises nothing, and the pending task is
  dropped.  No other record changes.
\<close>

theorem judge_verdict:
  assumes "sqlite_files eng rows good" "good (fileDB j)" "distinct (map fst (rows (fileDB j)))"
    and "e_eng e = eng" "time_ok (e_dbnow e)" "name_ok f" "length f \<le> 450" "\<not> filtered e f j"
    and "get_checksum (e_sys e) (e_stack e) f '''' = (rc, c)"
  shows "\<exists>db'. good db' \<and> distinct (map fst (rows db')) \<and>
    (case map_of (rows (fileDB j)) f of
       None \<Rightarrow> do_analysis e d f j = Some (j\<lparr>fileDB := db'\<rparr>, [(CREATED, d, f)])
         \<and> map_of (rows db') = (map_of (rows (fileDB j)))(f \<mapsto> (c, e_dbnow e))
     | Some (s, ts) \<Rightarrow>
         if interval j \<noteq> 0 \<and> e_now e < ts + interval j
         then do_analysis e d f j = Some (delay_task (e_now e) d f j, []) \<and> db' = fileDB j
         else do_analysis e d f j = Some (del_task f (j\<lparr>fileDB := db'\<rparr>),
                if rc = FILE_NOT_EXIST then [(DELETED, d, f)] else if c \<noteq> s then [(CHANGED, d, f)] else [])
           \<and> map_of (rows db') = (if rc = FILE_NOT_EXIST then (map_of (rows (fileDB j)))(f := None)
                else if c \<noteq> s then (map_of (rows (fileDB j)))(f \<mapsto> (c, e_dbnow e))
                else map_of (rows (fileDB j))))"
proof -
  note law = assms(1)
  note ok = sqlite_files.db_ok_def [OF law] and fd = sqlite_files.files_def [OF law]
  have db: "sqlite_files.db_ok rows good (fileDB j)" using assms(2,3) by (simp add: ok)
  have en: "sqlite_files.env_ok eng e" using assms(4,5) by (simp add: sqlite_files.env_ok_def [OF law])
  show ?thesis
  proof (cases "map_of (rows (fileDB j)) f")
    case None
    then show ?thesis
      using sqlite_files.do_analysis_new [OF law en db assms(6,7,8), of d] assms(9)
      by (simp add: fd ok) blast
  next
    case (Some sts)
    obtain s ts where sts: "sts = (s, ts)" by (cases sts)
    show ?thesis
    proof (cases "interval j \<noteq> 0 \<and> e_now e < ts + interval j")
      case True
      then show ?thesis
        using sqlite_files.do_analysis_delayed [OF law en db assms(6,7,8), of s ts d] Some assms(2,3)
        by (auto simp: fd sts)
    next
      case False
      then show ?thesis
        using sqlite_files.do_analysis_checked [OF law en db assms(6,7,8) _ False assms(9), of s d] Some
        unfolding fd ok sts by (simp only: option.case prod.case if_False simp_thms) blast
    qed
  qed
qed

theorem judge_verdict_witness:
  "\<exists>db'. do_analysis (sample_env 100) ''/etc'' ''/etc/passwd'' (fresh_judge 60 [])
     = Some ((fresh_judge 60 [])\<lparr>fileDB := db'\<rparr>, [(CREATED, ''/etc'', ''/etc/passwd'')])"
proof -
  have "get_checksum empty_os md5_blank ''/etc/passwd'' '''' = (FILE_NOT_EXIST, '''')"
    by (simp add: get_checksum_def empty_os_def)
  then show ?thesis
    using judge_verdict [OF ref_files.sqlite_files_axioms, of "fresh_judge 60 []" "sample_env 100"
        "''/etc/passwd''" FILE_NOT_EXIST "''''" "''/etc''"]
    by (auto simp: fresh_judge_def sample_env_def time_ok_def name_ok_def text_ok_def filtered_def match_def)
qed

text \<open>
  C12. Alerts for a file keep their distance, as long as the database can record
  the files: in every execution of the three threads in which the notified
  names contain no quotes, have at most 450 characters and name a path, and
  SQLite gives the statements their documented meaning, however notifications
  and timers fall, after a \<open>CREATED\<close> or \<open>CHANGED\<close> alert the next alert for the same
  file comes from a check that began at least the configured interval after it.
\<close>

theorem alerts_spaced:
  assumes "sqlite_files eng rows good" "\<forall>s\<in>set ss. sqlite_files.event_ok eng s"
    and "sqlite_files.judge_ok rows good j" "interval j \<noteq> 0" "run ss j = Some (j', log)"
  shows "spaced (interval j) log"
  using sqlite_files.run_spaced [OF assms] by simp

definition sample_run :: "table event list" where
  "sample_run = [Notify ''/etc'' ''/etc/passwd'', Judge (sample_env 100), Notify ''/etc'' ''/etc/passwd'',
     Judge (sample_env 130), Tick 200, Judge (sample_env 200)]"

theorem alerts_spaced_witness:
  "\<exists>log. map_option snd (run sample_run (fresh_judge 60 [])) = Some log \<and> spaced 60 log \<and> length log = 2"
proof -
  have l: "map_option (map fst \<circ> snd) (run sample_run (fresh_judge 60 [])) = Some [100, 200]"
    by code_simp
  then obtain j log where r: "run sample_run (fresh_judge 60 []) = Some (j, log)" "map fst log = [100, 200]"
    by auto
  have e: "\<forall>s\<in>set sample_run. sqlite_files.event_ok ref_engine s"
    by (simp add: sample_run_def ref_files.event_ok_def ref_files.env_ok_def sample_env_def node_ok_def
        name_ok_def text_ok_def time_ok_def)
  have j: "sqlite_files.judge_ok (\<lambda>db. db) (\<lambda>db. True) (fresh_judge 60 [])"
    by (simp add: ref_files.judge_ok_def ref_files.db_ok_def nodes_ok_def fresh_judge_def)
  have "interval (fresh_judge 60 ([] :: table)) = 60" by (simp add: fresh_judge_def)
  then have "spaced 60 log"
    using alerts_spaced [OF ref_files.sqlite_files_axioms e j _ r(1)] by simp
  moreover have "length log = 2" using arg_cong [OF r(2), of length] by simp
  ultimately show ?thesis using r(1) by auto
qed

text \<open>
  C5. No notification is lost: in every execution (of fewer than 2^64 steps)
  from a judge without pending work, each file that was notified, or whose
  check was put off, and that no later check has settled, still has a node in
  the queue or in a timer, however notifications, checks, cancelled tasks and
  timer rounds interleave.
\<close>

theorem notifications_not_lost:
  assumes "queue j = []" "timers j = []" "taskmap j = Map.empty" "global_id j = 0"
    and "length ss + 1 < 2 ^ 64" "run_owed ss j {} = Some (j', owed)"
  shows "\<forall>f\<in>owed. pending j' f"
proof -
  have "task_inv 0 j" using assms(2-4) by (simp add: task_inv_def)
  then show ?thesis using assms(5,6) by (intro run_owed_pending [of 0 j ss "{}" j' owed]) simp_all
qed

theorem notifications_not_lost_witness:
  "\<exists>j' owed. run_owed (take 4 sample_run) (fresh_judge 60 []) {} = Some (j', owed) \<and> (\<forall>f\<in>owed. pending j' f)"
proof -
  have "(case run_owed (take 4 sample_run) (fresh_judge 60 []) {} of None \<Rightarrow> False | Some _ \<Rightarrow> True)"
    by code_simp
  then obtain j' owed where r: "run_owed (take 4 sample_run) (fresh_judge 60 []) {} = Some (j', owed)"
    by (auto split: option.splits)
  have "\<forall>f\<in>owed. pending j' f"
    by (rule notifications_not_lost [OF _ _ _ _ _ r]) (simp_all add: fresh_judge_def sample_run_def)
  with r show ?thesis by blast
qed

text \<open>
  C29. A put-off check is made up for.  In an execution from a judge without
  pending work, when the judge takes a node and puts its check off, no alert is
  raised and the database is left alone.  Whatever follows, notifications,
  checks of other files and timer rounds in any order, as long as the judge
  takes no node of this file: rounds before the expiration leave the timer in
  place, and after the first round at or after it the node is in the queue.
\<close>

theorem delayed_check_queued:
  assumes "queue j0 = []" "timers j0 = []" "taskmap j0 = Map.empty" "global_id j0 = 0"
    and "run pre j0 = Some (j, log0)" "length pre + length ss + 2 < 2 ^ 64"
    and "queue j = \<lparr>node_dir = d, node_name = f\<rparr> # later" "delays e f (j\<lparr>queue := later\<rparr>)"
    and "step (Judge e) j = Some (j1, raised)" "run ss j1 = Some (j2, log)" "untaken f ss j1"
    and "due = to_int (interval j + e_now e)"
  shows "raised = [] \<and> fileDB j1 = fileDB j
    \<and> ((\<forall>u. Tick u \<in> set ss \<longrightarrow> to_int u < due) \<longrightarrow>
         (\<exists>x\<in>set (timers j2). fst x = due \<and> user_data (snd x) = \<lparr>node_dir = d, node_name = f\<rparr>))
    \<and> (\<forall>t. due \<le> to_int t \<longrightarrow> \<lparr>node_dir = d, node_name = f\<rparr> \<in> set (queue (tick_step t j2)))"
proof -
  have "task_inv 0 j0" using assms(2-4) by (simp add: task_inv_def)
  from run_inv [OF this _ assms(5)] assms(6) obtain g where g: "g \<le> length pre" "task_inv g j" by auto
  let ?j = "j\<lparr>queue := later\<rparr>"
  have a: "do_analysis e d f ?j = Some (j1, raised)" using assms(7,9) by (simp add: loop_step_def)
  obtain s ts where fnd: "FileDB_find (e_eng e) (fileDB ?j) f = Some (Some (s, ts))"
      "interval ?j \<noteq> 0" "e_now e < ts + interval ?j" "\<not> filtered e f ?j"
    using assms(8) by (auto simp: delays_def split: option.splits)
  then have "do_analysis e d f ?j = Some (delay_task (e_now e) d f ?j, [])"
    by (auto simp: do_analysis_def filtered_def)
  then have j1: "j1 = delay_task (e_now e) d f ?j" "raised = []" using a by simp_all
  have i: "task_inv g ?j" using g(2) by (simp add: task_inv_def)
  have i1: "task_inv (g + 1) j1" unfolding j1 using delay_task_inv(1) [OF i] g(1) assms(6) by simp
  define x where "x = (due, \<lparr>expiration = due, task_id = global_id j, user_data = \<lparr>node_dir = d, node_name = f\<rparr>\<rparr>)"
  have x: "x \<in> set (timers j1)" "user_data (snd x) = \<lparr>node_dir = d, node_name = f\<rparr>" "fst x = due"
    by (simp_all add: j1 delay_task_timers x_def assms(12))
  have "g + 1 + length ss + 1 < 2 ^ 64" using g(1) assms(6) by simp
  from run_kept [OF i1 this assms(10), of x] assms(11) x obtain h where
    r: "task_inv h j2" "kept x j2" "(\<forall>t. Tick t \<in> set ss \<longrightarrow> to_int t < due) \<longrightarrow> x \<in> set (timers j2)"
    by (auto simp: kept_def)
  have ok: "timers_ok (timers j2)" using r(1) by (simp add: task_inv_def)
  have "\<lparr>node_dir = d, node_name = f\<rparr> \<in> set (queue (tick_step t j2))" if t: "due \<le> to_int t" for t
  proof -
    obtain dues rest where tr: "timer_round t (timers j2) = (dues, rest)" by (cases "timer_round t (timers j2)")
    show ?thesis
      using r(2) tick_entry [OF ok, of x t] t x(2,3) tick_step_fields(1) [OF tr] by (auto simp: kept_def)
  qed
  moreover have "fileDB j1 = fileDB j" by (simp add: j1 delay_task_fields)
  ultimately show ?thesis using j1(2) r(3) x(2,3) by blast
qed

definition put_off_run :: "table event list" where
  "put_off_run = [Notify ''/etc'' ''/etc/passwd'', Judge (sample_env 100), Notify ''/etc'' ''/etc/passwd'']"

definition waiting_run :: "table event list" where
  "waiting_run = [Tick 131, Notify ''/etc'' ''/etc/shadow'', Judge (sample_env 140), Tick 150]"

theorem delayed_check_queued_witness:
  "\<exists>j1 j2 log. map_option fst (run (put_off_run @ [Judge (sample_env 130)]) (fresh_judge 60 [])) = Some j1
     \<and> run waiting_run j1 = Some (j2, log) \<and> queue j2 = []
     \<and> \<lparr>node_dir = ''/etc'', node_name = ''/etc/passwd''\<rparr> \<in> set (queue (tick_step 190 j2))"
proof -
  let ?n = "\<lparr>node_dir = ''/etc'', node_name = ''/etc/passwd''\<rparr>"
  let ?test = "case run put_off_run (fresh_judge 60 ([] :: table)) of None \<Rightarrow> False
    | Some (j, log0) \<Rightarrow> (case queue j of [] \<Rightarrow> False | n # later \<Rightarrow> n = ?n \<and> interval j = 60 \<and> delays (sample_env 130) ''/etc/passwd'' (j\<lparr>queue := later\<rparr>)
        \<and> (case step (Judge (sample_env 130)) j of None \<Rightarrow> False
            | Some (j1, raised) \<Rightarrow> untaken ''/etc/passwd'' waiting_run j1 \<and>
               (case run waiting_run j1 of None \<Rightarrow> False | Some (j2, log) \<Rightarrow> queue j2 = [])))"
  have t: ?test by code_simp
  obtain j log0 where r0: "run put_off_run (fresh_judge 60 ([] :: table)) = Some (j, log0)"
    using t by (cases "run put_off_run (fresh_judge 60 ([] :: table))") auto
  obtain later where q: "queue j = ?n # later" using t r0 by (auto split: list.splits)
  obtain j1 raised where s1: "step (Judge (sample_env 130)) j = Some (j1, raised)"
    using t r0 q by (cases "step (Judge (sample_env 130)) j") auto
  obtain j2 log where r2: "run waiting_run j1 = Some (j2, log)" "queue j2 = []"
    using t r0 q s1 by (cases "run waiting_run j1") auto
  have d: "delays (sample_env 130) ''/etc/passwd'' (j\<lparr>queue := later\<rparr>)" "untaken ''/etc/passwd'' waiting_run j1" "interval j = 60"
    using t r0 q s1 by auto
  have "?n \<in> set (queue (tick_step 190 j2))"
    using delayed_check_queued [OF _ _ _ _ r0 _ q d(1) s1 r2(1) d(2) refl] d(3)
    by (simp add: fresh_judge_def put_off_run_def waiting_run_def sample_env_def to_int_def)
  moreover have "map_option fst (run (put_off_run @ [Judge (sample_env 130)]) (fresh_judge 60 [])) = Some j1"
    using run_append [OF r0, of "[Judge (sample_env 130)]"] s1 by simp
  ultimately show ?thesis using r2 by blast
qed

text \<open>
  C32. A name the database cannot take is reported again and again: when SQLite
  rejects the insertion of a name, as it does for one with a quotation mark, and
  knows no row for it, then every check of the file raises \<open>CREATED\<close>, at any
  times, whatever the interval, and the database never learns of it.
\<close>

theorem rejected_name_repeats:
  assumes "queue j = []" "\<forall>t s. \<exists>rc. rc \<noteq> 0 \<and> sql_exec eng (take 1023 (insert_text f s t)) (fileDB j) = (rc, fileDB j)"
    and "length (select_text f) < 512" "sql_query eng (select_text f) (fileDB j) = None"
    and "\<forall>e\<in>set es. e_eng e = eng \<and> \<not> filtered e f j"
  shows "run (concat (map (\<lambda>e. [Notify d f, Judge e]) es)) j = Some (j, map (\<lambda>e. (e_now e, CREATED, f)) es)"
  using assms(5)
proof (induction es)
  case (Cons e es)
  let ?j = "analysis d f j"
  have e: "e_eng e = eng" "\<not> filtered e f j" using Cons.prems by simp_all
  have q: "j\<lparr>queue := []\<rparr> = j" using assms(1) by (cases j) simp
  let ?c = "snd (get_checksum (e_sys e) (e_stack e) f [])"
  obtain rc where rc: "FileDB_insert eng (e_dbnow e) f ?c (fileDB j) = (rc, fileDB j)"
    using assms(2) [rule_format, of ?c "e_dbnow e"] by (auto simp: FileDB_insert_def execute_def)
  have "FileDB_find eng (fileDB j) f = Some None" using assms(3,4) by (simp add: FileDB_find_def)
  then have "do_analysis e d f j = Some (j, [(CREATED, d, f)])"
    using e rc by (auto simp: do_analysis_def filtered_def Let_def)
  moreover have "loop_step e ?j = do_analysis e d f (j\<lparr>queue := []\<rparr>)"
    using assms(1) by (simp add: loop_step_def analysis_def add_queue_def)
  ultimately have "loop_step e ?j = Some (j, [(CREATED, d, f)])" unfolding q by simp
  then show ?case using Cons by simp
qed simp

definition quoted_name :: string where
  "quoted_name = ''/etc/it'' @ [quote] @ ''s''"

theorem rejected_name_repeats_witness:
  "run [Notify ''/etc'' quoted_name, Judge (sample_env 100), Notify ''/etc'' quoted_name, Judge (sample_env 101)]
     (fresh_judge 60 ([] :: table)) = Some (fresh_judge 60 [], [(100, CREATED, quoted_name), (101, CREATED, quoted_name)])"
proof -
  have i: "sql_exec ref_engine (take 1023 (insert_text quoted_name s t)) db = (1, db)" for s t db
    by (simp add: ref_engine_def ref_exec_def ref_insert_def ref_update_def ref_delete_def insert_text_def quoted_name_def
        expect_def upto_char_def create_text_def)
  have l: "length (select_text quoted_name) < 512" by code_simp
  have s: "sql_query ref_engine (select_text quoted_name) [] = None" by code_simp
  have "run (concat (map (\<lambda>e. [Notify ''/etc'' quoted_name, Judge e]) [sample_env 100, sample_env 101])) (fresh_judge 60 ([] :: table))
      = Some (fresh_judge 60 [], map (\<lambda>e. (e_now e, CREATED, quoted_name)) [sample_env 100, sample_env 101])"
    by (rule rejected_name_repeats [of _ ref_engine])
      (use i l s in \<open>auto simp: fresh_judge_def sample_env_def filtered_def match_def\<close>)
  then show ?thesis by (simp add: sample_env_def)
qed

text \<open>
  Filters are found by prefix: when only one configured directory is
  comparable with the file's path, a filter set matches the file iff a regular
  expression of that directory does.
\<close>

theorem match_one_directory:
  assumes "\<forall>x\<in>set regs. \<forall>y\<in>set regs. is_prefix f (fst x) \<and> is_prefix f (fst y) \<longrightarrow> x = y"
  shows "match rx regs f \<longleftrightarrow> (\<exists>(key, vs)\<in>set regs. (prefix key f \<or> prefix f key) \<and> (\<exists>r\<in>set vs. match_regex rx f r))"
  using match_unique [OF assms, of rx] by (auto simp: is_prefix_iff)

theorem match_one_directory_witness:
  "match (\<lambda>r. Some (\<lambda>s. s = r)) [(''/etc'', [''/etc/x'']), (''/home'', [''b''])] ''/etc/x''"
  by (subst match_one_directory) (auto simp: match_regex_def)

text \<open>
  When two configured directories are comparable with a path (here a
  directory and one below it), only the one the hash table yields first is
  consulted: the same two filter sets match or not depending on their order.
\<close>

theorem match_order_matters:
  assumes "rx = (\<lambda>r. Some (\<lambda>s. r = ''log''))"
  shows "match rx [(''/var'', [''log'']), (''/var/www'', [''tmp''])] ''/var/www/a.log''
    \<and> \<not> match rx [(''/var/www'', [''tmp'']), (''/var'', [''log''])] ''/var/www/a.log''"
  by (simp add: assms match_def match_regex_def)

theorem match_order_matters_witness:
  "match (\<lambda>r. Some (\<lambda>s. r = ''log'')) [(''/var'', [''log'']), (''/var/www'', [''tmp''])] ''/var/www/a.log''"
  using match_order_matters [OF refl] by simp

end
