(* ===== verification/Watcher.thy ===== *)
theory Watcher
  imports Analysis
begin

text \<open>
  The watcher (\<open>src/file_watcher.h\<close>, \<open>src/file_watcher.cpp\<close>): the traversal of
  a directory tree with an explicit stack (\<open>EntryIterator\<close>), the registration
  of directories with inotify, the first check of the files, the decoding of
  the events the kernel delivers, and the polling loop.  Parameters are the
  file system (\<open>lstat\<close>, \<open>opendir\<close>/\<open>readdir\<close>), \<open>inotify_add_watch\<close> as a function
  from names to descriptors, the environments of the checks, and what \<open>read\<close>
  and \<open>poll\<close> deliver.
\<close>

section \<open>The file system\<close>

record fsys = os +
  opendir :: "string \<Rightarrow> string list option"   \<comment> \<open>the names \<open>readdir\<close> yields, in order\<close>

text \<open>A failing \<open>lstat\<close> returns -1 from a \<open>bool\<close> function, which is \<open>true\<close>.\<close>

definition is_dir :: "'z os_scheme \<Rightarrow> string \<Rightarrow> bool" where
  "is_dir os file_name =
     (case lstat os file_name of Inl e \<Rightarrow> True | Inr statbuf \<Rightarrow> S_ISDIR (st_mode statbuf))"

definition PATH_MAX :: nat where
  "PATH_MAX = 4096"

text \<open>
  The path of an entry in \<open>f_name[PATH_MAX + 2]\<close>; \<open>None\<close> where the length
  argument of the second \<open>strncpy\<close> wraps around.
\<close>

definition entry_path :: "string \<Rightarrow> string \<Rightarrow> string option" where
  "entry_path dir_name d_name =
     (if length dir_name > PATH_MAX - 2 then None
      else Some ((if last dir_name \<noteq> CHR ''/'' then dir_name @ ''/'' else dir_name)
                 @ take (PATH_MAX - length dir_name - 2) d_name))"

section \<open>EntryIterator\<close>

record entry =
  entry_type :: int
  entry_name :: string

text \<open>
  The deque is used as a stack: the list holds its back first.  \<open>next\<close> either
  returns or drops the top, so it ends.  The outer \<open>None\<close> is the wrapped length
  of \<open>entry_path\<close>.
\<close>

definition dir_entries :: "string list \<Rightarrow> string list" where
  "dir_entries names = filter (\<lambda>n. n \<noteq> ''.'' \<and> n \<noteq> ''..'') names"

fun entry_next :: "'z fsys_scheme \<Rightarrow> (string \<Rightarrow> bool) \<Rightarrow> bool \<Rightarrow> string list \<Rightarrow> (entry \<times> string list) option" where
  "entry_next fs interesting recursive [] = Some (\<lparr>entry_type = 1, entry_name = []\<rparr>, [])"
| "entry_next fs interesting recursive (dir_name # stk) =
     (if is_dir fs dir_name then
        (if \<not> interesting dir_name then entry_next fs interesting recursive stk
         else (case opendir fs dir_name of
             None \<Rightarrow> entry_next fs interesting recursive stk
           | Some names \<Rightarrow>
               (case those (map (entry_path dir_name) (dir_entries names)) of
                  None \<Rightarrow> None
                | Some ps \<Rightarrow> Some (\<lparr>entry_type = 1, entry_name = dir_name\<rparr>,
                      rev (filter (\<lambda>f_name. \<not> is_dir fs f_name \<or> recursive) ps) @ stk))))
      else Some (\<lparr>entry_type = 0, entry_name = dir_name\<rparr>, stk))"

section \<open>The watcher\<close>

record ('db, 'a) watcher =
  fd :: int
  wd_hash :: "int \<rightharpoonup> string"
  the_judge :: "('db, 'a) judge"
  skip :: bool
  excluded :: "string list"

definition new_watcher :: "int \<Rightarrow> bool \<Rightarrow> ('db, 'a) judge \<Rightarrow> ('db, 'a) watcher" where
  "new_watcher inotify_fd sk j = \<lparr>fd = inotify_fd, wd_hash = Map.empty, the_judge = j, skip = sk, excluded = []\<rparr>"

definition exclude_dir :: "string list \<Rightarrow> ('db, 'a) watcher \<Rightarrow> ('db, 'a) watcher" where
  "exclude_dir flt w = w\<lparr>excluded := excluded w @ filter (\<lambda>x. length x \<noteq> 0) flt\<rparr>"

definition need_mon :: "('db, 'a) watcher \<Rightarrow> string \<Rightarrow> bool" where
  "need_mon w d \<longleftrightarrow> d \<notin> set (excluded w)"

text \<open>\<open>add_dir\<close> with one argument: the new state and the returned code.\<close>

definition add_watch :: "(string \<Rightarrow> int) \<Rightarrow> string \<Rightarrow> ('db, 'a) watcher \<Rightarrow> ('db, 'a) watcher \<times> int" where
  "add_watch inotify d w =
     (if fd w < 0 then (w, -1)
      else let wd = inotify d
           in if wd < 0 then (w, -1)
              else (if wd_hash w wd = None then w\<lparr>wd_hash := (wd_hash w)(wd \<mapsto> d)\<rparr> else w, 0))"

text \<open>What the traversal does, in order: a watch that was added, a check, a pause.\<close>

datatype action = Watched string | Checked string "alert_raised list" | Slept int

text \<open>
  The loop of \<open>add_dir\<close> with four arguments.  \<open>envs n\<close> is the environment of
  the n-th check.  \<open>None\<close>: out of fuel, or undefined behaviour on the way.
\<close>

fun add_dir_loop :: "nat \<Rightarrow> 'z fsys_scheme \<Rightarrow> (string \<Rightarrow> int) \<Rightarrow> (nat \<Rightarrow> 'db env) \<Rightarrow> bool \<Rightarrow> nat \<Rightarrow> int \<Rightarrow>
    nat \<Rightarrow> string list \<Rightarrow> ('db, 'a) watcher \<Rightarrow> (('db, 'a) watcher \<times> action list) option" where
  "add_dir_loop 0 fs inotify envs recursive sleep_count sleep_interval cnt stk w = None"
| "add_dir_loop (Suc fuel) fs inotify envs recursive sleep_count sleep_interval cnt stk w =
     (case entry_next fs (need_mon w) recursive stk of
        None \<Rightarrow> None
      | Some (ent, stk') \<Rightarrow>
          if length (entry_name ent) = 0 then Some (w, [])
          else if entry_type ent = 1 then
            (case add_watch inotify (entry_name ent) w of
               (w1, rc) \<Rightarrow>
                 map_option (map_prod id ((@) (if rc = 0 then [Watched (entry_name ent)] else [])))
                   (add_dir_loop fuel fs inotify envs recursive sleep_count sleep_interval cnt stk' w1))
          else if skip w then
            add_dir_loop fuel fs inotify envs recursive sleep_count sleep_interval cnt stk' w
          else
            (case do_analysis (envs cnt) (get_basedir (entry_name ent)) (entry_name ent) (the_judge w) of
               None \<Rightarrow> None
             | Some (j', raised) \<Rightarrow>
                 map_option (map_prod id ((@)
                     ((if sleep_count \<noteq> 0 \<and> sleep_interval \<noteq> 0 \<and> (cnt + 1) mod sleep_count = 0
                       then [Slept sleep_interval] else []) @ [Checked (entry_name ent) raised])))
                   (add_dir_loop fuel fs inotify envs recursive sleep_count sleep_interval (cnt + 1) stk'
                      (w\<lparr>the_judge := j'\<rparr>))))"

definition add_dir :: "nat \<Rightarrow> 'z fsys_scheme \<Rightarrow> (string \<Rightarrow> int) \<Rightarrow> (nat \<Rightarrow> 'db env) \<Rightarrow> string \<Rightarrow> bool \<Rightarrow> nat \<Rightarrow> int \<Rightarrow>
    ('db, 'a) watcher \<Rightarrow> (('db, 'a) watcher \<times> action list) option" where
  "add_dir fuel fs inotify envs d recursive sleep_count sleep_interval w =
     add_dir_loop fuel fs inotify envs recursive sleep_count sleep_interval 0 [d] w"

section \<open>Events\<close>

definition le32 :: "byte list \<Rightarrow> nat \<Rightarrow> nat" where
  "le32 bs i = unat (bs ! i) + 256 * unat (bs ! (i + 1)) + 65536 * unat (bs ! (i + 2)) + 16777216 * unat (bs ! (i + 3))"

definition REALTIME_EVENT_SIZE :: nat where
  "REALTIME_EVENT_SIZE = 16"

text \<open>The C string at a position: up to the first NUL.\<close>

definition c_string :: "byte list \<Rightarrow> string" where
  "c_string bs = map (\<lambda>b. char_of (unat b)) (takeWhile (\<lambda>b. b \<noteq> 0) bs)"

text \<open>
  The loop of \<open>watch\<close> over the buffer \<open>read\<close> filled: \<open>buf\<close> holds the \<open>len\<close>
  bytes read.  An event for a descriptor that is not in the hash table
  dereferences \<open>end()\<close>: \<open>None\<close>.
\<close>

function watch_loop :: "byte list \<Rightarrow> nat \<Rightarrow> ('db, 'a) watcher \<Rightarrow> ('db, 'a) watcher option" where
  "watch_loop buff i w =
     (if \<not> i < length buff then Some w
      else let elen = le32 buff (i + 12);
               i' = i + REALTIME_EVENT_SIZE + elen
           in if elen = 0 then watch_loop buff i' w
              else (case wd_hash w (sint (word_of_nat (le32 buff i) :: word32)) of
                  None \<Rightarrow> None
                | Some base_dir \<Rightarrow>
                    watch_loop buff i' (w\<lparr>the_judge := analysis base_dir
                      (base_dir @ ''/'' @ c_string (drop (i + 16) buff)) (the_judge w)\<rparr>)))"
  by pat_completeness auto
termination
  by (relation "measure (\<lambda>(b, i, w). length b - i)") (auto simp: REALTIME_EVENT_SIZE_def)

declare watch_loop.simps [simp del]

text \<open>\<open>watch\<close>: \<open>None\<close> stands for a failing \<open>read\<close>.\<close>

definition watch :: "byte list option \<Rightarrow> ('db, 'a) watcher \<Rightarrow> ('db, 'a) watcher option" where
  "watch rd w = (case rd of None \<Rightarrow> Some w | Some buff \<Rightarrow> watch_loop buff 0 w)"

text \<open>
  One round of \<open>loop\<close>: \<open>rt\<close> and the two \<open>revents\<close> are what \<open>poll\<close> delivered,
  \<open>rd\<close> what the \<open>read\<close> in \<open>watch\<close> delivers.  The flag says whether the loop
  breaks.
\<close>

definition POLLIN :: word32 where "POLLIN = 1"
definition POLLERR :: word32 where "POLLERR = 8"

definition poll_round :: "int \<Rightarrow> word32 \<Rightarrow> word32 \<Rightarrow> byte list option \<Rightarrow> ('db, 'a) watcher \<Rightarrow>
    (('db, 'a) watcher \<times> bool) option" where
  "poll_round rt revents0 revents1 rd w =
     (if rt = -1 then Some (w, False)
      else case (if revents0 AND POLLIN \<noteq> 0 then watch rd w else Some w) of
          None \<Rightarrow> None
        | Some w' \<Rightarrow> Some (w', revents1 AND (POLLIN OR POLLERR) \<noteq> 0 \<or> revents0 AND POLLERR \<noteq> 0))"

section \<open>What a traversal delivers\<close>

text \<open>The paths the traversal puts on the stack for a directory it delivers.\<close>

definition children :: "'z fsys_scheme \<Rightarrow> (string \<Rightarrow> bool) \<Rightarrow> bool \<Rightarrow> string \<Rightarrow> string list" where
  "children fs interesting recursive d =
     (if is_dir fs d \<and> interesting d then
        (case opendir fs d of None \<Rightarrow> []
         | Some names \<Rightarrow> filter (\<lambda>p. \<not> is_dir fs p \<or> recursive) (map (the \<circ> entry_path d) (dir_entries names)))
      else [])"

inductive reach :: "'z fsys_scheme \<Rightarrow> (string \<Rightarrow> bool) \<Rightarrow> bool \<Rightarrow> string \<Rightarrow> string \<Rightarrow> bool"
  for fs interesting recursive where
  here: "reach fs interesting recursive p p"
| below: "c \<in> set (children fs interesting recursive d) \<Longrightarrow> reach fs interesting recursive c q \<Longrightarrow>
    reach fs interesting recursive d q"

inductive_simps reach_iff: "reach fs interesting recursive d q"

text \<open>Directories that are skipped: filtered out or unreadable.\<close>

definition skipped :: "'z fsys_scheme \<Rightarrow> (string \<Rightarrow> bool) \<Rightarrow> string \<Rightarrow> bool" where
  "skipped fs interesting p \<longleftrightarrow> is_dir fs p \<and> (\<not> interesting p \<or> opendir fs p = None)"

definition delivered :: "'z fsys_scheme \<Rightarrow> (string \<Rightarrow> bool) \<Rightarrow> bool \<Rightarrow> string \<Rightarrow> string set" where
  "delivered fs interesting recursive d =
     {q. reach fs interesting recursive d q \<and> \<not> skipped fs interesting q}"

lemma delivered_unfold:
  "delivered fs i r d = (if skipped fs i d then {} else {d}) \<union> (\<Union>c\<in>set (children fs i r d). delivered fs i r c)"
proof -
  have "reach fs i r d q \<longleftrightarrow> q = d \<or> (\<exists>c\<in>set (children fs i r d). reach fs i r c q)" for q
    by (subst reach_iff) auto
  then show ?thesis unfolding delivered_def by (auto split: if_splits)
qed

lemma children_skipped: "skipped fs i d \<Longrightarrow> children fs i r d = []"
  by (auto simp: skipped_def children_def)

lemma delivered_skipped: "skipped fs i d \<Longrightarrow> delivered fs i r d = {}"
  by (subst delivered_unfold) (simp add: children_skipped)

text \<open>No readable directory has a path near the limit.\<close>

definition paths_fit :: "'z fsys_scheme \<Rightarrow> bool" where
  "paths_fit fs \<longleftrightarrow> (\<forall>d. opendir fs d \<noteq> None \<longrightarrow> length d \<le> PATH_MAX - 2)"

text \<open>A weight that bounds the traversal: the tree below a path is finite.\<close>

definition weighs :: "'z fsys_scheme \<Rightarrow> (string \<Rightarrow> bool) \<Rightarrow> bool \<Rightarrow> (string \<Rightarrow> nat) \<Rightarrow> bool" where
  "weighs fs i r weight \<longleftrightarrow> (\<forall>d. 1 + sum_list (map weight (children fs i r d)) \<le> weight d)"

lemma those_map_Some: "(\<forall>x\<in>set xs. f x \<noteq> None) \<Longrightarrow> those (map f xs) = Some (map (the \<circ> f) xs)"
  by (induction xs) auto

lemma entry_paths:
  assumes "paths_fit fs" "opendir fs d = Some names"
  shows "those (map (entry_path d) (dir_entries names)) = Some (map (the \<circ> entry_path d) (dir_entries names))"
  using assms by (intro those_map_Some) (auto simp: paths_fit_def entry_path_def)

lemma entry_next_cases:
  assumes fit: "paths_fit fs" and ne: "\<forall>p\<in>set stk. p \<noteq> []"
  shows "(\<forall>p\<in>set stk. skipped fs i p) \<and> entry_next fs i r stk = Some (\<lparr>entry_type = 1, entry_name = []\<rparr>, [])
    \<or> (\<exists>pre p post. stk = pre @ p # post \<and> (\<forall>q\<in>set pre. skipped fs i q) \<and> \<not> skipped fs i p
        \<and> entry_next fs i r stk = Some (\<lparr>entry_type = (if is_dir fs p then 1 else 0), entry_name = p\<rparr>,
             rev (children fs i r p) @ post))"
  using ne
proof (induction stk)
  case (Cons p stk)
  show ?case
  proof (cases "skipped fs i p")
    case True
    then have e: "entry_next fs i r (p # stk) = entry_next fs i r stk"
      by (auto simp: skipped_def)
    have "\<forall>q\<in>set stk. q \<noteq> []" using Cons.prems by simp
    from Cons.IH [OF this] show ?thesis
    proof (elim disjE exE conjE)
      assume "\<forall>q\<in>set stk. skipped fs i q" "entry_next fs i r stk = Some (\<lparr>entry_type = 1, entry_name = []\<rparr>, [])"
      then show ?thesis unfolding e using True by simp
    next
      fix pre q post
      assume a: "stk = pre @ q # post" "\<forall>q\<in>set pre. skipped fs i q" "\<not> skipped fs i q"
        "entry_next fs i r stk = Some (\<lparr>entry_type = (if is_dir fs q then 1 else 0), entry_name = q\<rparr>,
             rev (children fs i r q) @ post)"
      have "p # stk = (p # pre) @ q # post" "\<forall>q\<in>set (p # pre). skipped fs i q" using a True by simp_all
      then show ?thesis unfolding e using a(3,4) by blast
    qed
  next
    case False
    have "entry_next fs i r (p # stk) = Some (\<lparr>entry_type = (if is_dir fs p then 1 else 0), entry_name = p\<rparr>,
             rev (children fs i r p) @ stk)"
    proof (cases "is_dir fs p")
      case True
      then obtain names where n: "opendir fs p = Some names" "i p" using False by (auto simp: skipped_def)
      then show ?thesis using True entry_paths [OF fit n(1)] by (simp add: children_def)
    next
      case nd: False
      then show ?thesis by (simp add: children_def)
    qed
    moreover have "p # stk = [] @ p # stk" "\<forall>q\<in>set ([] :: string list). skipped fs i q" by simp_all
    ultimately show ?thesis using False by blast
  qed
qed simp

lemma children_nonempty:
  assumes "paths_fit fs" "d \<noteq> []" "c \<in> set (children fs i r d)"
  shows "c \<noteq> []"
proof -
  have g: "is_dir fs d \<and> i d"
    using assms(3) unfolding children_def by (cases "is_dir fs d \<and> i d") simp_all
  obtain names where o: "opendir fs d = Some names"
    using assms(3) g unfolding children_def by (cases "opendir fs d") simp_all
  obtain n where n: "c = the (entry_path d n)"
    using assms(3) unfolding children_def if_P [OF g] o option.case by auto
  have "\<not> length d > PATH_MAX - 2" using assms(1) o by (auto simp: paths_fit_def not_less)
  then show ?thesis
    unfolding n entry_path_def using assms(2) by (simp only: if_False option.sel) (simp split: if_split)
qed

section \<open>The traversal\<close>

definition watched :: "action list \<Rightarrow> string set" where
  "watched acts = {d. Watched d \<in> set acts}"

definition checked :: "action list \<Rightarrow> string set" where
  "checked acts = {f. \<exists>raised. Checked f raised \<in> set acts}"

lemma acts_Cons [simp]:
  "watched [] = {}" "checked [] = {}"
  "watched (Watched d # acts) = insert d (watched acts)" "checked (Watched d # acts) = checked acts"
  "watched (Slept n # acts) = watched acts" "checked (Slept n # acts) = checked acts"
  "watched (Checked f rs # acts) = watched acts" "checked (Checked f rs # acts) = insert f (checked acts)"
  by (auto simp: watched_def checked_def)

text \<open>
  The hash table after watches were added: old entries stay, and a descriptor
  delivered for one of the directories stands for such a directory.
\<close>

definition registers :: "(string \<Rightarrow> int) \<Rightarrow> string set \<Rightarrow> (int \<rightharpoonup> string) \<Rightarrow> (int \<rightharpoonup> string) \<Rightarrow> bool" where
  "registers ino dirs h h' \<longleftrightarrow>
     (\<forall>n. case h n of
           Some d \<Rightarrow> h' n = Some d
         | None \<Rightarrow> if \<exists>q\<in>dirs. ino q = n then \<exists>q\<in>dirs. ino q = n \<and> h' n = Some q else h' n = None)"

lemma registers_none: "registers ino {} h h"
  by (simp add: registers_def split: option.split)

lemma registers_insert:
  assumes "registers ino dirs (if h (ino p) = None then h(ino p \<mapsto> p) else h) h'"
  shows "registers ino (insert p dirs) h h'"
  unfolding registers_def
proof
  fix n
  let ?h = "if h (ino p) = None then h(ino p \<mapsto> p) else h"
  have r: "case ?h n of Some d \<Rightarrow> h' n = Some d
      | None \<Rightarrow> if \<exists>q\<in>dirs. ino q = n then \<exists>q\<in>dirs. ino q = n \<and> h' n = Some q else h' n = None"
    using assms unfolding registers_def by blast
  show "case h n of Some d \<Rightarrow> h' n = Some d
      | None \<Rightarrow> if \<exists>q\<in>insert p dirs. ino q = n then \<exists>q\<in>insert p dirs. ino q = n \<and> h' n = Some q else h' n = None"
    using r by (cases "h n"; cases "ino p = n") (auto split: if_splits)
qed

text \<open>The checks of a traversal run again, one after the other, from the n-th environment.\<close>

fun replay :: "(nat \<Rightarrow> 'db env) \<Rightarrow> nat \<Rightarrow> action list \<Rightarrow> ('db, 'a) judge \<Rightarrow> ('db, 'a) judge option" where
  "replay envs n [] j = Some j"
| "replay envs n (Checked f raised # acts) j =
     (case do_analysis (envs n) (get_basedir f) f j of
        None \<Rightarrow> None
      | Some (j', r) \<Rightarrow> if r = raised then replay envs (n + 1) acts j' else None)"
| "replay envs n (a # acts) j = replay envs n acts j"

text \<open>The directories a watcher can have watched.\<close>

definition watchable :: "(string \<Rightarrow> int) \<Rightarrow> ('db, 'a) watcher \<Rightarrow> string \<Rightarrow> bool" where
  "watchable ino w q \<longleftrightarrow> 0 \<le> fd w \<and> 0 \<le> ino q"

lemma add_watch_hash:
  "add_watch ino p w = (w1, rc) \<Longrightarrow> (rc = 0 \<longleftrightarrow> watchable ino w p)
    \<and> wd_hash w1 = (if watchable ino w p \<and> wd_hash w (ino p) = None then (wd_hash w)(ino p \<mapsto> p) else wd_hash w)
    \<and> watchable ino w1 = watchable ino w"
  by (auto simp: add_watch_def watchable_def fun_eq_iff Let_def split: if_splits)

lemma add_watch_fields:
  "the_judge (fst (add_watch ino d w)) = the_judge w" "skip (fst (add_watch ino d w)) = skip w"
  "excluded (fst (add_watch ino d w)) = excluded w" "fd (fst (add_watch ino d w)) = fd w"
  by (simp_all add: add_watch_def Let_def)

lemma do_analysis_total: "length f < 461 \<Longrightarrow> do_analysis e d f j \<noteq> None"
  by (auto simp: do_analysis_def FileDB_find_def select_text_length Let_def split: prod.split option.split)

lemma need_mon_same: "excluded w' = excluded w \<Longrightarrow> need_mon w' = need_mon w"
  by (auto simp: need_mon_def)

lemma add_dir_loop_delivers:
  assumes "paths_fit fs" "weighs fs i r weight" "\<forall>p\<in>set stk. p \<noteq> []"
    and "\<forall>p\<in>set stk. \<forall>q\<in>delivered fs i r p. is_dir fs q \<or> length q < 461"
    and "sum_list (map weight stk) < fuel" "need_mon w = i"
  shows "\<exists>w' acts. add_dir_loop fuel fs ino envs r sc si cnt stk w = Some (w', acts)
    \<and> excluded w' = excluded w
    \<and> watched acts = {q \<in> (\<Union>p\<in>set stk. delivered fs i r p). is_dir fs q \<and> watchable ino w q}
    \<and> registers ino (watched acts) (wd_hash w) (wd_hash w')
    \<and> replay envs cnt acts (the_judge w) = Some (the_judge w')
    \<and> checked acts = (if skip w then {} else {q \<in> (\<Union>p\<in>set stk. delivered fs i r p). \<not> is_dir fs q})"
  using assms(3-6)
proof (induction fuel arbitrary: stk w cnt)
  case (Suc fuel)
  let ?D = "\<lambda>stk. \<Union>p\<in>set stk. delivered fs i r p"
  from entry_next_cases [OF assms(1) Suc.prems(1), of i r] show ?case
  proof (elim disjE exE conjE)
    assume "\<forall>p\<in>set stk. skipped fs i p"
      "entry_next fs i r stk = Some (\<lparr>entry_type = 1, entry_name = []\<rparr>, [])"
    moreover from this(1) have "?D stk = {}" using delivered_skipped by fastforce
    ultimately show ?thesis using Suc.prems(4) by (auto simp: registers_none)
  next
    fix pre p post
    assume stk: "stk = pre @ p # post" and pre: "\<forall>q\<in>set pre. skipped fs i q" and p: "\<not> skipped fs i p"
      and nx: "entry_next fs i r stk = Some (\<lparr>entry_type = (if is_dir fs p then 1 else 0), entry_name = p\<rparr>,
             rev (children fs i r p) @ post)"
    let ?stk = "rev (children fs i r p) @ post"
    have pne: "p \<noteq> []" using Suc.prems(1) stk by simp
    have D: "?D stk = insert p (?D ?stk)"
    proof -
      have "?D pre = {}" using pre delivered_skipped by fastforce
      then show ?thesis using delivered_unfold [of fs i r p] p unfolding stk by auto
    qed
    have ne: "\<forall>q\<in>set ?stk. q \<noteq> []" using Suc.prems(1) stk children_nonempty [OF assms(1) pne] by auto
    have len: "\<forall>q\<in>set ?stk. \<forall>x\<in>delivered fs i r q. is_dir fs x \<or> length x < 461"
      using Suc.prems(2) D by blast
    have "1 + sum_list (map weight (children fs i r p)) \<le> weight p"
      using assms(2) by (simp add: weighs_def)
    then have fl: "sum_list (map weight ?stk) < fuel"
      using Suc.prems(3) by (simp add: stk sum_list_rev flip: rev_map)
    have lp: "is_dir fs p \<or> length p < 461" using Suc.prems(2) D by blast
    show ?thesis
    proof (cases "is_dir fs p")
      case True
      obtain w1 rc where aw: "add_watch ino p w = (w1, rc)" by fastforce
      have w1: "w1 = fst (add_watch ino p w)" by (simp add: aw)
      note f = add_watch_fields [of ino p w, folded w1] and h = add_watch_hash [OF aw]
      have "need_mon w1 = i" using Suc.prems(4) need_mon_same [of w1 w] f by simp
      from Suc.IH [OF ne len fl this, of cnt] obtain w' acts where r:
        "add_dir_loop fuel fs ino envs r sc si cnt ?stk w1 = Some (w', acts)" "excluded w' = excluded w1"
        "watched acts = {q \<in> ?D ?stk. is_dir fs q \<and> watchable ino w1 q}"
        "registers ino (watched acts) (wd_hash w1) (wd_hash w')"
        "replay envs cnt acts (the_judge w1) = Some (the_judge w')"
        "checked acts = (if skip w1 then {} else {q \<in> ?D ?stk. \<not> is_dir fs q})" by blast
      let ?acts = "(if rc = 0 then [Watched p] else []) @ acts"
      have "add_dir_loop (Suc fuel) fs ino envs r sc si cnt stk w = Some (w', ?acts)"
        using nx pne True r(1) aw Suc.prems(4) by simp
      moreover have "watched ?acts = {q \<in> ?D stk. is_dir fs q \<and> watchable ino w q}"
        using r(3) h True unfolding D by auto
      moreover have "registers ino (watched ?acts) (wd_hash w) (wd_hash w')"
        using r(4) h registers_insert [of ino "watched acts" "wd_hash w" p "wd_hash w'"] by (auto split: if_splits)
      moreover have "checked ?acts = (if skip w then {} else {q \<in> ?D stk. \<not> is_dir fs q})"
        using r(6) f(2) True unfolding D by auto
      moreover have "replay envs cnt ?acts (the_judge w) = Some (the_judge w')" using r(5) f(1) by simp
      moreover have "excluded w' = excluded w" using r(2) f(3) by simp
      ultimately show ?thesis by (intro exI [of _ w'] exI [of _ ?acts] conjI)
    next
      case False
      show ?thesis
      proof (cases "skip w")
        case True
        from Suc.IH [OF ne len fl Suc.prems(4), of cnt] obtain w' acts where
          "add_dir_loop fuel fs ino envs r sc si cnt ?stk w = Some (w', acts)" "excluded w' = excluded w"
          "watched acts = {q \<in> ?D ?stk. is_dir fs q \<and> watchable ino w q}" "checked acts = {}"
          "registers ino (watched acts) (wd_hash w) (wd_hash w')" "replay envs cnt acts (the_judge w) = Some (the_judge w')"
          using True by auto
        then show ?thesis using nx pne True False D Suc.prems(4) by auto
      next
        case ns: False
        obtain j' raised where a: "do_analysis (envs cnt) (get_basedir p) p (the_judge w) = Some (j', raised)"
          using do_analysis_total [of p "envs cnt" "get_basedir p" "the_judge w"] lp False by auto
        define w1 where "w1 = w\<lparr>the_judge := j'\<rparr>"
        have "need_mon w1 = i" using Suc.prems(4) need_mon_same [of w1 w] by (simp add: w1_def)
        from Suc.IH [OF ne len fl this, of "cnt + 1"] obtain w' acts where
          "add_dir_loop fuel fs ino envs r sc si (cnt + 1) ?stk w1 = Some (w', acts)" "excluded w' = excluded w1"
          "watched acts = {q \<in> ?D ?stk. is_dir fs q \<and> watchable ino w1 q}"
          "registers ino (watched acts) (wd_hash w1) (wd_hash w')"
          "replay envs (cnt + 1) acts (the_judge w1) = Some (the_judge w')"
          "checked acts = (if skip w1 then {} else {q \<in> ?D ?stk. \<not> is_dir fs q})" by blast
        then show ?thesis
          using nx pne False ns a D Suc.prems(4) by (auto simp: w1_def watchable_def)
      qed
    qed
  qed
qed simp

section \<open>Encoded events\<close>

definition le_bytes :: "nat \<Rightarrow> byte list" where
  "le_bytes n = [word_of_nat n, word_of_nat (n div 256), word_of_nat (n div 65536), word_of_nat (n div 16777216)]"

text \<open>
  An event as the kernel writes it: watch descriptor, mask, cookie, and the
  name field, empty or NUL-terminated (and padded).
\<close>

record inotify_event =
  ev_wd :: word32
  ev_mask :: word32
  ev_cookie :: word32
  ev_field :: "byte list"

definition event_wf :: "inotify_event \<Rightarrow> bool" where
  "event_wf ev \<longleftrightarrow> length (ev_field ev) < 2 ^ 32 \<and> (ev_field ev \<noteq> [] \<longrightarrow> 0 \<in> set (ev_field ev))"

definition encode_event :: "inotify_event \<Rightarrow> byte list" where
  "encode_event ev = le_bytes (unat (ev_wd ev)) @ le_bytes (unat (ev_mask ev)) @ le_bytes (unat (ev_cookie ev))
     @ le_bytes (length (ev_field ev)) @ ev_field ev"

lemma le_value:
  "n < 2 ^ 32 \<Longrightarrow> unat (word_of_nat n :: byte) + 256 * unat (word_of_nat (n div 256) :: byte)
     + 65536 * unat (word_of_nat (n div 65536) :: byte) + 16777216 * unat (word_of_nat (n div 16777216) :: byte) = n"
proof -
  assume n: "n < 2 ^ 32"
  have u: "unat (word_of_nat k :: byte) = k mod 256" for k
    by (simp add: unsigned_of_nat take_bit_eq_mod)
  have e: "n div 65536 = n div 256 div 256" "n div 16777216 = n div 256 div 256 div 256"
    by (simp_all flip: div_mult2_eq)
  have "n div 256 div 256 div 256 < 256" using n by (simp flip: div_mult2_eq)
  then have m: "n div 256 div 256 div 256 mod 256 = n div 256 div 256 div 256" by (rule mod_less)
  have "k = k mod 256 + 256 * (k div 256)" for k :: nat by simp
  from this [of n] this [of "n div 256"] this [of "n div 256 div 256"]
  show ?thesis unfolding u e m by linarith
qed

lemma le32_bytes:
  assumes "n < 2 ^ 32" "length pre = i"
  shows "le32 (pre @ le_bytes n @ post) i = n"
  using le_value [OF assms(1)] assms(2) by (simp add: le32_def le_bytes_def nth_append)

lemma length_le_bytes [simp]: "length (le_bytes n) = 4"
  by (simp add: le_bytes_def)

lemma length_encode: "length (encode_event ev) = 16 + length (ev_field ev)"
  by (simp add: encode_event_def)

lemma c_string_append: "0 \<in> set bs \<Longrightarrow> c_string (bs @ r) = c_string bs"
  by (simp add: c_string_def takeWhile_append1)

text \<open>What one event does to the judge.\<close>

definition notify_event :: "(int \<Rightarrow> string) \<Rightarrow> inotify_event \<Rightarrow> ('db, 'a) judge \<Rightarrow> ('db, 'a) judge" where
  "notify_event base ev j =
     (if ev_field ev = [] then j
      else analysis (base (sint (ev_wd ev)))
             (base (sint (ev_wd ev)) @ ''/'' @ c_string (ev_field ev)) j)"

lemma watch_loop_event:
  assumes ev: "event_wf ev" and known: "ev_field ev \<noteq> [] \<longrightarrow> wd_hash w (sint (ev_wd ev)) = Some (base (sint (ev_wd ev)))"
    and i: "i = length pre"
  shows "watch_loop (pre @ encode_event ev @ post) i w =
    watch_loop (pre @ encode_event ev @ post) (i + length (encode_event ev))
      (w\<lparr>the_judge := notify_event base ev (the_judge w)\<rparr>)"
proof -
  let ?b = "pre @ encode_event ev @ post"
  have b1: "?b = pre @ le_bytes (unat (ev_wd ev)) @ (le_bytes (unat (ev_mask ev)) @ le_bytes (unat (ev_cookie ev))
     @ le_bytes (length (ev_field ev)) @ ev_field ev @ post)" by (simp add: encode_event_def)
  have b2: "?b = (pre @ le_bytes (unat (ev_wd ev)) @ le_bytes (unat (ev_mask ev)) @ le_bytes (unat (ev_cookie ev)))
     @ le_bytes (length (ev_field ev)) @ (ev_field ev @ post)" by (simp add: encode_event_def)
  have wd: "le32 ?b i = unat (ev_wd ev)"
    unfolding b1 using unsigned_less [of "ev_wd ev"] i by (intro le32_bytes) simp_all
  have len: "le32 ?b (i + 12) = length (ev_field ev)"
    unfolding b2 using ev i by (intro le32_bytes) (simp_all add: event_wf_def)
  have nm: "drop (i + 16) ?b = ev_field ev @ post"
    using i by (simp add: encode_event_def)
  have lt: "i < length ?b" using i by (simp add: length_encode)
  have sg: "sint (word_of_nat (unat (ev_wd ev)) :: word32) = sint (ev_wd ev)" by simp
  show ?thesis
  proof (cases "ev_field ev = []")
    case True
    then show ?thesis
      by (subst watch_loop.simps)
        (use lt len in \<open>simp add: Let_def notify_event_def REALTIME_EVENT_SIZE_def length_encode\<close>)
  next
    case False
    then have "0 \<in> set (ev_field ev)" using ev by (simp add: event_wf_def)
    then have "c_string (drop (i + 16) ?b) = c_string (ev_field ev)" unfolding nm by (rule c_string_append)
    then show ?thesis
      by (subst watch_loop.simps)
        (use lt len wd sg known False in \<open>simp add: Let_def notify_event_def REALTIME_EVENT_SIZE_def length_encode add.assoc\<close>)
  qed
qed

lemma watch_loop_events:
  assumes "\<forall>ev\<in>set evs. event_wf ev" "i = length pre"
    and "\<forall>ev\<in>set evs. ev_field ev \<noteq> [] \<longrightarrow> wd_hash w (sint (ev_wd ev)) = Some (base (sint (ev_wd ev)))"
  shows "watch_loop (pre @ concat (map encode_event evs)) i w
    = Some (w\<lparr>the_judge := fold (notify_event base) evs (the_judge w)\<rparr>)"
  using assms
proof (induction evs arbitrary: pre i w)
  case Nil
  then show ?case by (simp add: watch_loop.simps)
next
  case (Cons ev evs)
  let ?w = "w\<lparr>the_judge := notify_event base ev (the_judge w)\<rparr>"
  have "watch_loop (pre @ encode_event ev @ concat (map encode_event evs)) i w
      = watch_loop (pre @ encode_event ev @ concat (map encode_event evs)) (i + length (encode_event ev)) ?w"
    using Cons.prems by (intro watch_loop_event) simp_all
  also have "\<dots> = Some (?w\<lparr>the_judge := fold (notify_event base) evs (the_judge ?w)\<rparr>)"
    using Cons.IH [of "i + length (encode_event ev)" "pre @ encode_event ev" ?w] Cons.prems by simp
  finally show ?case by simp
qed

section \<open>Properties\<close>

text \<open>
  C33. The first traversal is complete: on a finite tree whose paths fit the
  buffers, \<open>add_dir\<close> returns.  The directories to monitor are the readable and
  not excluded ones that can be reached from the given one through such
  directories (only the given one without the recursive flag).  Exactly those
  of them that inotify gives a descriptor are watched: the descriptor of each
  leads, in the hash table that decodes the events, to a directory with this
  descriptor, older entries stay, and nothing else is added.  Exactly the
  reachable files are checked, none with the skip flag, and the judge
  afterwards is what these checks make of it, run one after the other with the
  alerts the log says.
\<close>

theorem add_dir_complete:
  assumes "paths_fit fs" "weighs fs (need_mon w) r weight" "weight d < fuel" "d \<noteq> []"
    and "\<forall>q\<in>delivered fs (need_mon w) r d. is_dir fs q \<or> length q < 461"
    and "dirs = {q. reach fs (need_mon w) r d q \<and> is_dir fs q \<and> need_mon w q \<and> opendir fs q \<noteq> None}"
  shows "\<exists>w' acts. add_dir fuel fs ino envs d r sc si w = Some (w', acts)
    \<and> watched acts = {q \<in> dirs. 0 \<le> fd w \<and> 0 \<le> ino q}
    \<and> registers ino {q \<in> dirs. 0 \<le> fd w \<and> 0 \<le> ino q} (wd_hash w) (wd_hash w')
    \<and> checked acts = (if skip w then {} else {q. reach fs (need_mon w) r d q \<and> \<not> is_dir fs q})
    \<and> replay envs 0 acts (the_judge w) = Some (the_judge w')"
proof -
  have "\<exists>w' acts. add_dir fuel fs ino envs d r sc si w = Some (w', acts)
    \<and> excluded w' = excluded w
    \<and> watched acts = {q \<in> (\<Union>p\<in>set [d]. delivered fs (need_mon w) r p). is_dir fs q \<and> watchable ino w q}
    \<and> registers ino (watched acts) (wd_hash w) (wd_hash w')
    \<and> replay envs 0 acts (the_judge w) = Some (the_judge w')
    \<and> checked acts = (if skip w then {} else {q \<in> (\<Union>p\<in>set [d]. delivered fs (need_mon w) r p). \<not> is_dir fs q})"
    unfolding add_dir_def using assms(1-5) by (intro add_dir_loop_delivers) auto
  moreover have "{q \<in> (\<Union>p\<in>set [d]. delivered fs (need_mon w) r p). is_dir fs q \<and> watchable ino w q}
      = {q \<in> dirs. 0 \<le> fd w \<and> 0 \<le> ino q}"
    by (auto simp: assms(6) delivered_def skipped_def watchable_def)
  moreover have "{q \<in> (\<Union>p\<in>set [d]. delivered fs (need_mon w) r p). \<not> is_dir fs q}
      = {q. reach fs (need_mon w) r d q \<and> \<not> is_dir fs q}"
    by (auto simp: delivered_def skipped_def)
  ultimately show ?thesis by auto
qed

definition sample_fs :: fsys where
  "sample_fs = \<lparr>lstat = (\<lambda>f. if f = ''/d/a'' \<or> f = ''/d/s/b'' then Inr \<lparr>st_size = 0, st_mode = 0x8000, st_uid = 0, st_gid = 0\<rparr>
       else Inr \<lparr>st_size = 0, st_mode = 0x4000, st_uid = 0, st_gid = 0\<rparr>),
     open_read = (\<lambda>f. None),
     opendir = (\<lambda>f. if f = ''/d'' then Some [''.'', ''..'', ''a'', ''s''] else if f = ''/d/s'' then Some [''b''] else None)\<rparr>"

definition sample_watcher :: "(table, nat) watcher" where
  "sample_watcher = new_watcher 3 True (fresh_judge 0 [])"

theorem add_dir_complete_witness:
  "\<exists>w' acts q. add_dir 10 sample_fs (\<lambda>d. int (length d)) (\<lambda>n. sample_env 0) ''/d'' True 0 0 sample_watcher = Some (w', acts)
     \<and> ''/d'' \<in> watched acts \<and> checked acts = {} \<and> wd_hash w' 2 = Some q \<and> length q = 2"
proof -
  have i: "need_mon sample_watcher = (\<lambda>d. True)"
    by (auto simp: need_mon_def sample_watcher_def new_watcher_def)
  have fits: "paths_fit sample_fs" by (simp add: paths_fit_def sample_fs_def PATH_MAX_def)
  have m: "\<not> S_ISDIR 0x8000" "S_ISDIR 0x4000" by (simp_all add: S_ISDIR_def S_IFMT_def)
  let ?weight = "\<lambda>p. if p = ''/d'' then 6 else if p = ''/d/s'' then 3 else (1::nat)"
  have wt: "weighs sample_fs (\<lambda>d. True) True ?weight"
  proof -
    have c1: "children sample_fs (\<lambda>d. True) True ''/d'' = [''/d/a'', ''/d/s'']" by code_simp
    have c2: "children sample_fs (\<lambda>d. True) True ''/d/s'' = [''/d/s/b'']" by code_simp
    have c3: "children sample_fs (\<lambda>d. True) True p = []" if "p \<noteq> ''/d''" "p \<noteq> ''/d/s''" for p
    proof -
      have o: "opendir sample_fs p = None" using that by (simp add: sample_fs_def)
      show ?thesis unfolding children_def o by simp
    qed
    have "1 + sum_list (map ?weight (children sample_fs (\<lambda>d. True) True p)) \<le> ?weight p" for p
    proof -
      consider "p = ''/d''" | "p = ''/d/s''" | "p \<noteq> ''/d''" "p \<noteq> ''/d/s''" by blast
      then show ?thesis
      proof cases
        case 1
        show ?thesis unfolding 1 c1 by simp
      next
        case 2
        show ?thesis unfolding 2 c2 by simp
      next
        case 3
        show ?thesis unfolding c3 [OF 3] by simp
      qed
    qed
    then show ?thesis by (simp add: weighs_def)
  qed
  have files: "is_dir sample_fs q \<or> length q < 461" for q
    by (auto simp: is_dir_def sample_fs_def m)
  have "reach sample_fs (\<lambda>d. True) True ''/d'' ''/d''" by (rule reach.here)
  moreover have "is_dir sample_fs ''/d''" "opendir sample_fs ''/d'' \<noteq> None"
    by (simp_all add: is_dir_def sample_fs_def m)
  moreover have "skip sample_watcher" "0 \<le> fd sample_watcher" "wd_hash sample_watcher = Map.empty"
    by (simp_all add: sample_watcher_def new_watcher_def)
  ultimately obtain w' acts where r:
    "add_dir 10 sample_fs (\<lambda>d. int (length d)) (\<lambda>n. sample_env 0) ''/d'' True 0 0 sample_watcher = Some (w', acts)"
    "''/d'' \<in> watched acts" "checked acts = {}" "registers (\<lambda>d. int (length d)) (watched acts) Map.empty (wd_hash w')"
    using add_dir_complete [of sample_fs sample_watcher True _ "''/d''" 10 _ "\<lambda>d. int (length d)" "\<lambda>n. sample_env 0" 0 0,
        OF fits, unfolded i, OF wt _ _ _ refl] files
    by auto
  have "\<exists>q\<in>watched acts. int (length q) = 2" using r(2) by (intro bexI [of _ "''/d''"]) simp_all
  then have "\<exists>q\<in>watched acts. int (length q) = 2 \<and> wd_hash w' 2 = Some q"
    using r(4) [unfolded registers_def, rule_format, of 2] by simp
  then show ?thesis using r(1-3) by auto
qed

text \<open>
  C16. The kernel's events are decoded correctly: for any sequence of events
  laid out one after the other in the buffer, with descriptors the watcher has
  registered, \<open>watch\<close> passes exactly the events with a name to the judge's
  queue, in order, each with the directory of its descriptor and the full path.
\<close>

theorem watch_decodes_events:
  assumes "\<forall>ev\<in>set evs. event_wf ev"
    and "\<forall>ev\<in>set evs. ev_field ev \<noteq> [] \<longrightarrow> wd_hash w (sint (ev_wd ev)) = Some (base (sint (ev_wd ev)))"
  shows "watch (Some (concat (map encode_event evs))) w
    = Some (w\<lparr>the_judge := fold (notify_event base) evs (the_judge w)\<rparr>)"
  using watch_loop_events [OF assms(1) _ assms(2), of 0 "[]"] by (simp add: watch_def)

theorem watch_decodes_events_witness:
  "watch (Some (encode_event \<lparr>ev_wd = 1, ev_mask = 2, ev_cookie = 0, ev_field = [97, 0, 0, 0]\<rparr>))
     (sample_watcher\<lparr>wd_hash := [1 \<mapsto> ''/etc'']\<rparr>)
   = Some (sample_watcher\<lparr>wd_hash := [1 \<mapsto> ''/etc''], the_judge := analysis ''/etc'' ''/etc/a'' (the_judge sample_watcher)\<rparr>)"
proof -
  let ?ev = "\<lparr>ev_wd = 1, ev_mask = 2, ev_cookie = 0, ev_field = [97, 0, 0, 0]\<rparr>"
  have "watch (Some (concat (map encode_event [?ev]))) (sample_watcher\<lparr>wd_hash := [1 \<mapsto> ''/etc'']\<rparr>)
    = Some ((sample_watcher\<lparr>wd_hash := [1 \<mapsto> ''/etc'']\<rparr>)\<lparr>the_judge := fold (notify_event (\<lambda>n. ''/etc'')) [?ev]
        (the_judge (sample_watcher\<lparr>wd_hash := [1 \<mapsto> ''/etc'']\<rparr>))\<rparr>)"
    by (rule watch_decodes_events) (simp_all add: event_wf_def)
  moreover have "char_of (97 :: nat) = CHR ''a''" by code_simp
  ultimately show ?thesis by (simp add: notify_event_def c_string_def sample_watcher_def new_watcher_def)
qed

end
