(* ===== verification/Cdouble.thy ===== *)
theory Cdouble
  imports Prelude
begin

text \<open>
  The C type \<open>double\<close> as far as the program computes with it: finite values as
  sign, mantissa and binary exponent, the conversions between integers,
  \<open>float\<close> and \<open>double\<close> (round to nearest, ties to even) and the truncating
  cast back to the integer types.
\<close>

datatype cdouble = Finite (neg: bool) (mant: nat) (bexp: int) | Infinity bool | NaN

definition dzero :: cdouble where
  "dzero = Finite False 0 0"

text \<open>
  Rounding a natural number to \<open>p\<close> significant bits: the mantissa and the
  number of bits dropped.
\<close>

function bitlen :: "nat \<Rightarrow> nat" where
  "bitlen n = (if n = 0 then 0 else Suc (bitlen (n div 2)))"
  by pat_completeness auto
termination
  by (relation "measure id") auto

declare bitlen.simps [simp del]

definition round_half_even :: "nat \<Rightarrow> nat \<Rightarrow> nat" where
  "round_half_even m d =
     (let q = m div d; r = m mod d
      in if 2 * r < d then q else if 2 * r > d then q + 1 else if even q then q else q + 1)"

definition round_sig :: "nat \<Rightarrow> nat \<Rightarrow> nat \<times> nat" where
  "round_sig p m = (let k = bitlen m - p in (round_half_even m (2 ^ k), k))"

text \<open>\<open>(double) i\<close> (53 significant bits) and \<open>(double) (float) i\<close> (24 significant bits).\<close>

definition of_int_prec :: "nat \<Rightarrow> int \<Rightarrow> cdouble" where
  "of_int_prec p i = (let (m, k) = round_sig p (nat \<bar>i\<bar>) in Finite (i < 0) m (int k))"

definition double_of_int :: "int \<Rightarrow> cdouble" where
  "double_of_int i = of_int_prec 53 i"

definition float_of_int :: "int \<Rightarrow> cdouble" where
  "float_of_int i = of_int_prec 24 i"

text \<open>The integer part, towards zero; no value for an infinity or NaN.\<close>

fun dtrunc :: "cdouble \<Rightarrow> int option" where
  "dtrunc (Finite s m e) =
     (let a = (if 0 \<le> e then int (m * 2 ^ nat e) else int (m div 2 ^ nat (- e)))
      in Some (if s then - a else a))"
| "dtrunc (Infinity s) = None"
| "dtrunc NaN = None"

text \<open>
  \<open>(int) d\<close> and \<open>(long long) d\<close>: truncation; out of range the C standard leaves
  the value open, and the x86-64 target delivers the smallest integer.
\<close>

definition int_of_double :: "cdouble \<Rightarrow> word32" where
  "int_of_double d =
     (case dtrunc d of Some i \<Rightarrow> if - (2 ^ 31) \<le> i \<and> i < 2 ^ 31 then word_of_int i else 0x80000000
                     | None \<Rightarrow> 0x80000000)"

definition llong_of_double :: "cdouble \<Rightarrow> word64" where
  "llong_of_double d =
     (case dtrunc d of Some i \<Rightarrow> if - (2 ^ 63) \<le> i \<and> i < 2 ^ 63 then word_of_int i else 0x8000000000000000
                     | None \<Rightarrow> 0x8000000000000000)"

section \<open>Facts\<close>

lemma bitlen_bound: "m < 2 ^ bitlen m"
proof (induction m rule: bitlen.induct)
  case (1 n)
  show ?case
  proof (cases "n = 0")
    case False
    then have "n div 2 < 2 ^ bitlen (n div 2)" by (rule "1.IH")
    then show ?thesis using False by (simp add: bitlen.simps [of n])
  qed (simp add: bitlen.simps)
qed

lemma bitlen_le: "m < 2 ^ p \<Longrightarrow> bitlen m \<le> p"
proof (induction m arbitrary: p rule: bitlen.induct)
  case (1 n)
  show ?case
  proof (cases "n = 0")
    case False
    with "1.prems" obtain q where p: "p = Suc q" by (cases p) auto
    then have "n div 2 < 2 ^ q" using "1.prems" by simp
    then have "bitlen (n div 2) \<le> q" by (rule "1.IH" [OF False])
    then show ?thesis using False p by (simp add: bitlen.simps [of n])
  qed (simp add: bitlen.simps)
qed

lemma of_int_prec_exact:
  assumes "\<bar>i\<bar> < 2 ^ p"
  shows "of_int_prec p i = Finite (i < 0) (nat \<bar>i\<bar>) 0"
proof -
  have "nat \<bar>i\<bar> < 2 ^ p" using assms by (simp add: nat_less_iff)
  then have "bitlen (nat \<bar>i\<bar>) - p = 0" by (simp add: bitlen_le)
  then show ?thesis by (simp add: of_int_prec_def round_sig_def round_half_even_def)
qed

lemma dtrunc_double_of_int: "\<bar>i\<bar> < 2 ^ 53 \<Longrightarrow> dtrunc (double_of_int i) = Some i"
  by (simp add: double_of_int_def of_int_prec_exact Let_def)

lemma sint32_range: "- (2 ^ 31) \<le> sint (w :: word32)" "sint w < 2 ^ 31"
  using sint_greater_eq [of w] sint_less [of w] by simp_all

lemma int_of_double_of_int32: "int_of_double (double_of_int (sint w)) = w"
  using sint32_range [of w] by (simp add: int_of_double_def dtrunc_double_of_int)

end
