(* ===== verification/Setting.thy ===== *)
theory Setting
  imports Interfaces Cstring Cdouble
begin

text \<open>
  The setting tree of libconfig (\<open>lib/libconfig.h\<close>, \<open>lib/libconfig.c\<close>): the
  configuration and setting structures, the list primitives, creation,
  addition, removal and destruction of settings.  A setting owns its list of
  children, so a setting is a tree; a pointer to a child is its index in the
  parent's list, a pointer to any setting the list of indices from the root
  (theory \<open>Lookup\<close>), and the \<open>parent\<close> field is that list without its last index.
  The value union is a \<open>config_value\<close> that says which member was written last;
  \<open>VZero\<close> is the zeroed memory \<open>calloc\<close> delivers, which every member reads as
  0, 0.0 or NULL.
\<close>

section \<open>Data\<close>

datatype ctype =
    CONFIG_TYPE_NONE | CONFIG_TYPE_GROUP | CONFIG_TYPE_INT | CONFIG_TYPE_INT64
  | CONFIG_TYPE_FLOAT | CONFIG_TYPE_STRING | CONFIG_TYPE_BOOL | CONFIG_TYPE_ARRAY | CONFIG_TYPE_LIST

text \<open>The codes 0 to 8; other integers are no type.\<close>

definition type_of_code :: "int \<Rightarrow> ctype option" where
  "type_of_code n =
     (if 0 \<le> n \<and> n \<le> 8
      then Some ([CONFIG_TYPE_NONE, CONFIG_TYPE_GROUP, CONFIG_TYPE_INT, CONFIG_TYPE_INT64,
             CONFIG_TYPE_FLOAT, CONFIG_TYPE_STRING, CONFIG_TYPE_BOOL, CONFIG_TYPE_ARRAY,
             CONFIG_TYPE_LIST] ! nat n)
      else None)"

definition CONFIG_FORMAT_DEFAULT :: int where
  "CONFIG_FORMAT_DEFAULT = 0"

definition CONFIG_FORMAT_HEX :: int where
  "CONFIG_FORMAT_HEX = 1"

datatype 's config_value =
    VZero | VIval word32 | VLlval word64 | VFval cdouble | VSval string | VList "'s list"

datatype config_setting =
  Setting (s_name: "string option") (s_type: ctype) (s_format: int)
    (s_value: "config_setting config_value") (s_hook: "nat option") (s_line: nat)
    (s_file: "string option")

datatype config_error = CONFIG_ERR_NONE | CONFIG_ERR_FILE_IO | CONFIG_ERR_PARSE

record config =
  root :: config_setting
  destructor :: bool              \<comment> \<open>whether a destructor function is set\<close>
  flags :: "16 word"
  tab_width :: "16 word"
  default_format :: int
  include_dir :: "string option"
  error_text :: "string option"
  error_file :: "string option"
  error_line :: int
  error_type :: config_error
  filenames :: "string list"

definition CONFIG_OPTION_AUTOCONVERT :: "16 word" where
  "CONFIG_OPTION_AUTOCONVERT = 1"

text \<open>Assignments to single fields.\<close>

definition set_type :: "ctype \<Rightarrow> config_setting \<Rightarrow> config_setting" where
  "set_type t s = Setting (s_name s) t (s_format s) (s_value s) (s_hook s) (s_line s) (s_file s)"

definition set_value :: "config_setting config_value \<Rightarrow> config_setting \<Rightarrow> config_setting" where
  "set_value v s = Setting (s_name s) (s_type s) (s_format s) v (s_hook s) (s_line s) (s_file s)"

definition set_format :: "int \<Rightarrow> config_setting \<Rightarrow> config_setting" where
  "set_format f s = Setting (s_name s) (s_type s) f (s_value s) (s_hook s) (s_line s) (s_file s)"

definition config_setting_set_hook :: "config_setting \<Rightarrow> nat option \<Rightarrow> config_setting" where
  "config_setting_set_hook s hk =
     Setting (s_name s) (s_type s) (s_format s) (s_value s) hk (s_line s) (s_file s)"

definition set_source :: "nat \<Rightarrow> string option \<Rightarrow> config_setting \<Rightarrow> config_setting" where
  "set_source ln fl s = Setting (s_name s) (s_type s) (s_format s) (s_value s) (s_hook s) ln fl"

lemmas set_field_defs = set_type_def set_value_def set_format_def config_setting_set_hook_def
  set_source_def

lemma set_field_sels [simp]:
  "s_name (set_type t s) = s_name s" "s_type (set_type t s) = t"
  "s_format (set_type t s) = s_format s" "s_value (set_type t s) = s_value s"
  "s_hook (set_type t s) = s_hook s"
  "s_name (set_value v s) = s_name s" "s_type (set_value v s) = s_type s"
  "s_format (set_value v s) = s_format s" "s_value (set_value v s) = v"
  "s_hook (set_value v s) = s_hook s"
  "s_name (set_format f s) = s_name s" "s_type (set_format f s) = s_type s"
  "s_format (set_format f s) = f" "s_value (set_format f s) = s_value s"
  "s_hook (set_format f s) = s_hook s"
  "s_name (config_setting_set_hook s h) = s_name s" "s_type (config_setting_set_hook s h) = s_type s"
  "s_value (config_setting_set_hook s h) = s_value s" "s_hook (config_setting_set_hook s h) = h"
  "s_name (set_source l fl s) = s_name s" "s_type (set_source l fl s) = s_type s"
  "s_value (set_source l fl s) = s_value s" "s_format (set_source l fl s) = s_format s"
  by (simp_all add: set_field_defs)

lemma set_value_same: "set_value v (set_value w s) = set_value v s"
  by (simp add: set_value_def)

text \<open>Reading a member of the union; a member that was not written last reads as zero.\<close>

definition ival :: "config_setting \<Rightarrow> word32" where
  "ival s = (case s_value s of VIval i \<Rightarrow> i | _ \<Rightarrow> 0)"

definition llval :: "config_setting \<Rightarrow> word64" where
  "llval s = (case s_value s of VLlval i \<Rightarrow> i | _ \<Rightarrow> 0)"

definition fval :: "config_setting \<Rightarrow> cdouble" where
  "fval s = (case s_value s of VFval d \<Rightarrow> d | _ \<Rightarrow> dzero)"

definition sval :: "config_setting \<Rightarrow> string option" where
  "sval s = (case s_value s of VSval t \<Rightarrow> Some t | _ \<Rightarrow> None)"

definition list_ptr :: "config_setting \<Rightarrow> config_setting list option" where
  "list_ptr s = (case s_value s of VList xs \<Rightarrow> Some xs | _ \<Rightarrow> None)"

definition elems :: "config_setting \<Rightarrow> config_setting list" where
  "elems s = (case list_ptr s of Some xs \<Rightarrow> xs | None \<Rightarrow> [])"

definition is_aggregate :: "config_setting \<Rightarrow> bool" where
  "is_aggregate s \<longleftrightarrow> s_type s \<in> {CONFIG_TYPE_GROUP, CONFIG_TYPE_LIST, CONFIG_TYPE_ARRAY}"

lemma elems_set_value [simp]: "elems (set_value (VList xs) s) = xs"
  by (simp add: elems_def list_ptr_def)

lemma elems_other [simp]:
  "elems (set_type t s) = elems s" "elems (set_format f s) = elems s"
  "elems (config_setting_set_hook s h) = elems s" "elems (set_source l fl s) = elems s"
  by (simp_all add: elems_def list_ptr_def)

section \<open>Names\<close>

definition PATH_TOKENS :: string where
  "PATH_TOKENS = '':./''"

definition is_token :: "char \<Rightarrow> bool" where
  "is_token c \<longleftrightarrow> c \<in> set PATH_TOKENS"

definition at_delim :: "string \<Rightarrow> bool" where
  "at_delim p \<longleftrightarrow> (case p of [] \<Rightarrow> True | c # _ \<Rightarrow> is_token c)"

fun config_name_compare :: "string \<Rightarrow> string \<Rightarrow> int" where
  "config_name_compare p q =
     (let pd = at_delim p; qd = at_delim q
      in if pd \<and> qd then 0
         else if pd then -1
         else if qd then 1
         else (case (p, q) of
             (c # p', d # q') \<Rightarrow>
               if schar c < schar d then -1
               else if schar c > schar d then 1
               else config_name_compare p' q'
           | _ \<Rightarrow> 0))"

declare config_name_compare.simps [simp del]

definition config_validate_name :: "string \<Rightarrow> bool" where
  "config_validate_name nm =
     (case nm of [] \<Rightarrow> False
      | p # ps \<Rightarrow> (isalpha p \<or> p = CHR ''*'')
                  \<and> list_all (\<lambda>c. isalpha c \<or> isdigit c \<or> c \<in> set ''*_-'') ps)"

section \<open>The list primitives\<close>

definition config_list_add :: "config_setting list \<Rightarrow> config_setting \<Rightarrow> config_setting list" where
  "config_list_add list setting = list @ [setting]"

fun config_list_search :: "config_setting list \<Rightarrow> string \<Rightarrow> nat option" where
  "config_list_search [] name = None"
| "config_list_search (e # es) name =
     (case s_name e of
        None \<Rightarrow> map_option Suc (config_list_search es name)
      | Some n \<Rightarrow> if config_name_compare name n = 0 then Some 0
                  else map_option Suc (config_list_search es name))"

definition config_list_remove :: "config_setting list \<Rightarrow> nat \<Rightarrow> config_setting \<times> config_setting list" where
  "config_list_remove list idx = (list ! idx, take idx list @ drop (Suc idx) list)"

text \<open>
  Destruction frees a setting and everything below it; what the caller sees of
  it is the sequence of destructor calls, one for each hook, children first.
\<close>

fun config_setting_destroy :: "bool \<Rightarrow> config_setting \<Rightarrow> nat list" where
  "config_setting_destroy dtor (Setting n t f v h l fl) =
     (if t \<in> {CONFIG_TYPE_GROUP, CONFIG_TYPE_ARRAY, CONFIG_TYPE_LIST}
      then (case v of VList xs \<Rightarrow> concat (map (config_setting_destroy dtor) xs) | _ \<Rightarrow> [])
      else [])
     @ (case h of Some hk \<Rightarrow> if dtor then [hk] else [] | None \<Rightarrow> [])"

section \<open>Creating, adding and removing settings\<close>

definition new_setting :: "string option \<Rightarrow> ctype \<Rightarrow> config_setting" where
  "new_setting name type = Setting name type 0 VZero None 0 None"

text \<open>The updated parent and the pointer (index) of the new setting, \<open>None\<close> for NULL.\<close>

definition config_setting_create :: "config_setting \<Rightarrow> string option \<Rightarrow> ctype \<Rightarrow>
    config_setting \<times> nat option" where
  "config_setting_create parent name type =
     (if s_type parent \<noteq> CONFIG_TYPE_GROUP \<and> s_type parent \<noteq> CONFIG_TYPE_ARRAY
         \<and> s_type parent \<noteq> CONFIG_TYPE_LIST
      then (parent, None)
      else (set_value (VList (config_list_add (elems parent) (new_setting name type))) parent,
            Some (length (elems parent))))"

definition config_setting_get_elem :: "config_setting \<Rightarrow> word32 \<Rightarrow> nat option" where
  "config_setting_get_elem vector idx =
     (if (s_type vector \<noteq> CONFIG_TYPE_ARRAY \<and> s_type vector \<noteq> CONFIG_TYPE_LIST
          \<and> s_type vector \<noteq> CONFIG_TYPE_GROUP) \<or> list_ptr vector = None
      then None
      else if unat idx \<ge> length (elems vector) then None
      else Some (unat idx))"

definition config_setting_get_member :: "config_setting \<Rightarrow> string \<Rightarrow> nat option" where
  "config_setting_get_member setting name =
     (if s_type setting \<noteq> CONFIG_TYPE_GROUP then None
      else config_list_search (elems setting) name)"

definition config_setting_length :: "config_setting \<Rightarrow> nat" where
  "config_setting_length setting =
     (if s_type setting \<noteq> CONFIG_TYPE_GROUP \<and> s_type setting \<noteq> CONFIG_TYPE_ARRAY
         \<and> s_type setting \<noteq> CONFIG_TYPE_LIST then 0
      else (case list_ptr setting of None \<Rightarrow> 0 | Some xs \<Rightarrow> length xs))"

text \<open>
  \<open>config_setting_add\<close>.  The outer \<open>None\<close> is the call that dereferences NULL: a
  group that has a named member is searched for the name NULL.
\<close>

definition config_setting_add :: "config_setting option \<Rightarrow> string option \<Rightarrow> int \<Rightarrow>
    (config_setting option \<times> nat option) option" where
  "config_setting_add parent_ptr name_ptr typ =
     (case type_of_code typ of None \<Rightarrow> Some (parent_ptr, None)
      | Some type \<Rightarrow>
        (case parent_ptr of None \<Rightarrow> Some (None, None)
         | Some parent \<Rightarrow>
           let name = (if s_type parent = CONFIG_TYPE_ARRAY \<or> s_type parent = CONFIG_TYPE_LIST
                       then None else name_ptr)
           in case name of
                Some nm \<Rightarrow>
                  if \<not> config_validate_name nm then Some (Some parent, None)
                  else if config_setting_get_member parent nm \<noteq> None then Some (Some parent, None)
                  else (case config_setting_create parent name type of (p, r) \<Rightarrow> Some (Some p, r))
              | None \<Rightarrow>
                  if s_type parent = CONFIG_TYPE_GROUP \<and> (\<exists>e\<in>set (elems parent). s_name e \<noteq> None)
                  then None
                  else (case config_setting_create parent None type of (p, r) \<Rightarrow> Some (Some p, r))))"

text \<open>The updated parent, the returned flag and the destructor calls.\<close>

definition config_setting_remove :: "bool \<Rightarrow> config_setting \<Rightarrow> string \<Rightarrow>
    config_setting \<times> bool \<times> nat list" where
  "config_setting_remove dtor parent name =
     (if s_type parent \<noteq> CONFIG_TYPE_GROUP then (parent, False, [])
      else (case config_list_search (elems parent) name of
          None \<Rightarrow> (parent, False, [])
        | Some idx \<Rightarrow>
            let (removed, xs) = config_list_remove (elems parent) idx
            in (set_value (VList xs) parent, True, config_setting_destroy dtor removed)))"

definition config_setting_remove_elem :: "bool \<Rightarrow> config_setting \<Rightarrow> word32 \<Rightarrow>
    config_setting \<times> bool \<times> nat list" where
  "config_setting_remove_elem dtor parent idx =
     (if (s_type parent \<noteq> CONFIG_TYPE_ARRAY \<and> s_type parent \<noteq> CONFIG_TYPE_LIST
          \<and> s_type parent \<noteq> CONFIG_TYPE_GROUP) \<or> list_ptr parent = None
      then (parent, False, [])
      else if unat idx \<ge> length (elems parent) then (parent, False, [])
      else let (removed, xs) = config_list_remove (elems parent) (unat idx)
           in (set_value (VList xs) parent, True, config_setting_destroy dtor removed))"

section \<open>Configurations\<close>

definition config_init :: config where
  "config_init = \<lparr>root = new_setting None CONFIG_TYPE_GROUP, destructor = False, flags = 0,
     tab_width = 2, default_format = 0, include_dir = None, error_text = None, error_file = None,
     error_line = 0, error_type = CONFIG_ERR_NONE, filenames = []\<rparr>"

text \<open>\<open>config_destroy\<close> releases the tree; its visible effect is the destructor calls.\<close>

definition config_destroy :: "config \<Rightarrow> nat list" where
  "config_destroy config = config_setting_destroy (destructor config) (root config)"

definition config_set_auto_convert :: "config \<Rightarrow> bool \<Rightarrow> config" where
  "config_set_auto_convert config flag =
     (if flag then config\<lparr>flags := flags config OR CONFIG_OPTION_AUTOCONVERT\<rparr>
      else config\<lparr>flags := flags config AND NOT CONFIG_OPTION_AUTOCONVERT\<rparr>)"

definition config_get_auto_convert :: "config \<Rightarrow> bool" where
  "config_get_auto_convert config \<longleftrightarrow> flags config AND CONFIG_OPTION_AUTOCONVERT \<noteq> 0"

section \<open>Well-formed settings\<close>

text \<open>
  The union is only read through the member written last (or still zeroed), the
  members of a group have distinct valid names, elements of arrays and lists
  have none; and so all the way down.
\<close>

fun tag_ok :: "ctype \<Rightarrow> 's config_value \<Rightarrow> bool" where
  "tag_ok t VZero = True"
| "tag_ok t (VIval i) = (t = CONFIG_TYPE_INT \<or> t = CONFIG_TYPE_BOOL)"
| "tag_ok t (VLlval i) = (t = CONFIG_TYPE_INT64)"
| "tag_ok t (VFval d) = (t = CONFIG_TYPE_FLOAT)"
| "tag_ok t (VSval u) = (t = CONFIG_TYPE_STRING)"
| "tag_ok t (VList xs) = (t \<in> {CONFIG_TYPE_GROUP, CONFIG_TYPE_ARRAY, CONFIG_TYPE_LIST})"

definition names_ok :: "ctype \<Rightarrow> config_setting list \<Rightarrow> bool" where
  "names_ok t xs \<longleftrightarrow>
     (if t = CONFIG_TYPE_GROUP
      then (\<forall>x\<in>set xs. \<exists>n. s_name x = Some n \<and> config_validate_name n) \<and> distinct (map s_name xs)
      else (\<forall>x\<in>set xs. s_name x = None))"

fun wf_setting :: "config_setting \<Rightarrow> bool" where
  "wf_setting (Setting n t f v h l fl) =
     (tag_ok t v \<and> (case v of VList xs \<Rightarrow> names_ok t xs \<and> (\<forall>x\<in>set xs. wf_setting x) | _ \<Rightarrow> True))"

lemma names_ok_Nil [simp]: "names_ok t []"
  by (simp add: names_ok_def)

lemma wf_setting_iff:
  "wf_setting s \<longleftrightarrow> tag_ok (s_type s) (s_value s) \<and> names_ok (s_type s) (elems s)
     \<and> (\<forall>x\<in>set (elems s). wf_setting x)"
  by (cases s) (auto simp: elems_def list_ptr_def split: config_value.splits)

lemma wf_new_setting [simp]: "wf_setting (new_setting n t)"
  by (simp add: new_setting_def)

lemma elems_new_setting [simp]: "elems (new_setting n t) = []" "s_name (new_setting n t) = n"
  "s_type (new_setting n t) = t" "s_value (new_setting n t) = VZero"
  by (simp_all add: new_setting_def elems_def list_ptr_def)

lemma wf_set_list:
  assumes "wf_setting s" "is_aggregate s" "names_ok (s_type s) xs" "\<forall>x\<in>set xs. wf_setting x"
  shows "wf_setting (set_value (VList xs) s)"
  using assms by (auto simp: wf_setting_iff [of "set_value (VList xs) s"] is_aggregate_def)

lemma is_aggregate_iff:
  "is_aggregate s \<longleftrightarrow> \<not> (s_type s \<noteq> CONFIG_TYPE_GROUP \<and> s_type s \<noteq> CONFIG_TYPE_ARRAY
     \<and> s_type s \<noteq> CONFIG_TYPE_LIST)"
  by (auto simp: is_aggregate_def)

section \<open>Comparing names\<close>

text \<open>The part of a string before the first path token, which is all the comparison looks at.\<close>

definition name_part :: "string \<Rightarrow> string" where
  "name_part p = takeWhile (\<lambda>c. \<not> is_token c) p"

lemma schar_inj: "schar c = schar d \<Longrightarrow> c = d"
proof -
  assume e: "schar c = schar d"
  have "code c = code d"
    using e nat_of_char_less_256 [of c] nat_of_char_less_256 [of d]
    by (simp only: schar_def split: if_splits)
  then show "c = d" by simp
qed

lemma name_compare_eq: "config_name_compare p q = 0 \<longleftrightarrow> name_part p = name_part q"
proof (induction p q rule: config_name_compare.induct)
  case (1 p q)
  show ?case
  proof (cases "at_delim p \<or> at_delim q")
    case True
    then show ?thesis
      by (subst config_name_compare.simps)
         (auto simp: Let_def at_delim_def name_part_def split: list.splits if_splits)
  next
    case False
    then obtain c p' d q' where pq: "p = c # p'" "q = d # q'" "\<not> is_token c" "\<not> is_token d"
      by (auto simp: at_delim_def split: list.splits)
    show ?thesis
    proof (cases "schar c = schar d")
      case True
      then have "c = d" by (rule schar_inj)
      then show ?thesis
        using False pq "1.IH" [OF refl refl _ _ _ refl pq(1,2)]
        by (subst config_name_compare.simps) (simp add: Let_def name_part_def)
    next
      case neq: False
      then show ?thesis
        using False pq by (subst config_name_compare.simps) (auto simp: Let_def name_part_def)
    qed
  qed
qed

lemma valid_name_chars:
  "config_validate_name n \<Longrightarrow> c \<in> set n \<Longrightarrow> \<not> is_token c"
  by (auto simp: config_validate_name_def is_token_def PATH_TOKENS_def isalpha_def isdigit_def
      list_all_iff split: list.splits)

lemma name_part_valid [simp]: "config_validate_name n \<Longrightarrow> name_part n = n"
  by (simp add: name_part_def takeWhile_eq_all_conv valid_name_chars)

lemma name_part_append:
  assumes "config_validate_name n" "at_delim q"
  shows "name_part (n @ q) = n"
proof -
  have "name_part (n @ q) = n @ takeWhile (\<lambda>c. \<not> is_token c) q"
    unfolding name_part_def using valid_name_chars [OF assms(1)] by (intro takeWhile_append2) auto
  then show ?thesis
    using assms(2) by (auto simp: at_delim_def split: list.splits)
qed

section \<open>Searching a list of members\<close>

lemma config_list_search_SomeD:
  "config_list_search xs nm = Some i \<Longrightarrow>
   i < length xs \<and> (\<exists>n. s_name (xs ! i) = Some n \<and> name_part nm = name_part n)"
  by (induction xs arbitrary: i) (auto split: option.splits if_splits simp: name_compare_eq)

lemma config_list_search_None:
  "config_list_search xs nm = None \<longleftrightarrow>
   (\<forall>x\<in>set xs. \<forall>n. s_name x = Some n \<longrightarrow> name_part nm \<noteq> name_part n)"
  by (induction xs) (auto split: option.splits if_splits simp: name_compare_eq)

lemma config_list_search_ok:
  assumes "names_ok CONFIG_TYPE_GROUP xs" and found: "config_list_search xs nm = Some i"
  shows "i < length xs \<and> s_name (xs ! i) = Some (name_part nm)"
proof -
  obtain n where n: "i < length xs" "s_name (xs ! i) = Some n" "name_part nm = name_part n"
    using config_list_search_SomeD [OF found] by blast
  then have "config_validate_name n"
    using assms(1) nth_mem [OF n(1)] unfolding names_ok_def by (metis option.inject)
  then show ?thesis using n by simp
qed

lemma config_list_search_iff:
  assumes "names_ok CONFIG_TYPE_GROUP xs"
  shows "config_list_search xs nm = Some i \<longleftrightarrow> i < length xs \<and> s_name (xs ! i) = Some (name_part nm)"
proof
  assume "config_list_search xs nm = Some i"
  then show "i < length xs \<and> s_name (xs ! i) = Some (name_part nm)"
    by (rule config_list_search_ok [OF assms])
next
  assume r: "i < length xs \<and> s_name (xs ! i) = Some (name_part nm)"
  then have "config_list_search xs nm \<noteq> None"
    using assms unfolding config_list_search_None names_ok_def
    by (metis name_part_valid nth_mem option.inject)
  then obtain j where j: "config_list_search xs nm = Some j" by blast
  then have "j < length xs \<and> s_name (xs ! j) = Some (name_part nm)"
    by (rule config_list_search_ok [OF assms])
  with r have "j = i"
    using assms by (metis (no_types, lifting) distinct_conv_nth length_map names_ok_def nth_map)
  with j show "config_list_search xs nm = Some i" by simp
qed

section \<open>The abstract group: a map from names to members\<close>

definition members :: "config_setting \<Rightarrow> string \<Rightarrow> config_setting option" where
  "members g = map_of (map (\<lambda>x. (the (s_name x), x)) (elems g))"

definition member_of :: "config_setting \<Rightarrow> string \<Rightarrow> config_setting option" where
  "member_of g nm = map_option ((!) (elems g)) (config_setting_get_member g nm)"

definition wf_group :: "config_setting \<Rightarrow> bool" where
  "wf_group g \<longleftrightarrow> wf_setting g \<and> s_type g = CONFIG_TYPE_GROUP"

lemma wf_groupD:
  assumes "wf_group g"
  shows "names_ok CONFIG_TYPE_GROUP (elems g)" "s_type g = CONFIG_TYPE_GROUP" "is_aggregate g"
    "\<forall>x\<in>set (elems g). wf_setting x" "wf_setting g"
  using assms wf_setting_iff [of g] by (auto simp: wf_group_def is_aggregate_def)

lemma distinct_names: "names_ok CONFIG_TYPE_GROUP xs \<Longrightarrow> distinct (map (\<lambda>x. the (s_name x)) xs)"
proof -
  assume a: "names_ok CONFIG_TYPE_GROUP xs"
  have "map s_name xs = map Some (map (\<lambda>x. the (s_name x)) xs)"
    using a by (auto simp: names_ok_def)
  then show ?thesis
    using a by (metis (no_types, lifting) distinct_map names_ok_def)
qed

lemma members_Some:
  assumes "names_ok CONFIG_TYPE_GROUP (elems g)"
  shows "members g nm = Some x \<longleftrightarrow> x \<in> set (elems g) \<and> s_name x = Some nm"
proof -
  have "members g nm = Some x \<longleftrightarrow> (nm, x) \<in> set (map (\<lambda>x. (the (s_name x), x)) (elems g))"
    unfolding members_def using distinct_names [OF assms] by (intro map_of_eq_Some_iff) (simp add: o_def)
  also have "\<dots> \<longleftrightarrow> x \<in> set (elems g) \<and> s_name x = Some nm"
    using assms by (force simp: names_ok_def)
  finally show ?thesis .
qed

lemma member_of_members:
  assumes "wf_group g"
  shows "member_of g nm = members g (name_part nm)"
proof (cases "member_of g nm")
  case None
  then have "config_list_search (elems g) nm = None"
    using wf_groupD(2) [OF assms] by (simp add: member_of_def config_setting_get_member_def)
  then have "members g (name_part nm) \<noteq> Some x" for x
    using members_Some [OF wf_groupD(1) [OF assms]] wf_groupD(1) [OF assms]
    unfolding config_list_search_None names_ok_def
    by (metis (full_types) name_part_valid option.inject)
  then show ?thesis using None by (metis option.exhaust)
next
  case (Some x)
  then obtain i where "config_list_search (elems g) nm = Some i" "x = elems g ! i"
    using wf_groupD(2) [OF assms] by (auto simp: member_of_def config_setting_get_member_def)
  then have "members g (name_part nm) = Some x"
    using config_list_search_iff [OF wf_groupD(1) [OF assms]] members_Some [OF wf_groupD(1) [OF assms]]
    by auto
  then show ?thesis using Some by simp
qed


section \<open>Effect of the operations\<close>

lemma config_setting_create_spec:
  "config_setting_create parent name t =
     (if is_aggregate parent
      then (set_value (VList (elems parent @ [new_setting name t])) parent, Some (length (elems parent)))
      else (parent, None))"
  by (simp add: config_setting_create_def is_aggregate_iff config_list_add_def)

lemma names_ok_add_member:
  assumes "names_ok CONFIG_TYPE_GROUP (elems g)" "config_validate_name nm" "members g nm = None"
  shows "names_ok CONFIG_TYPE_GROUP (elems g @ [new_setting (Some nm) t])"
proof -
  have "\<forall>x\<in>set (elems g). s_name x \<noteq> Some nm"
    using assms(3) members_Some [OF assms(1)] by (metis option.distinct(1))
  then show ?thesis using assms(1,2) by (auto simp: names_ok_def)
qed

lemma members_append:
  assumes "names_ok CONFIG_TYPE_GROUP (elems g)" "members g nm = None"
  shows "members (set_value (VList (elems g @ [new_setting (Some nm) t])) g)
         = (members g)(nm \<mapsto> new_setting (Some nm) t)"
proof
  fix k
  show "members (set_value (VList (elems g @ [new_setting (Some nm) t])) g) k
        = ((members g)(nm \<mapsto> new_setting (Some nm) t)) k"
    using assms(2) by (auto simp: members_def map_add_def split: option.splits)
qed

lemma config_setting_add_group:
  assumes g: "wf_group g" and nm: "config_validate_name nm" and t: "type_of_code c = Some t"
  shows "config_setting_add (Some g) (Some nm) c =
     (if members g nm = None
      then Some (Some (set_value (VList (elems g @ [new_setting (Some nm) t])) g), Some (length (elems g)))
      else Some (Some g, None))"
proof -
  have "(config_setting_get_member g nm \<noteq> None) = (members g nm \<noteq> None)"
    using member_of_members [OF g, of nm] nm
    by (cases "config_setting_get_member g nm"; cases "members g nm") (simp_all add: member_of_def)
  then show ?thesis
    using wf_groupD(2,3) [OF g] nm t
    by (simp add: config_setting_add_def Let_def config_setting_create_spec)
qed

lemma wf_group_add:
  assumes g: "wf_group g" and nm: "config_validate_name nm" and new: "members g nm = None"
  shows "wf_group (set_value (VList (elems g @ [new_setting (Some nm) t])) g)"
proof -
  have "names_ok (s_type g) (elems g @ [new_setting (Some nm) t])"
    using names_ok_add_member [OF wf_groupD(1) [OF g] nm new] wf_groupD(2) [OF g] by simp
  then have "wf_setting (set_value (VList (elems g @ [new_setting (Some nm) t])) g)"
    using wf_groupD(3,4,5) [OF g] by (intro wf_set_list) auto
  then show ?thesis using wf_groupD(2) [OF g] by (simp add: wf_group_def)
qed

lemma config_setting_create_wf:
  assumes "wf_setting v" "s_type v = CONFIG_TYPE_ARRAY \<or> s_type v = CONFIG_TYPE_LIST"
  shows "wf_setting (fst (config_setting_create v None t))"
proof -
  have agg: "is_aggregate v" using assms(2) by (auto simp: is_aggregate_def)
  have "names_ok (s_type v) (elems v @ [new_setting None t])"
    using assms wf_setting_iff [of v] by (auto simp: names_ok_def)
  then have "wf_setting (set_value (VList (elems v @ [new_setting None t])) v)"
    using assms(1) agg wf_setting_iff [of v] by (intro wf_set_list) auto
  then show ?thesis using agg by (simp add: config_setting_create_spec)
qed

lemma distinct_without: "distinct ys \<Longrightarrow> distinct (take i ys @ drop (Suc i) ys)"
  using set_take_disj_set_drop_if_distinct [of ys i "Suc i"] by simp

lemma names_ok_without:
  assumes "names_ok t xs"
  shows "names_ok t (take i xs @ drop (Suc i) xs)"
proof -
  have s: "\<And>x. x \<in> set (take i xs @ drop (Suc i) xs) \<Longrightarrow> x \<in> set xs"
    by (auto dest: in_set_takeD in_set_dropD)
  have "map s_name (take i xs @ drop (Suc i) xs) = take i (map s_name xs) @ drop (Suc i) (map s_name xs)"
    by (simp add: take_map drop_map)
  then have d: "distinct (map s_name xs) \<Longrightarrow> distinct (map s_name (take i xs @ drop (Suc i) xs))"
    using distinct_without [of "map s_name xs" i] by (simp only:)
  show ?thesis
  proof (cases "t = CONFIG_TYPE_GROUP")
    case True
    have "\<forall>x\<in>set xs. \<exists>n. s_name x = Some n \<and> config_validate_name n" "distinct (map s_name xs)"
      using assms unfolding names_ok_def if_P [OF True] by blast+
    then show ?thesis
      unfolding names_ok_def if_P [OF True] using s d by blast
  next
    case False
    have "\<forall>x\<in>set xs. s_name x = None"
      using assms unfolding names_ok_def if_not_P [OF False] .
    then show ?thesis
      unfolding names_ok_def if_not_P [OF False] using s by blast
  qed
qed

lemma wf_setting_without:
  assumes "wf_setting s" "is_aggregate s"
  shows "wf_setting (set_value (VList (take i (elems s) @ drop (Suc i) (elems s))) s)"
proof (rule wf_set_list [OF assms])
  show "names_ok (s_type s) (take i (elems s) @ drop (Suc i) (elems s))"
    using assms(1) wf_setting_iff [of s] by (intro names_ok_without) simp
  show "\<forall>x\<in>set (take i (elems s) @ drop (Suc i) (elems s)). wf_setting x"
    using assms(1) wf_setting_iff [of s] by (auto dest: in_set_takeD in_set_dropD)
qed

lemma members_without:
  assumes ok: "names_ok CONFIG_TYPE_GROUP (elems g)" and i: "i < length (elems g)"
    and nm: "s_name (elems g ! i) = Some nm"
  shows "members (set_value (VList (take i (elems g) @ drop (Suc i) (elems g))) g)
         = (members g)(nm := None)"
proof -
  define xs ys where "xs = take i (elems g)" and "ys = drop (Suc i) (elems g)"
  have e: "elems g = xs @ (elems g ! i) # ys"
    using i by (simp add: xs_def ys_def id_take_nth_drop)
  have d: "distinct (map (\<lambda>x. the (s_name x)) (xs @ (elems g ! i) # ys))"
    using distinct_names [OF ok] e by simp
  have notin: "map_of (map (\<lambda>x. (the (s_name x), x)) zs) nm = None"
    if "nm \<notin> (\<lambda>x. the (s_name x)) ` set zs" for zs
    using that by (auto simp: map_of_eq_None_iff)
  have "members (set_value (VList (xs @ ys)) g) k = ((members g)(nm := None)) k" for k
  proof (cases "k = nm")
    case True
    then show ?thesis using d nm notin [of xs] notin [of ys]
      by (auto simp: members_def map_add_def)
  next
    case False
    have "members g = map_of (map (\<lambda>x. (the (s_name x), x)) (xs @ (elems g ! i) # ys))"
      unfolding members_def by (subst e) simp
    with False show ?thesis using nm
      by (simp add: members_def map_add_def fun_upd_def split: option.splits)
  qed
  then show ?thesis by (auto simp: xs_def ys_def)
qed

lemma config_setting_remove_group:
  assumes g: "wf_group g"
  shows "config_setting_remove dtor g nm =
     (case config_setting_get_member g nm of
        None \<Rightarrow> (g, False, [])
      | Some i \<Rightarrow> (set_value (VList (take i (elems g) @ drop (Suc i) (elems g))) g, True,
                   config_setting_destroy dtor (elems g ! i)))"
  using wf_groupD(2) [OF g]
  by (simp add: config_setting_remove_def config_setting_get_member_def config_list_remove_def
      split: option.splits)

lemma config_setting_remove_members:
  assumes g: "wf_group g" and r: "config_setting_remove dtor g nm = (g', ok, hooks)"
  shows "wf_group g'" "members g' = (members g)(name_part nm := None)"
    "ok \<longleftrightarrow> members g (name_part nm) \<noteq> None"
    "hooks = (case members g (name_part nm) of None \<Rightarrow> [] | Some x \<Rightarrow> config_setting_destroy dtor x)"
proof -
  have m: "member_of g nm = members g (name_part nm)" by (rule member_of_members [OF g])
  have "wf_group g' \<and> members g' = (members g)(name_part nm := None) \<and> (ok \<longleftrightarrow> member_of g nm \<noteq> None)
      \<and> hooks = (case member_of g nm of None \<Rightarrow> [] | Some x \<Rightarrow> config_setting_destroy dtor x)"
  proof (cases "config_setting_get_member g nm")
    case None
    then have "member_of g nm = None" by (simp add: member_of_def)
    then show ?thesis
      using r g None m by (auto simp: config_setting_remove_group [OF g])
  next
    case (Some i)
    then have i: "i < length (elems g)" "s_name (elems g ! i) = Some (name_part nm)"
      using config_list_search_iff [OF wf_groupD(1) [OF g]]
      by (auto simp: config_setting_get_member_def split: if_splits)
    show ?thesis
      using r Some wf_setting_without [OF wf_groupD(5,3) [OF g]] wf_groupD(2) [OF g]
        members_without [OF wf_groupD(1) [OF g] i]
      by (auto simp: config_setting_remove_group [OF g] member_of_def wf_group_def)
  qed
  then show "wf_group g'" "members g' = (members g)(name_part nm := None)"
    "ok \<longleftrightarrow> members g (name_part nm) \<noteq> None"
    "hooks = (case members g (name_part nm) of None \<Rightarrow> [] | Some x \<Rightarrow> config_setting_destroy dtor x)"
    by (simp_all add: m)
qed

text \<open>Every hook in a tree is passed to the destructor exactly once, children before parents.\<close>

fun hooks_of :: "config_setting \<Rightarrow> nat list" where
  "hooks_of (Setting n t f v h l fl) =
     (case v of VList xs \<Rightarrow> concat (map hooks_of xs) | _ \<Rightarrow> []) @ (case h of Some hk \<Rightarrow> [hk] | None \<Rightarrow> [])"

lemma config_setting_destroy_hooks:
  "wf_setting s \<Longrightarrow> config_setting_destroy True s = hooks_of s"
proof (induction True s rule: config_setting_destroy.induct)
  case (1 n t f v h l fl)
  show ?case
  proof (cases v)
    case (VList xs)
    then have t: "t \<in> {CONFIG_TYPE_GROUP, CONFIG_TYPE_ARRAY, CONFIG_TYPE_LIST}"
      and "\<forall>x\<in>set xs. wf_setting x" using "1.prems" by auto
    then have "map (config_setting_destroy True) xs = map hooks_of xs"
      using "1.hyps" [OF t VList] by simp
    then have "concat (map (config_setting_destroy True) xs) = concat (map hooks_of xs)"
      by (rule arg_cong)
    then show ?thesis using t VList
      by (simp only: config_setting_destroy.simps hooks_of.simps config_value.simps if_True)
  qed (auto split: option.splits)
qed

lemma config_setting_destroy_none: "config_setting_destroy False s = []"
proof (induction False s rule: config_setting_destroy.induct)
  case (1 n t f v h l fl)
  then show ?case by (auto split: option.splits config_value.splits)
qed

section \<open>A group is a map from names\<close>

text \<open>The two calls as updates of the group, whatever they return.\<close>

definition add_member :: "string \<Rightarrow> int \<Rightarrow> config_setting \<Rightarrow> config_setting" where
  "add_member nm c g =
     (case config_setting_add (Some g) (Some nm) c of Some (Some g', r) \<Rightarrow> g' | _ \<Rightarrow> g)"

definition remove_member :: "string \<Rightarrow> config_setting \<Rightarrow> config_setting" where
  "remove_member nm g = fst (config_setting_remove False g nm)"

definition addable :: "string \<Rightarrow> int \<Rightarrow> bool" where
  "addable nm c \<longleftrightarrow> config_validate_name nm \<and> type_of_code c \<noteq> None"

definition fresh_member :: "string \<Rightarrow> int \<Rightarrow> config_setting" where
  "fresh_member nm c = new_setting (Some nm) (the (type_of_code c))"

lemma add_member_cases:
  assumes "wf_group g"
  shows "add_member nm c g = (if addable nm c \<and> members g nm = None
     then set_value (VList (elems g @ [fresh_member nm c])) g else g)"
proof (cases "addable nm c")
  case True
  then obtain t where "type_of_code c = Some t" "config_validate_name nm" by (auto simp: addable_def)
  then show ?thesis
    using config_setting_add_group [OF assms] True by (simp add: add_member_def fresh_member_def)
next
  case False
  then show ?thesis
    using wf_groupD(2) [OF assms]
    by (auto simp: add_member_def addable_def config_setting_add_def Let_def split: option.splits)
qed

interpretation group: name_map wf_group members add_member remove_member addable fresh_member name_part
proof
  fix g nm c
  assume g: "wf_group g"
  show "wf_group (add_member nm c g)"
    using g wf_group_add [OF g] by (simp add: add_member_cases addable_def fresh_member_def)
  show "members (add_member nm c g) = (if addable nm c \<and> members g nm = None
      then (members g)(nm \<mapsto> fresh_member nm c) else members g)"
    using g members_append [OF wf_groupD(1) [OF g]]
    by (simp add: add_member_cases fresh_member_def)
next
  fix g nm
  assume g: "wf_group g"
  obtain g' ok hooks where r: "config_setting_remove False g nm = (g', ok, hooks)"
    by (metis prod_cases3)
  show "wf_group (remove_member nm g)" "members (remove_member nm g) = (members g)(name_part nm := None)"
    using config_setting_remove_members [OF g r] r by (simp_all add: remove_member_def)
next
  fix nm c
  show "addable nm c \<Longrightarrow> name_part nm = nm" by (simp add: addable_def)
qed

text \<open>A sequence of calls on a group, and the same calls on the abstract map.\<close>

definition group_calls :: "(string \<times> int + string) list \<Rightarrow> config_setting \<Rightarrow> config_setting" where
  "group_calls ops g = fold (\<lambda>opn. case opn of Inl (nm, c) \<Rightarrow> add_member nm c | Inr nm \<Rightarrow> remove_member nm) ops g"

definition map_calls :: "(string \<times> int + string) list \<Rightarrow> (string \<rightharpoonup> config_setting) \<Rightarrow> (string \<rightharpoonup> config_setting)" where
  "map_calls ops m = fold (\<lambda>opn m. case opn of
       Inl (nm, c) \<Rightarrow> if addable nm c \<and> m nm = None then m(nm \<mapsto> fresh_member nm c) else m
     | Inr nm \<Rightarrow> m(name_part nm := None)) ops m"

section \<open>Properties\<close>

text \<open>
  C13. A group is a map from names: any sequence of \<open>config_setting_add\<close> and
  \<open>config_setting_remove\<close> calls on a well-formed group, with arbitrary
  arguments, leaves a well-formed group, and \<open>config_setting_get_member\<close> then
  finds under every name exactly what the same updates of a finite map contain.
\<close>

theorem group_calls_refine_map:
  assumes "wf_group g"
  shows "wf_group (group_calls ops g) \<and>
    member_of (group_calls ops g) nm = map_calls ops (members g) (name_part nm)"
proof -
  have "group_calls ops g = group.run ops g" "map_calls ops = group.run_map ops"
    by (auto simp: group_calls_def group.run_def map_calls_def group.run_map_def)
  then show ?thesis
    using group.run_refines [OF assms, of ops] member_of_members by simp
qed

theorem group_calls_refine_map_witness:
  "wf_group (group_calls [Inl (''a'', 2), Inl (''b'', 1), Inr ''a.x''] (root config_init)) \<and>
   member_of (group_calls [Inl (''a'', 2), Inl (''b'', 1), Inr ''a.x''] (root config_init)) ''b.c''
   = map_calls [Inl (''a'', 2), Inl (''b'', 1), Inr ''a.x''] (members (root config_init)) (name_part ''b.c'')"
  by (rule group_calls_refine_map) (simp add: wf_group_def config_init_def)

text \<open>
  C26. Removing a member: the group loses exactly the named member, the call
  returns \<open>CONFIG_TRUE\<close> iff there was one, and the destructor is called once for
  every hook in the removed tree, children before parents, and for no other.
\<close>

theorem config_setting_remove_effect:
  assumes "wf_group g" and "config_setting_remove True g nm = (g', ok, hooks)"
  shows "members g' = (members g)(name_part nm := None) \<and>
    (ok \<longleftrightarrow> members g (name_part nm) \<noteq> None) \<and>
    hooks = (case members g (name_part nm) of None \<Rightarrow> [] | Some x \<Rightarrow> hooks_of x)"
proof -
  have "members g (name_part nm) = Some x \<Longrightarrow> wf_setting x" for x
    using members_Some [OF wf_groupD(1) [OF assms(1)]] wf_groupD(4) [OF assms(1)] by auto
  then show ?thesis
    using config_setting_remove_members(2,3,4) [OF assms]
    by (auto simp: config_setting_destroy_hooks split: option.splits)
qed

theorem config_setting_remove_effect_witness:
  "members (fst (config_setting_remove True
       (Setting None CONFIG_TYPE_GROUP 0 (VList [Setting (Some ''a'') CONFIG_TYPE_LIST 0
          (VList [Setting None CONFIG_TYPE_INT 0 VZero (Some 7) 0 None]) (Some 8) 0 None]) None 0 None) ''a''))
     = Map.empty
   \<and> snd (snd (config_setting_remove True
       (Setting None CONFIG_TYPE_GROUP 0 (VList [Setting (Some ''a'') CONFIG_TYPE_LIST 0
          (VList [Setting None CONFIG_TYPE_INT 0 VZero (Some 7) 0 None]) (Some 8) 0 None]) None 0 None) ''a''))
     = [7, 8]"
  (is "members (fst ?r) = _ \<and> _")
proof -
  have wf: "wf_group (Setting None CONFIG_TYPE_GROUP 0 (VList [Setting (Some ''a'') CONFIG_TYPE_LIST 0
      (VList [Setting None CONFIG_TYPE_INT 0 VZero (Some 7) 0 None]) (Some 8) 0 None]) None 0 None)"
    by (simp add: wf_group_def names_ok_def config_validate_name_def isalpha_def)
  have "name_part ''a'' = ''a''" by (simp add: config_validate_name_def isalpha_def)
  then show ?thesis
    using config_setting_remove_effect [OF wf, of "''a''" "fst ?r" "fst (snd ?r)" "snd (snd ?r)"]
    by (auto simp: members_def elems_def list_ptr_def fun_upd_def)
qed

end
