(* ===== verification/SettingValue.thy ===== *)
theory SettingValue
  imports Setting
begin

text \<open>
  Reading and writing the values of settings (\<open>lib/libconfig.c\<close>): the scalar
  getters and setters with their automatic conversions, the variants that look
  a member up by name, the element access of arrays and lists, the format.
  A getter with an out parameter is an option: \<open>Some v\<close> stands for
  \<open>CONFIG_TRUE\<close> with \<open>*value = v\<close>, \<open>None\<close> for \<open>CONFIG_FALSE\<close> with \<open>*value\<close>
  left alone.  A setter delivers the updated setting and the returned flag.
  \<open>setting->config\<close> is the extra argument \<open>cfg\<close>.  An index (\<open>int\<close> or
  \<open>unsigned int\<close>) is a \<open>word32\<close>.
\<close>

section \<open>Scalar getters\<close>

definition INT32_MAX :: int where
  "INT32_MAX = 2147483647"

definition INT32_MIN :: int where
  "INT32_MIN = - 2147483648"

definition get_int_value :: "config \<Rightarrow> config_setting \<Rightarrow> word32 option" where
  "get_int_value cfg setting =
     (case s_type setting of
        CONFIG_TYPE_INT \<Rightarrow> Some (ival setting)
      | CONFIG_TYPE_INT64 \<Rightarrow>
          Some (if sint (llval setting) > INT32_MAX \<or> sint (llval setting) < INT32_MIN then 0
                else word_of_int (sint (llval setting)))
      | CONFIG_TYPE_FLOAT \<Rightarrow>
          if flags cfg AND CONFIG_OPTION_AUTOCONVERT \<noteq> 0 then Some (int_of_double (fval setting))
          else None
      | _ \<Rightarrow> None)"

definition config_setting_get_int :: "config \<Rightarrow> config_setting \<Rightarrow> word32" where
  "config_setting_get_int cfg setting =
     (case get_int_value cfg setting of Some v \<Rightarrow> v | None \<Rightarrow> 0)"

definition get_int64_value :: "config \<Rightarrow> config_setting \<Rightarrow> word64 option" where
  "get_int64_value cfg setting =
     (case s_type setting of
        CONFIG_TYPE_INT64 \<Rightarrow> Some (llval setting)
      | CONFIG_TYPE_INT \<Rightarrow> Some (word_of_int (sint (ival setting)))
      | CONFIG_TYPE_FLOAT \<Rightarrow>
          if flags cfg AND CONFIG_OPTION_AUTOCONVERT \<noteq> 0 then Some (llong_of_double (fval setting))
          else None
      | _ \<Rightarrow> None)"

definition config_setting_get_int64 :: "config \<Rightarrow> config_setting \<Rightarrow> word64" where
  "config_setting_get_int64 cfg setting =
     (case get_int64_value cfg setting of Some v \<Rightarrow> v | None \<Rightarrow> 0)"

definition get_float_value :: "config \<Rightarrow> config_setting \<Rightarrow> cdouble option" where
  "get_float_value cfg setting =
     (case s_type setting of
        CONFIG_TYPE_FLOAT \<Rightarrow> Some (fval setting)
      | CONFIG_TYPE_INT \<Rightarrow>
          if config_get_auto_convert cfg then Some (double_of_int (sint (ival setting))) else None
      | CONFIG_TYPE_INT64 \<Rightarrow>
          if config_get_auto_convert cfg then Some (double_of_int (sint (llval setting))) else None
      | _ \<Rightarrow> None)"

definition config_setting_get_float :: "config \<Rightarrow> config_setting \<Rightarrow> cdouble" where
  "config_setting_get_float cfg setting =
     (case get_float_value cfg setting of Some v \<Rightarrow> v | None \<Rightarrow> dzero)"

definition config_setting_get_bool :: "config_setting \<Rightarrow> word32" where
  "config_setting_get_bool setting = (if s_type setting = CONFIG_TYPE_BOOL then ival setting else 0)"

definition config_setting_get_string :: "config_setting \<Rightarrow> string option" where
  "config_setting_get_string setting =
     (if s_type setting = CONFIG_TYPE_STRING then sval setting else None)"

section \<open>Members by name\<close>

definition config_setting_lookup_int :: "config \<Rightarrow> config_setting \<Rightarrow> string \<Rightarrow> word32 option" where
  "config_setting_lookup_int cfg setting name =
     (case config_setting_get_member setting name of
        None \<Rightarrow> None | Some i \<Rightarrow> get_int_value cfg (elems setting ! i))"

definition config_setting_lookup_int64 :: "config \<Rightarrow> config_setting \<Rightarrow> string \<Rightarrow> word64 option" where
  "config_setting_lookup_int64 cfg setting name =
     (case config_setting_get_member setting name of
        None \<Rightarrow> None | Some i \<Rightarrow> get_int64_value cfg (elems setting ! i))"

definition config_setting_lookup_float :: "config \<Rightarrow> config_setting \<Rightarrow> string \<Rightarrow> cdouble option" where
  "config_setting_lookup_float cfg setting name =
     (case config_setting_get_member setting name of
        None \<Rightarrow> None | Some i \<Rightarrow> get_float_value cfg (elems setting ! i))"

text \<open>The string handed out may itself be the NULL pointer, hence the double option.\<close>

definition config_setting_lookup_string :: "config_setting \<Rightarrow> string \<Rightarrow> string option option" where
  "config_setting_lookup_string setting name =
     (case config_setting_get_member setting name of
        None \<Rightarrow> None
      | Some i \<Rightarrow>
          if s_type (elems setting ! i) \<noteq> CONFIG_TYPE_STRING then None
          else Some (config_setting_get_string (elems setting ! i)))"

definition config_setting_lookup_bool :: "config_setting \<Rightarrow> string \<Rightarrow> word32 option" where
  "config_setting_lookup_bool setting name =
     (case config_setting_get_member setting name of
        None \<Rightarrow> None
      | Some i \<Rightarrow>
          if s_type (elems setting ! i) \<noteq> CONFIG_TYPE_BOOL then None
          else Some (config_setting_get_bool (elems setting ! i)))"

section \<open>Scalar setters\<close>

definition config_setting_set_int :: "config \<Rightarrow> config_setting \<Rightarrow> word32 \<Rightarrow> config_setting \<times> bool" where
  "config_setting_set_int cfg setting value =
     (case s_type setting of
        CONFIG_TYPE_NONE \<Rightarrow> (set_value (VIval value) (set_type CONFIG_TYPE_INT setting), True)
      | CONFIG_TYPE_INT \<Rightarrow> (set_value (VIval value) setting, True)
      | CONFIG_TYPE_FLOAT \<Rightarrow>
          if config_get_auto_convert cfg
          then (set_value (VFval (float_of_int (sint value))) setting, True)
          else (setting, False)
      | _ \<Rightarrow> (setting, False))"

definition config_setting_set_int64 :: "config \<Rightarrow> config_setting \<Rightarrow> word64 \<Rightarrow> config_setting \<times> bool" where
  "config_setting_set_int64 cfg setting value =
     (case s_type setting of
        CONFIG_TYPE_NONE \<Rightarrow> (set_value (VLlval value) (set_type CONFIG_TYPE_INT64 setting), True)
      | CONFIG_TYPE_INT64 \<Rightarrow> (set_value (VLlval value) setting, True)
      | CONFIG_TYPE_INT \<Rightarrow>
          (set_value (VIval (if sint value > INT32_MAX \<or> sint value < INT32_MIN then 0
                             else word_of_int (sint value))) setting, True)
      | CONFIG_TYPE_FLOAT \<Rightarrow>
          if config_get_auto_convert cfg
          then (set_value (VFval (float_of_int (sint value))) setting, True)
          else (setting, False)
      | _ \<Rightarrow> (setting, False))"

definition config_setting_set_float :: "config \<Rightarrow> config_setting \<Rightarrow> cdouble \<Rightarrow> config_setting \<times> bool" where
  "config_setting_set_float cfg setting value =
     (case s_type setting of
        CONFIG_TYPE_NONE \<Rightarrow> (set_value (VFval value) (set_type CONFIG_TYPE_FLOAT setting), True)
      | CONFIG_TYPE_FLOAT \<Rightarrow> (set_value (VFval value) setting, True)
      | CONFIG_TYPE_INT \<Rightarrow>
          if flags cfg AND CONFIG_OPTION_AUTOCONVERT \<noteq> 0
          then (set_value (VIval (int_of_double value)) setting, True)
          else (setting, False)
      | CONFIG_TYPE_INT64 \<Rightarrow>
          if flags cfg AND CONFIG_OPTION_AUTOCONVERT \<noteq> 0
          then (set_value (VLlval (llong_of_double value)) setting, True)
          else (setting, False)
      | _ \<Rightarrow> (setting, False))"

definition config_setting_set_bool :: "config_setting \<Rightarrow> word32 \<Rightarrow> config_setting \<times> bool" where
  "config_setting_set_bool setting value =
     (if s_type setting = CONFIG_TYPE_NONE
      then (set_value (VIval value) (set_type CONFIG_TYPE_BOOL setting), True)
      else if s_type setting \<noteq> CONFIG_TYPE_BOOL then (setting, False)
      else (set_value (VIval value) setting, True))"

definition string_value :: "string option \<Rightarrow> config_setting config_value" where
  "string_value p = (case p of None \<Rightarrow> VZero | Some t \<Rightarrow> VSval t)"

definition config_setting_set_string :: "config_setting \<Rightarrow> string option \<Rightarrow> config_setting \<times> bool" where
  "config_setting_set_string setting value =
     (if s_type setting = CONFIG_TYPE_NONE
      then (set_value (string_value value) (set_type CONFIG_TYPE_STRING setting), True)
      else if s_type setting \<noteq> CONFIG_TYPE_STRING then (setting, False)
      else (set_value (string_value value) setting, True))"

definition config_setting_set_format :: "config_setting \<Rightarrow> int \<Rightarrow> config_setting \<times> bool" where
  "config_setting_set_format setting format =
     (if (s_type setting \<noteq> CONFIG_TYPE_INT \<and> s_type setting \<noteq> CONFIG_TYPE_INT64)
         \<or> (format \<noteq> CONFIG_FORMAT_DEFAULT \<and> format \<noteq> CONFIG_FORMAT_HEX)
      then (setting, False)
      else (set_format format setting, True))"

definition config_setting_get_format :: "config \<Rightarrow> config_setting \<Rightarrow> int" where
  "config_setting_get_format cfg setting =
     (if s_format setting \<noteq> 0 then s_format setting else default_format cfg)"

section \<open>Elements of arrays and lists\<close>

definition config_vector_checktype :: "config_setting \<Rightarrow> ctype \<Rightarrow> bool" where
  "config_vector_checktype vector type =
     (case list_ptr vector of
        None \<Rightarrow> True
      | Some xs \<Rightarrow>
          if length xs = 0 then True
          else if s_type vector = CONFIG_TYPE_LIST then True
          else s_type (xs ! 0) = type)"

definition config_setting_get_int_elem :: "config \<Rightarrow> config_setting \<Rightarrow> word32 \<Rightarrow> word32" where
  "config_setting_get_int_elem cfg vector idx =
     (case config_setting_get_elem vector idx of
        None \<Rightarrow> 0 | Some i \<Rightarrow> config_setting_get_int cfg (elems vector ! i))"

definition config_setting_get_int64_elem :: "config \<Rightarrow> config_setting \<Rightarrow> word32 \<Rightarrow> word64" where
  "config_setting_get_int64_elem cfg vector idx =
     (case config_setting_get_elem vector idx of
        None \<Rightarrow> 0 | Some i \<Rightarrow> config_setting_get_int64 cfg (elems vector ! i))"

definition config_setting_get_float_elem :: "config \<Rightarrow> config_setting \<Rightarrow> word32 \<Rightarrow> cdouble" where
  "config_setting_get_float_elem cfg vector idx =
     (case config_setting_get_elem vector idx of
        None \<Rightarrow> dzero | Some i \<Rightarrow> config_setting_get_float cfg (elems vector ! i))"

definition config_setting_get_bool_elem :: "config_setting \<Rightarrow> word32 \<Rightarrow> word32" where
  "config_setting_get_bool_elem vector idx =
     (case config_setting_get_elem vector idx of
        None \<Rightarrow> 0
      | Some i \<Rightarrow> if s_type (elems vector ! i) \<noteq> CONFIG_TYPE_BOOL then 0 else ival (elems vector ! i))"

definition config_setting_get_string_elem :: "config_setting \<Rightarrow> word32 \<Rightarrow> string option" where
  "config_setting_get_string_elem vector idx =
     (case config_setting_get_elem vector idx of
        None \<Rightarrow> None
      | Some i \<Rightarrow> if s_type (elems vector ! i) \<noteq> CONFIG_TYPE_STRING then None else sval (elems vector ! i))"

text \<open>
  Writing through the pointer to an element replaces the element in its list.
  The result is the updated vector and the returned pointer (an index).
\<close>

definition put_elem :: "config_setting \<Rightarrow> nat \<Rightarrow> config_setting \<times> bool \<Rightarrow> config_setting \<times> nat option" where
  "put_elem vector i r =
     (set_value (VList ((elems vector)[i := fst r])) vector, if snd r then Some i else None)"

definition config_setting_set_int_elem :: "config \<Rightarrow> config_setting \<Rightarrow> word32 \<Rightarrow> word32 \<Rightarrow>
    config_setting \<times> nat option" where
  "config_setting_set_int_elem cfg vector idx value =
     (if s_type vector \<noteq> CONFIG_TYPE_ARRAY \<and> s_type vector \<noteq> CONFIG_TYPE_LIST then (vector, None)
      else if sint idx < 0 then
        (if \<not> config_vector_checktype vector CONFIG_TYPE_INT then (vector, None)
         else (case config_setting_create vector None CONFIG_TYPE_INT of
             (v, None) \<Rightarrow> (v, None)
           | (v, Some i) \<Rightarrow> put_elem v i (config_setting_set_int cfg (elems v ! i) value)))
      else (case config_setting_get_elem vector idx of
          None \<Rightarrow> (vector, None)
        | Some i \<Rightarrow> put_elem vector i (config_setting_set_int cfg (elems vector ! i) value)))"

definition config_setting_set_int64_elem :: "config \<Rightarrow> config_setting \<Rightarrow> word32 \<Rightarrow> word64 \<Rightarrow>
    config_setting \<times> nat option" where
  "config_setting_set_int64_elem cfg vector idx value =
     (if s_type vector \<noteq> CONFIG_TYPE_ARRAY \<and> s_type vector \<noteq> CONFIG_TYPE_LIST then (vector, None)
      else if sint idx < 0 then
        (if \<not> config_vector_checktype vector CONFIG_TYPE_INT64 then (vector, None)
         else (case config_setting_create vector None CONFIG_TYPE_INT64 of
             (v, None) \<Rightarrow> (v, None)
           | (v, Some i) \<Rightarrow> put_elem v i (config_setting_set_int64 cfg (elems v ! i) value)))
      else (case config_setting_get_elem vector idx of
          None \<Rightarrow> (vector, None)
        | Some i \<Rightarrow> put_elem vector i (config_setting_set_int64 cfg (elems vector ! i) value)))"

definition config_setting_set_float_elem :: "config \<Rightarrow> config_setting \<Rightarrow> word32 \<Rightarrow> cdouble \<Rightarrow>
    config_setting \<times> nat option" where
  "config_setting_set_float_elem cfg vector idx value =
     (if s_type vector \<noteq> CONFIG_TYPE_ARRAY \<and> s_type vector \<noteq> CONFIG_TYPE_LIST then (vector, None)
      else if sint idx < 0 then
        (if \<not> config_vector_checktype vector CONFIG_TYPE_FLOAT then (vector, None)
         else (case config_setting_create vector None CONFIG_TYPE_FLOAT of
             (v, None) \<Rightarrow> (v, None)
           | (v, Some i) \<Rightarrow> put_elem v i (config_setting_set_float cfg (elems v ! i) value)))
      else (case config_setting_get_elem vector idx of
          None \<Rightarrow> (vector, None)
        | Some i \<Rightarrow> put_elem vector i (config_setting_set_float cfg (elems vector ! i) value)))"

definition config_setting_set_bool_elem :: "config_setting \<Rightarrow> word32 \<Rightarrow> word32 \<Rightarrow>
    config_setting \<times> nat option" where
  "config_setting_set_bool_elem vector idx value =
     (if s_type vector \<noteq> CONFIG_TYPE_ARRAY \<and> s_type vector \<noteq> CONFIG_TYPE_LIST then (vector, None)
      else if sint idx < 0 then
        (if \<not> config_vector_checktype vector CONFIG_TYPE_BOOL then (vector, None)
         else (case config_setting_create vector None CONFIG_TYPE_BOOL of
             (v, None) \<Rightarrow> (v, None)
           | (v, Some i) \<Rightarrow> put_elem v i (config_setting_set_bool (elems v ! i) value)))
      else (case config_setting_get_elem vector idx of
          None \<Rightarrow> (vector, None)
        | Some i \<Rightarrow> put_elem vector i (config_setting_set_bool (elems vector ! i) value)))"

definition config_setting_set_string_elem :: "config_setting \<Rightarrow> word32 \<Rightarrow> string option \<Rightarrow>
    config_setting \<times> nat option" where
  "config_setting_set_string_elem vector idx value =
     (if s_type vector \<noteq> CONFIG_TYPE_ARRAY \<and> s_type vector \<noteq> CONFIG_TYPE_LIST then (vector, None)
      else if sint idx < 0 then
        (if \<not> config_vector_checktype vector CONFIG_TYPE_STRING then (vector, None)
         else (case config_setting_create vector None CONFIG_TYPE_STRING of
             (v, None) \<Rightarrow> (v, None)
           | (v, Some i) \<Rightarrow> put_elem v i (config_setting_set_string (elems v ! i) value)))
      else (case config_setting_get_elem vector idx of
          None \<Rightarrow> (vector, None)
        | Some i \<Rightarrow> put_elem vector i (config_setting_set_string (elems vector ! i) value)))"

section \<open>Options of a configuration\<close>

definition config_set_include_dir :: "config \<Rightarrow> string \<Rightarrow> config" where
  "config_set_include_dir cfg dir = cfg\<lparr>include_dir := Some dir\<rparr>"

definition config_set_destructor :: "config \<Rightarrow> bool \<Rightarrow> config" where
  "config_set_destructor cfg d = cfg\<lparr>destructor := d\<rparr>"

definition config_set_tab_width :: "config \<Rightarrow> 16 word \<Rightarrow> config" where
  "config_set_tab_width cfg w = cfg\<lparr>tab_width := w AND 0x0F\<rparr>"

definition config_set_default_format :: "config \<Rightarrow> int \<Rightarrow> config" where
  "config_set_default_format cfg f = cfg\<lparr>default_format := f\<rparr>"

section \<open>Facts on scalars\<close>

lemma auto_convert_flag:
  "flags (config_set_auto_convert cfg b) AND CONFIG_OPTION_AUTOCONVERT \<noteq> 0 \<longleftrightarrow> b"
proof (cases b)
  case True
  have "bit (flags (config_set_auto_convert cfg b) AND CONFIG_OPTION_AUTOCONVERT) 0"
    using True by (simp add: config_set_auto_convert_def CONFIG_OPTION_AUTOCONVERT_def bit_simps)
  then show ?thesis using True by (metis bit_0_eq bot_apply bot_bool_def)
next
  case False
  have "(flags cfg AND NOT CONFIG_OPTION_AUTOCONVERT) AND CONFIG_OPTION_AUTOCONVERT = 0"
    by (simp add: and.assoc)
  then show ?thesis using False by (simp add: config_set_auto_convert_def)
qed

lemma get_auto_convert_set [simp]: "config_get_auto_convert (config_set_auto_convert cfg b) = b"
  using auto_convert_flag [of cfg b] by (simp add: config_get_auto_convert_def)

lemma flags_auto_convert:
  "(flags cfg AND CONFIG_OPTION_AUTOCONVERT \<noteq> 0) = config_get_auto_convert cfg"
  by (simp add: config_get_auto_convert_def)

lemma setter_keeps_name:
  "s_name (fst (config_setting_set_int cfg s i)) = s_name s"
  "s_name (fst (config_setting_set_int64 cfg s l)) = s_name s"
  "s_name (fst (config_setting_set_float cfg s d)) = s_name s"
  "s_name (fst (config_setting_set_bool s i)) = s_name s"
  "s_name (fst (config_setting_set_string s t)) = s_name s"
  by (simp_all add: config_setting_set_int_def config_setting_set_int64_def
      config_setting_set_float_def config_setting_set_bool_def config_setting_set_string_def
      split: ctype.split)

lemma setter_keeps_type:
  assumes "s_type s \<noteq> CONFIG_TYPE_NONE"
  shows "s_type (fst (config_setting_set_int cfg s i)) = s_type s"
  "s_type (fst (config_setting_set_int64 cfg s l)) = s_type s"
  "s_type (fst (config_setting_set_float cfg s d)) = s_type s"
  "s_type (fst (config_setting_set_bool s i)) = s_type s"
  "s_type (fst (config_setting_set_string s t)) = s_type s"
  using assms by (simp_all add: config_setting_set_int_def config_setting_set_int64_def
      config_setting_set_float_def config_setting_set_bool_def config_setting_set_string_def
      split: ctype.split)

lemma wf_scalar:
  "tag_ok (s_type s) v \<Longrightarrow> s_type s \<notin> {CONFIG_TYPE_GROUP, CONFIG_TYPE_ARRAY, CONFIG_TYPE_LIST} \<Longrightarrow>
   wf_setting (set_value v s)"
  by (auto simp: set_value_def split: config_value.splits)

lemma setter_keeps_wf:
  assumes "wf_setting s"
  shows "wf_setting (fst (config_setting_set_int cfg s i))"
  "wf_setting (fst (config_setting_set_int64 cfg s l))"
  "wf_setting (fst (config_setting_set_float cfg s d))"
  "wf_setting (fst (config_setting_set_bool s i))"
  "wf_setting (fst (config_setting_set_string s t))"
  using assms by (auto simp: config_setting_set_int_def config_setting_set_int64_def
      config_setting_set_float_def config_setting_set_bool_def config_setting_set_string_def
      string_value_def intro!: wf_scalar split: ctype.split option.split)


section \<open>Arrays have elements of one type\<close>

text \<open>
  The documented contract of an array: all elements have the same scalar type.
  A script of element writes, with any indices and values, keeps it.
\<close>

datatype elem_op =
    SetInt word32 word32 | SetInt64 word32 word64 | SetFloat word32 cdouble
  | SetBool word32 word32 | SetString word32 "string option"

fun do_elem_op :: "config \<Rightarrow> elem_op \<Rightarrow> config_setting \<Rightarrow> config_setting" where
  "do_elem_op cfg (SetInt i x) v = fst (config_setting_set_int_elem cfg v i x)"
| "do_elem_op cfg (SetInt64 i x) v = fst (config_setting_set_int64_elem cfg v i x)"
| "do_elem_op cfg (SetFloat i x) v = fst (config_setting_set_float_elem cfg v i x)"
| "do_elem_op cfg (SetBool i x) v = fst (config_setting_set_bool_elem v i x)"
| "do_elem_op cfg (SetString i x) v = fst (config_setting_set_string_elem v i x)"

definition uniform :: "config_setting list \<Rightarrow> bool" where
  "uniform xs \<longleftrightarrow> (\<forall>x\<in>set xs. s_type x = s_type (xs ! 0) \<and> s_type x \<noteq> CONFIG_TYPE_NONE)"

definition uniform_array :: "config_setting \<Rightarrow> bool" where
  "uniform_array v \<longleftrightarrow> s_type v = CONFIG_TYPE_ARRAY \<and> wf_setting v \<and> uniform (elems v)"

lemma names_ok_array: "t \<noteq> CONFIG_TYPE_GROUP \<Longrightarrow> names_ok t xs \<longleftrightarrow> (\<forall>x\<in>set xs. s_name x = None)"
  by (simp add: names_ok_def)

lemma uniform_array_put:
  assumes v: "uniform_array v" and i: "i < length (elems v)"
    and r: "s_type r = s_type (elems v ! i)" "s_name r = None" "wf_setting r"
  shows "uniform_array (set_value (VList ((elems v)[i := r])) v)"
proof -
  have wf: "wf_setting v" "s_type v = CONFIG_TYPE_ARRAY" and u: "uniform (elems v)"
    using v by (simp_all add: uniform_array_def)
  have "wf_setting (set_value (VList ((elems v)[i := r])) v)"
    using wf wf_setting_iff [of v] r(2,3)
    by (intro wf_set_list)
      (auto simp: is_aggregate_def names_ok_array dest!: set_update_subset_insert [THEN subsetD])
  moreover have "uniform ((elems v)[i := r])"
  proof -
    have t: "s_type ((elems v)[i := r] ! k) = s_type (elems v ! k)" if "k < length (elems v)" for k
      using r(1) that i by (cases "k = i") simp_all
    have "0 < length (elems v)" using i by auto
    then have t0: "s_type ((elems v)[i := r] ! 0) = s_type (elems v ! 0)" by (rule t)
    show ?thesis
      using u t t0 unfolding uniform_def all_set_conv_all_nth by (metis length_list_update)
  qed
  ultimately show ?thesis using wf by (simp add: uniform_array_def)
qed

lemma uniform_append:
  assumes "uniform xs" "xs \<noteq> [] \<longrightarrow> s_type (xs ! 0) = s_type x" "s_type x \<noteq> CONFIG_TYPE_NONE"
  shows "uniform (xs @ [x])"
  using assms by (cases xs) (auto simp: uniform_def)

lemma uniform_array_append:
  assumes v: "uniform_array v" and c: "config_vector_checktype v t" and t: "t \<noteq> CONFIG_TYPE_NONE"
    and cr: "config_setting_create v None t = (w, Some i)"
  shows "uniform_array w" "i < length (elems w)" "elems w ! i = new_setting None t"
proof -
  have wf: "wf_setting v" "s_type v = CONFIG_TYPE_ARRAY" and u: "uniform (elems v)"
    using v by (simp_all add: uniform_array_def)
  then have w: "w = set_value (VList (elems v @ [new_setting None t])) v" "i = length (elems v)"
    using cr by (auto simp: config_setting_create_spec is_aggregate_def)
  have "wf_setting w"
    using config_setting_create_wf [of v t] wf cr by simp
  moreover have "elems v \<noteq> [] \<longrightarrow> s_type (elems v ! 0) = t"
    using c wf(2) by (auto simp: config_vector_checktype_def elems_def split: option.splits)
  then have "uniform (elems v @ [new_setting None t])"
    using u t by (intro uniform_append) simp_all
  ultimately show "uniform_array w" using w wf by (simp add: uniform_array_def)
  show "i < length (elems w)" "elems w ! i = new_setting None t"
    using w by simp_all
qed

lemma uniform_array_get_elem:
  assumes "uniform_array v" "config_setting_get_elem v idx = Some i"
  shows "i < length (elems v)" "s_type (elems v ! i) \<noteq> CONFIG_TYPE_NONE"
    "s_name (elems v ! i) = None" "wf_setting (elems v ! i)"
  using assms wf_setting_iff [of v]
  by (auto simp: config_setting_get_elem_def uniform_array_def uniform_def names_ok_array split: if_splits)

lemma uniform_array_set_elem:
  assumes v: "uniform_array v" and t: "t \<noteq> CONFIG_TYPE_NONE"
    and setter: "\<And>s. s_name (fst (f s)) = s_name s" "\<And>s. wf_setting s \<Longrightarrow> wf_setting (fst (f s))"
      "\<And>s. s_type s \<noteq> CONFIG_TYPE_NONE \<Longrightarrow> s_type (fst (f s)) = s_type s"
  shows "uniform_array (fst
     (if s_type v \<noteq> CONFIG_TYPE_ARRAY \<and> s_type v \<noteq> CONFIG_TYPE_LIST then (v, None)
      else if sint idx < 0 then
        (if \<not> config_vector_checktype v t then (v, None)
         else (case config_setting_create v None t of
             (w, None) \<Rightarrow> (w, None) | (w, Some i) \<Rightarrow> put_elem w i (f (elems w ! i))))
      else (case config_setting_get_elem v idx of
          None \<Rightarrow> (v, None) | Some i \<Rightarrow> put_elem v i (f (elems v ! i)))))"
proof -
  have app: "uniform_array (fst (put_elem w i (f (elems w ! i))))"
    if c: "config_vector_checktype v t" and "config_setting_create v None t = (w, Some i)" for w i
    using uniform_array_append [OF v c t that(2)] setter t
    by (auto simp: put_elem_def intro!: uniform_array_put)
  have cr: "uniform_array w" if "config_setting_create v None t = (w, None)" for w
    using that v by (auto simp: config_setting_create_spec split: if_splits)
  have put: "uniform_array (fst (put_elem v i (f (elems v ! i))))"
    if "config_setting_get_elem v idx = Some i" for i
    using uniform_array_get_elem [OF v that] setter v
    by (auto simp: put_elem_def intro!: uniform_array_put)
  show ?thesis using v app cr put by (auto split: prod.splits option.splits)
qed

lemma uniform_array_op: "uniform_array v \<Longrightarrow> uniform_array (do_elem_op cfg op v)"
  by (cases op) (simp_all only: do_elem_op.simps config_setting_set_int_elem_def
      config_setting_set_int64_elem_def config_setting_set_float_elem_def
      config_setting_set_bool_elem_def config_setting_set_string_elem_def,
    (rule uniform_array_set_elem; simp add: setter_keeps_name setter_keeps_type setter_keeps_wf)+)

section \<open>Reading back what was written\<close>

lemma float_of_int_exact: "\<bar>i\<bar> < 2 ^ 24 \<Longrightarrow> dtrunc (float_of_int i) = Some i"
  by (simp add: float_of_int_def of_int_prec_exact Let_def)

lemma int_of_double_float_of_int:
  "\<bar>sint (v :: word32)\<bar> < 2 ^ 24 \<Longrightarrow> int_of_double (float_of_int (sint v)) = v"
  by (auto simp: int_of_double_def float_of_int_exact)

lemma llong_of_double_float_of_int:
  "\<bar>i\<bar> < 2 ^ 24 \<Longrightarrow> llong_of_double (float_of_int i) = word_of_int i"
  by (auto simp: llong_of_double_def float_of_int_exact)

lemma field_reads [simp]:
  "ival (set_value (VIval i) s) = i" "llval (set_value (VLlval l) s) = l"
  "fval (set_value (VFval d) s) = d" "sval (set_value (string_value t) s) = t"
  by (simp_all add: ival_def llval_def fval_def sval_def string_value_def split: option.split)

lemma sint_of_sint32: "sint (word_of_int (sint (v :: word32)) :: word64) = sint v"
proof -
  have "- (2 ^ 63) \<le> sint v" "sint v < 2 ^ 63"
    using sint32_range [of v] by simp_all
  then show ?thesis by (subst sint_sbintrunc') (simp add: signed_take_bit_int_eq_self)
qed

lemma sint_narrow32:
  "INT32_MIN \<le> i \<Longrightarrow> i \<le> INT32_MAX \<Longrightarrow> sint (word_of_int i :: word32) = i"
  by (simp add: signed_of_int signed_take_bit_int_eq_self INT32_MIN_def INT32_MAX_def)

section \<open>Properties\<close>

text \<open>
  C25. Arrays stay uniform: however the element setters are called on an array
  whose elements have one type, with indices in or out of range, negative ones
  (append) and values of any type, all elements keep one type.
\<close>

theorem elem_setters_keep_array_uniform:
  assumes "uniform_array v"
  shows "uniform_array (fold (do_elem_op cfg) ops v)"
  using assms by (induction ops arbitrary: v) (simp_all add: uniform_array_op)

theorem elem_setters_keep_array_uniform_witness:
  "uniform_array (fold (do_elem_op config_init)
     [SetInt (-1) 5, SetString (-1) None, SetBool 0 1, SetInt64 7 9] (new_setting None CONFIG_TYPE_ARRAY))"
  by (rule elem_setters_keep_array_uniform) (simp add: uniform_array_def uniform_def)

text \<open>
  C28. An \<open>int\<close> that a setting accepts is read back unchanged, as \<open>int\<close> and as
  \<open>long long\<close>, whatever the type of the setting; in a floating point setting
  (automatic conversion) this holds for magnitudes below 2^24.
\<close>

theorem set_int_read_back:
  assumes "config_setting_set_int cfg s v = (s', True)"
    and "s_type s = CONFIG_TYPE_FLOAT \<Longrightarrow> \<bar>sint v\<bar> < 2 ^ 24"
  shows "get_int_value cfg s' = Some v \<and> get_int64_value cfg s' = Some (word_of_int (sint v))"
  using assms
  by (cases "s_type s")
    (auto simp: config_setting_set_int_def get_int_value_def get_int64_value_def
      int_of_double_float_of_int llong_of_double_float_of_int flags_auto_convert split: if_splits)

theorem set_int_read_back_witness:
  "get_int_value (config_set_auto_convert config_init True)
     (set_value (VFval (float_of_int (-7))) (new_setting None CONFIG_TYPE_FLOAT)) = Some (- 7)"
  using set_int_read_back [of "config_set_auto_convert config_init True"
      "new_setting None CONFIG_TYPE_FLOAT" "- 7"
      "set_value (VFval (float_of_int (-7))) (new_setting None CONFIG_TYPE_FLOAT)"]
  by (simp add: config_setting_set_int_def)

text \<open>
  The conversion goes through \<open>float\<close>, not \<open>double\<close>: with automatic
  conversion on, storing 2^24 + 1 in a floating point setting returns
  \<open>CONFIG_TRUE\<close>, and reading it gives 2^24, although the setting holds a
  \<open>double\<close> that could represent the value.
\<close>

theorem set_int_float_loses_precision:
  assumes "config_get_auto_convert cfg" "s_type s = CONFIG_TYPE_FLOAT"
  shows "snd (config_setting_set_int cfg s 16777217) \<and>
    get_int_value cfg (fst (config_setting_set_int cfg s 16777217)) = Some 16777216 \<and>
    dtrunc (double_of_int 16777217) = Some 16777217"
proof -
  have "float_of_int 16777217 = Finite False 8388608 1"
    by (simp add: float_of_int_def of_int_prec_def round_sig_def bitlen.simps round_half_even_def Let_def)
  then show ?thesis
    using assms
    by (simp add: config_setting_set_int_def get_int_value_def flags_auto_convert int_of_double_def
        dtrunc_double_of_int)
qed

theorem set_int_float_loses_precision_witness:
  "get_int_value (config_set_auto_convert config_init True)
     (fst (config_setting_set_int (config_set_auto_convert config_init True)
        (new_setting None CONFIG_TYPE_FLOAT) 16777217)) = Some 16777216"
  using set_int_float_loses_precision
    [of "config_set_auto_convert config_init True" "new_setting None CONFIG_TYPE_FLOAT"] by simp

text \<open>
  A \<open>long long\<close> written to a setting is read back as it was by a 64-bit or
  fresh setting; a 32-bit setting accepts it too, keeps it when it fits and
  silently holds 0 when it does not.
\<close>

theorem set_int64_read_back:
  assumes "config_setting_set_int64 cfg s v = (s', True)" "s_type s \<noteq> CONFIG_TYPE_FLOAT"
  shows "get_int64_value cfg s' = Some
     (if s_type s = CONFIG_TYPE_INT \<and> \<not> (INT32_MIN \<le> sint v \<and> sint v \<le> INT32_MAX) then 0 else v)"
  using assms sint_narrow32 [of "sint v"]
  by (cases "s_type s")
    (auto simp: config_setting_set_int64_def get_int64_value_def split: if_splits)

theorem set_int64_read_back_witness:
  "get_int64_value config_init
     (set_value (VIval 0) (new_setting None CONFIG_TYPE_INT)) = Some 0"
  using set_int64_read_back [of config_init "new_setting None CONFIG_TYPE_INT" "0x80000000"
      "set_value (VIval 0) (new_setting None CONFIG_TYPE_INT)"]
  by (simp add: config_setting_set_int64_def INT32_MAX_def)

end
