(* ===== verification/Lookup.thy ===== *)
theory Lookup
  imports SettingValue
begin

text \<open>
  Finding settings by path (\<open>config_lookup_from\<close> and the \<open>config_lookup_*\<close>
  functions of \<open>lib/libconfig.c\<close>) and the inverse, the path of a setting
  (\<open>__constructPath\<close> of \<open>lib/libconfigcpp.c++\<close>).  A \<open>config_setting_t *\<close> into
  the tree below a setting is the list of child indices that leads to it.
\<close>

section \<open>Pointers into a tree\<close>

fun setting_at :: "config_setting \<Rightarrow> nat list \<Rightarrow> config_setting option" where
  "setting_at s [] = Some s"
| "setting_at s (i # ip) = (if i < length (elems s) then setting_at (elems s ! i) ip else None)"

lemma setting_at_append:
  "setting_at s (ip @ iq) = (case setting_at s ip of None \<Rightarrow> None | Some t \<Rightarrow> setting_at t iq)"
  by (induction s ip rule: setting_at.induct) simp_all

lemma wf_setting_elem: "wf_setting s \<Longrightarrow> i < length (elems s) \<Longrightarrow> wf_setting (elems s ! i)"
  using wf_setting_iff [of s] by auto

text \<open>Pointers compare equal iff they lead to the same place.\<close>

definition config_setting_index :: "config_setting \<Rightarrow> nat list \<Rightarrow> int" where
  "config_setting_index rt ip =
     (if ip = [] then -1
      else (case setting_at rt (butlast ip) of
          None \<Rightarrow> -1
        | Some parent \<Rightarrow>
            (case find (\<lambda>i. butlast ip @ [i] = ip) [0..<length (elems parent)] of
               None \<Rightarrow> -1 | Some i \<Rightarrow> int i)))"

section \<open>Lookup\<close>

lemma dropWhile_hd: "dropWhile Q p = c # r \<Longrightarrow> \<not> Q c"
  by (induction p) (auto split: if_splits)

lemma length_dropWhile: "length (dropWhile Q p) \<le> length p"
  by (induction p) auto

function config_lookup_from :: "config_setting \<Rightarrow> string \<Rightarrow> nat list option" where
  "config_lookup_from setting path =
     (case dropWhile is_token path of
        [] \<Rightarrow> Some []
      | c # r \<Rightarrow>
          let p = (if c = CHR ''['' then r else c # r);
              found = (if c = CHR ''['' then config_setting_get_elem setting (atoi p)
                       else config_setting_get_member setting p)
          in (case found of
                None \<Rightarrow> if p \<noteq> [] then None else Some []
              | Some i \<Rightarrow> map_option (Cons i)
                    (config_lookup_from (elems setting ! i) (dropWhile (\<lambda>c. \<not> is_token c) p))))"
  by pat_completeness auto

termination
proof (relation "measure (\<lambda>(s, p). length p)", goal_cases)
  case (2 setting path c r p found i)
  from 2(1) have nt: "\<not> is_token c" by (rule dropWhile_hd)
  have "length (c # r) \<le> length path"
    using length_dropWhile [of is_token path] unfolding 2(1) .
  moreover have "length (dropWhile (\<lambda>c. \<not> is_token c) p) \<le> length r"
    using nt 2(2) length_dropWhile [of "\<lambda>c. \<not> is_token c" r] by auto
  ultimately show ?case by simp
qed simp

declare config_lookup_from.simps [simp del]

definition config_lookup :: "config \<Rightarrow> string \<Rightarrow> nat list option" where
  "config_lookup cfg path = config_lookup_from (root cfg) path"

text \<open>The setting the returned pointer leads to.\<close>

definition looked_up :: "config \<Rightarrow> string \<Rightarrow> config_setting option" where
  "looked_up cfg path =
     (case config_lookup cfg path of None \<Rightarrow> None | Some ip \<Rightarrow> setting_at (root cfg) ip)"

definition config_lookup_string :: "config \<Rightarrow> string \<Rightarrow> string option option" where
  "config_lookup_string cfg path =
     (case looked_up cfg path of
        None \<Rightarrow> None
      | Some s \<Rightarrow> if s_type s \<noteq> CONFIG_TYPE_STRING then None else Some (config_setting_get_string s))"

definition config_lookup_int :: "config \<Rightarrow> string \<Rightarrow> word32 option" where
  "config_lookup_int cfg path =
     (case looked_up cfg path of None \<Rightarrow> None | Some s \<Rightarrow> get_int_value cfg s)"

definition config_lookup_int64 :: "config \<Rightarrow> string \<Rightarrow> word64 option" where
  "config_lookup_int64 cfg path =
     (case looked_up cfg path of None \<Rightarrow> None | Some s \<Rightarrow> get_int64_value cfg s)"

definition config_lookup_float :: "config \<Rightarrow> string \<Rightarrow> cdouble option" where
  "config_lookup_float cfg path =
     (case looked_up cfg path of None \<Rightarrow> None | Some s \<Rightarrow> get_float_value cfg s)"

definition config_lookup_bool :: "config \<Rightarrow> string \<Rightarrow> word32 option" where
  "config_lookup_bool cfg path =
     (case looked_up cfg path of
        None \<Rightarrow> None
      | Some s \<Rightarrow> if s_type s \<noteq> CONFIG_TYPE_BOOL then None else Some (config_setting_get_bool s))"

section \<open>The path of a setting\<close>

definition path_component :: "config_setting \<Rightarrow> nat list \<Rightarrow> string" where
  "path_component rt ip =
     (case setting_at rt ip of
        None \<Rightarrow> ''''
      | Some s \<Rightarrow> (case s_name s of
            Some n \<Rightarrow> n
          | None \<Rightarrow> ''['' @ show_int (config_setting_index rt ip) @ '']''))"

function constructPath :: "config_setting \<Rightarrow> nat list \<Rightarrow> string" where
  "constructPath rt ip =
     (if ip = [] then ''''
      else let path = constructPath rt (butlast ip)
           in (if length path > 0 then path @ ''.'' else path) @ path_component rt ip)"
  by pat_completeness auto
termination
  by (relation "measure (\<lambda>(s, ip). length ip)") auto

declare constructPath.simps [simp del]

lemma lookup_from_Nil: "dropWhile is_token p = [] \<Longrightarrow> config_lookup_from s p = Some []"
  by (subst config_lookup_from.simps) (simp only: list.case)

section \<open>A lookup delivers a pointer into the tree\<close>

lemma get_elem_bound: "config_setting_get_elem s idx = Some i \<Longrightarrow> i < length (elems s)"
  by (auto simp: config_setting_get_elem_def split: if_splits)

lemma get_member_bound: "config_setting_get_member s nm = Some i \<Longrightarrow> i < length (elems s)"
  by (auto simp: config_setting_get_member_def dest: config_list_search_SomeD split: if_splits)

lemma lookup_from_valid: "config_lookup_from s p = Some ip \<Longrightarrow> \<exists>t. setting_at s ip = Some t"
proof (induction s p arbitrary: ip rule: config_lookup_from.induct)
  case (1 s p)
  show ?case
  proof (cases "dropWhile is_token p")
    case Nil
    then show ?thesis using "1.prems" lookup_from_Nil by simp
  next
    case (Cons c r)
    define q where "q = (if c = CHR ''['' then r else c # r)"
    define found where "found = (if c = CHR ''['' then config_setting_get_elem s (atoi q)
                       else config_setting_get_member s q)"
    show ?thesis
    proof (cases found)
      case None
      then show ?thesis
        using "1.prems" Cons
        by (auto simp: config_lookup_from.simps [of s p] q_def [symmetric] found_def [symmetric] split: if_splits)
    next
      case (Some i)
      then have i: "i < length (elems s)"
        by (auto simp: found_def dest: get_elem_bound get_member_bound split: if_splits)
      obtain jp where jp: "ip = i # jp"
          "config_lookup_from (elems s ! i) (dropWhile (\<lambda>c. \<not> is_token c) q) = Some jp"
        using "1.prems" Cons Some
        by (auto simp: config_lookup_from.simps [of s p] q_def [symmetric] found_def [symmetric])
      then show ?thesis using "1.IH" [OF Cons q_def found_def Some jp(2)] i by simp
    qed
  qed
qed

section \<open>Paths as component lists\<close>

text \<open>The components of a path, and the walk they prescribe.\<close>

function components :: "string \<Rightarrow> string list" where
  "components path =
     (case dropWhile is_token path of
        [] \<Rightarrow> []
      | c # r \<Rightarrow> name_part (c # r) # components (dropWhile (\<lambda>c. \<not> is_token c) r))"
  by pat_completeness auto
termination
proof (relation "measure length", goal_cases)
  case (2 path c r)
  have "length (c # r) \<le> length path"
    using length_dropWhile [of is_token path] unfolding 2 .
  then show ?case using length_dropWhile [of "\<lambda>c. \<not> is_token c" r] by simp
qed simp

declare components.simps [simp del]

definition child :: "config_setting \<Rightarrow> string \<Rightarrow> nat option" where
  "child s c = (case c of
      [] \<Rightarrow> None
    | d # r \<Rightarrow> if d = CHR ''['' then config_setting_get_elem s (atoi r) else config_setting_get_member s c)"

fun walk :: "config_setting \<Rightarrow> string list \<Rightarrow> nat list option" where
  "walk s [] = Some []"
| "walk s (c # cs) =
     (case child s c of None \<Rightarrow> None | Some i \<Rightarrow> map_option (Cons i) (walk (elems s ! i) cs))"

lemma is_token_code: "is_token c \<Longrightarrow> code c = 58 \<or> code c = 46 \<or> code c = 47"
  by (auto simp: is_token_def PATH_TOKENS_def)

lemma token_props:
  "is_token c \<Longrightarrow> \<not> isspace c \<and> \<not> isdigit c \<and> c \<noteq> CHR ''-'' \<and> c \<noteq> CHR ''+'' \<and> c \<noteq> CHR ''[''"
  by (auto simp: is_token_def PATH_TOKENS_def isspace_def isdigit_def)

lemma dropWhile_takeWhile:
  "(\<And>c. Q c \<Longrightarrow> R c) \<Longrightarrow> dropWhile Q (takeWhile R xs) = takeWhile R (dropWhile Q xs)"
  by (induction xs) auto

lemma takeWhile_takeWhile:
  "(\<And>c. Q c \<Longrightarrow> R c) \<Longrightarrow> takeWhile Q (takeWhile R xs) = takeWhile Q xs"
  by (induction xs) auto

lemma strtol10_name_part: "strtol10 (name_part r) = strtol10 r"
proof -
  have sp: "dropWhile isspace (name_part r) = name_part (dropWhile isspace r)"
    unfolding name_part_def by (rule dropWhile_takeWhile) (use token_props in blast)
  have dg: "takeWhile isdigit (name_part u) = takeWhile isdigit u" for u
    unfolding name_part_def by (rule takeWhile_takeWhile) (use token_props in blast)
  have np: "name_part (c # u) = (if is_token c then [] else c # name_part u)" for c u
    by (simp add: name_part_def)
  have e: "name_part [] = []" by (simp add: name_part_def)
  obtain t where t: "dropWhile isspace r = t" by simp
  show ?thesis
    unfolding strtol10_def sp t by (cases t) (auto simp: np e dg dest: token_props)
qed

lemma search_name_part: "config_list_search xs (name_part nm) = config_list_search xs nm"
proof -
  have "name_part (name_part nm) = name_part nm"
    by (simp add: name_part_def takeWhile_takeWhile)
  then have "config_name_compare (name_part nm) n = 0 \<longleftrightarrow> config_name_compare nm n = 0" for n
    by (simp add: name_compare_eq)
  then show ?thesis by (induction xs) (simp_all split: option.split)
qed

lemma child_name_part:
  assumes "\<not> is_token c"
  shows "child s (name_part (c # r)) =
    (if c = CHR ''['' then config_setting_get_elem s (atoi r) else config_setting_get_member s (c # r))"
proof -
  have n: "name_part (c # r) = c # name_part r"
    using assms by (simp add: name_part_def)
  show ?thesis
    using strtol10_name_part [of r] search_name_part [of "elems s" "c # r"] unfolding n
    by (simp add: child_def atoi_def config_setting_get_member_def)
qed

lemma dropWhile_bracket: "\<not> is_token c \<Longrightarrow>
  dropWhile (\<lambda>c. \<not> is_token c) (if c = CHR ''['' then r else c # r) = dropWhile (\<lambda>c. \<not> is_token c) r"
  by simp

lemma lookup_from_walk:
  assumes "p = [] \<or> last p \<noteq> CHR ''[''"
  shows "config_lookup_from s p = walk s (components p)"
  using assms
proof (induction s p rule: config_lookup_from.induct)
  case (1 s p)
  show ?case
  proof (cases "dropWhile is_token p")
    case Nil
    then have "components p = []" by (subst components.simps) (simp only: list.case)
    then show ?thesis using lookup_from_Nil [OF Nil] by simp
  next
    case (Cons c r)
    define q where "q = (if c = CHR ''['' then r else c # r)"
    define found where "found = (if c = CHR ''['' then config_setting_get_elem s (atoi q)
                       else config_setting_get_member s q)"
    have nt: "\<not> is_token c" using Cons by (rule dropWhile_hd)
    obtain pre where pre: "p = pre @ c # r" using Cons takeWhile_dropWhile_id [of is_token p] by metis
    have ne: "q \<noteq> []" using "1.prems" pre by (auto simp: q_def)
    have found: "found = child s (name_part (c # r))"
      using child_name_part [OF nt, of s r] by (simp add: found_def q_def)
    have dr: "dropWhile (\<lambda>c. \<not> is_token c) q = dropWhile (\<lambda>c. \<not> is_token c) r"
      unfolding q_def by (rule dropWhile_bracket [OF nt])
    have comps: "components p = name_part (c # r) # components (dropWhile (\<lambda>c. \<not> is_token c) r)"
      using Cons by (simp add: components.simps [of p])
    show ?thesis
    proof (cases found)
      case None
      then show ?thesis
        using Cons ne found comps
        by (simp add: config_lookup_from.simps [of s p] q_def [symmetric] found_def [symmetric])
    next
      case (Some i)
      have "dropWhile (\<lambda>c. \<not> is_token c) r = [] \<or> last (dropWhile (\<lambda>c. \<not> is_token c) r) \<noteq> CHR ''[''"
      proof (cases "dropWhile (\<lambda>c. \<not> is_token c) r = []")
        case False
        then have "last (dropWhile (\<lambda>c. \<not> is_token c) r) = last p"
          using pre takeWhile_dropWhile_id [of "\<lambda>c. \<not> is_token c" r]
          by (metis append_is_Nil_conv last_ConsR last_append list.distinct(1))
        then show ?thesis using "1.prems" pre by simp
      qed simp
      then show ?thesis
        using "1.IH" [OF Cons q_def found_def Some] Cons Some found comps dr
        by (simp add: config_lookup_from.simps [of s p] q_def [symmetric] found_def [symmetric])
    qed
  qed
qed

section \<open>Paths of settings\<close>

text \<open>Every list of children is within the range of an \<open>int\<close> index.\<close>

fun small :: "config_setting \<Rightarrow> bool" where
  "small (Setting n t f v h l fl) =
     (case v of VList xs \<Rightarrow> length xs < 2 ^ 31 \<and> (\<forall>x\<in>set xs. small x) | _ \<Rightarrow> True)"

lemma smallD:
  assumes "small s"
  shows "length (elems s) < 2 ^ 31" "i < length (elems s) \<Longrightarrow> small (elems s ! i)"
  using assms by (cases s; auto simp: elems_def list_ptr_def split: config_value.splits)+

definition step_name :: "config_setting \<Rightarrow> nat \<Rightarrow> string" where
  "step_name s i = (case s_name (elems s ! i) of Some n \<Rightarrow> n | None \<Rightarrow> ''['' @ show_int (int i) @ '']'')"

fun comps :: "config_setting \<Rightarrow> nat list \<Rightarrow> string list" where
  "comps s [] = []"
| "comps s (i # ip) = step_name s i # comps (elems s ! i) ip"

fun join :: "string list \<Rightarrow> string" where
  "join [] = []"
| "join [c] = c"
| "join (c # cs) = c @ CHR ''.'' # join cs"

lemma join_snoc: "join (cs @ [c]) = (if cs = [] then c else join cs @ CHR ''.'' # c)"
  by (induction cs rule: join.induct) auto

definition plain :: "string \<Rightarrow> bool" where
  "plain c \<longleftrightarrow> c \<noteq> [] \<and> (\<forall>x\<in>set c. \<not> is_token x) \<and> last c \<noteq> CHR ''[''"

lemma join_eq_Nil: "\<forall>c\<in>set cs. plain c \<Longrightarrow> join cs = [] \<longleftrightarrow> cs = []"
  by (induction cs rule: join.induct) (auto simp: plain_def)

lemma join_last: "\<forall>c\<in>set cs. plain c \<Longrightarrow> cs \<noteq> [] \<Longrightarrow> last (join cs) \<noteq> CHR ''[''"
  by (induction cs rule: join.induct) (auto simp: plain_def join_eq_Nil)

lemma components_step:
  assumes "plain c" "rest = [] \<or> is_token (hd rest)"
  shows "components (c @ rest) = c # components rest"
proof -
  obtain d r where c: "c = d # r" using assms(1) by (cases c) (auto simp: plain_def)
  have dr: "dropWhile is_token (c @ rest) = d # (r @ rest)"
    using assms(1) c by (simp add: plain_def)
  have "\<forall>x\<in>set r. \<not> is_token x" using assms(1) c by (simp add: plain_def)
  then have "dropWhile (\<lambda>c. \<not> is_token c) (r @ rest) = rest"
    using assms(2) by (cases rest) (auto simp: dropWhile_append2)
  moreover have "name_part (d # (r @ rest)) = c"
    using assms c unfolding name_part_def plain_def
    by (cases rest) (auto simp: takeWhile_append2)
  ultimately show ?thesis
    by (subst components.simps) (simp add: dr)
qed

lemma components_Nil [simp]: "components [] = []"
  by (simp add: components.simps)

lemma components_dot [simp]: "components (CHR ''.'' # p) = components p"
proof -
  have "is_token (CHR ''.'')" by (simp add: is_token_def PATH_TOKENS_def)
  then have "dropWhile is_token (CHR ''.'' # p) = dropWhile is_token p" by simp
  then show ?thesis by (subst (1 2) components.simps) (simp only:)
qed

lemma components_join: "\<forall>c\<in>set cs. plain c \<Longrightarrow> components (join cs) = cs"
proof (induction cs rule: join.induct)
  case (2 c)
  then show ?case using components_step [of c "[]"] by simp
next
  case (3 c d cs)
  then show ?case
    using components_step [of c "CHR ''.'' # join (d # cs)"]
    by (simp add: is_token_def PATH_TOKENS_def)
qed simp

lemma digit_plain: "isdigit c \<Longrightarrow> \<not> is_token c"
  using token_props by blast

lemma valid_name_plain: "config_validate_name n \<Longrightarrow> plain n"
proof -
  assume v: "config_validate_name n"
  have "n \<noteq> []" using v by (simp add: config_validate_name_def split: list.splits)
  moreover have "c \<noteq> CHR ''[''" if "c \<in> set n" for c
    using v that by (auto simp: config_validate_name_def isalpha_def isdigit_def list_all_iff split: list.splits)
  ultimately show ?thesis
    using valid_name_chars [OF v] last_in_set [of n] by (auto simp: plain_def)
qed

lemma member_name_valid:
  assumes "wf_setting s" "i < length (elems s)" "s_name (elems s ! i) = Some n"
  shows "s_type s = CONFIG_TYPE_GROUP" "config_validate_name n"
proof -
  have ok: "names_ok (s_type s) (elems s)" and m: "elems s ! i \<in> set (elems s)"
    using assms wf_setting_iff [of s] by auto
  show g: "s_type s = CONFIG_TYPE_GROUP"
    using ok m assms(3) unfolding names_ok_def by (metis option.distinct(1))
  show "config_validate_name n"
    using ok m assms(3) unfolding names_ok_def if_P [OF g] by (metis option.inject)
qed

lemma step_name_plain:
  assumes "wf_setting s" "i < length (elems s)"
  shows "plain (step_name s i)"
proof (cases "s_name (elems s ! i)")
  case None
  have "\<not> is_token (CHR ''['')" "\<not> is_token (CHR '']'')" by (auto simp: is_token_def PATH_TOKENS_def)
  then show ?thesis
    using None show_nat_digits [of i] digit_plain by (auto simp: step_name_def plain_def show_int_def)
next
  case (Some n)
  then have "config_validate_name n" using member_name_valid [OF assms] by simp
  then show ?thesis using Some by (simp add: step_name_def valid_name_plain)
qed

lemma setting_at_Cons: "setting_at s (i # ip) = Some t \<Longrightarrow> i < length (elems s) \<and> setting_at (elems s ! i) ip = Some t"
  by (simp split: if_splits)

lemma comps_plain:
  "wf_setting s \<Longrightarrow> setting_at s ip = Some t \<Longrightarrow> \<forall>c\<in>set (comps s ip). plain c"
proof (induction ip arbitrary: s)
  case (Cons i ip)
  then have i: "i < length (elems s)" "setting_at (elems s ! i) ip = Some t"
    using setting_at_Cons by blast+
  then show ?case
    using Cons.IH [OF wf_setting_elem [OF Cons.prems(1) i(1)] i(2)] step_name_plain [OF Cons.prems(1) i(1)]
    by simp
qed simp

lemma child_step_name:
  assumes s: "wf_setting s" "small s" and i: "i < length (elems s)"
  shows "child s (step_name s i) = Some i"
proof -
  have lp: "list_ptr s \<noteq> None" using i by (auto simp: elems_def split: option.splits)
  then have agg: "is_aggregate s"
    using s(1) by (cases s) (auto simp: list_ptr_def is_aggregate_def split: config_value.splits)
  show ?thesis
  proof (cases "s_name (elems s ! i)")
    case None
    have b: "i < 2 ^ 31" using i smallD(1) [OF s(2)] by simp
    have "strtol10 (show_nat i @ '']'') = int i"
      using b by (intro strtol10_show_nat) (auto simp: isdigit_def)
    then have "atoi (show_int (int i) @ '']'') = of_nat i"
      by (simp add: atoi_def show_int_def)
    moreover have "unat (of_nat i :: word32) = i"
      using b by (simp add: unsigned_of_nat take_bit_nat_eq_self)
    ultimately show ?thesis
      using None lp agg i
      by (auto simp: step_name_def child_def config_setting_get_elem_def is_aggregate_def)
  next
    case (Some n)
    have g: "s_type s = CONFIG_TYPE_GROUP" and v: "config_validate_name n"
      using member_name_valid [OF s(1) i Some] by simp_all
    then have ok: "names_ok CONFIG_TYPE_GROUP (elems s)" using s(1) wf_setting_iff [of s] by simp
    obtain c r where n: "n = c # r" using v by (cases n) (auto simp: config_validate_name_def)
    have "c \<noteq> CHR ''[''" using v n by (auto simp: config_validate_name_def isalpha_def)
    note n = n this
    then have "child s n = config_list_search (elems s) n"
      using g by (simp add: child_def config_setting_get_member_def)
    then show ?thesis
      using config_list_search_iff [OF ok] i Some v by (simp add: step_name_def)
  qed
qed

lemma walk_comps:
  "wf_setting s \<Longrightarrow> small s \<Longrightarrow> setting_at s ip = Some t \<Longrightarrow> walk s (comps s ip) = Some ip"
proof (induction ip arbitrary: s)
  case (Cons i ip)
  then have i: "i < length (elems s)" "setting_at (elems s ! i) ip = Some t"
    using setting_at_Cons by blast+
  then show ?case
    using Cons.IH [OF wf_setting_elem [OF Cons.prems(1) i(1)] smallD(2) [OF Cons.prems(2) i(1)] i(2)]
      child_step_name [OF Cons.prems(1,2) i(1)] by simp
qed simp

lemma config_setting_index_eq:
  assumes "setting_at rt (ip @ [i]) = Some t"
  shows "config_setting_index rt (ip @ [i]) = int i"
proof -
  obtain p where p: "setting_at rt ip = Some p" "i < length (elems p)"
    using assms by (auto simp: setting_at_append split: option.splits if_splits)
  have "find (\<lambda>j. ip @ [j] = ip @ [i]) [0..<length (elems p)] = Some i"
    unfolding find_Some_iff using p(2) by (intro exI [of _ i]) auto
  then show ?thesis using p(1) by (simp add: config_setting_index_def)
qed

lemma comps_snoc: "setting_at s ip = Some p \<Longrightarrow> comps s (ip @ [i]) = comps s ip @ [step_name p i]"
  by (induction ip arbitrary: s) (auto split: if_splits)

lemma length_comps [simp]: "length (comps s ip) = length ip"
  by (induction ip arbitrary: s) auto

lemma constructPath_join:
  assumes "wf_setting rt"
  shows "setting_at rt ip = Some t \<Longrightarrow> constructPath rt ip = join (comps rt ip)"
proof (induction ip arbitrary: t rule: rev_induct)
  case (snoc i ip)
  obtain p where p: "setting_at rt ip = Some p" "i < length (elems p)" "t = elems p ! i"
    using snoc.prems by (auto simp: setting_at_append split: option.splits if_splits)
  have c: "path_component rt (ip @ [i]) = step_name p i"
    using snoc.prems p config_setting_index_eq [OF snoc.prems]
    by (simp add: path_component_def step_name_def split: option.split)
  have "join (comps rt ip) = [] \<longleftrightarrow> ip = []"
    using join_eq_Nil [OF comps_plain [OF assms p(1)]] length_comps [of rt ip] by (metis length_0_conv)
  moreover have "comps rt ip = [] \<longleftrightarrow> ip = []" by (metis length_0_conv length_comps)
  ultimately show ?case
    using snoc.IH [OF p(1)] c comps_snoc [OF p(1), of i]
    by (simp add: constructPath.simps [of rt "ip @ [i]"] join_snoc Let_def)
qed (simp add: constructPath.simps)

section \<open>Properties\<close>

text \<open>
  C24. The path of a setting leads back to it: in a well-formed tree whose
  lists fit an \<open>int\<close> index, looking up the path that \<open>Setting::getPath\<close> builds
  for any setting delivers the pointer to that very setting.
\<close>

theorem lookup_constructPath:
  assumes "wf_setting (root cfg)" "small (root cfg)" "setting_at (root cfg) ip = Some s"
  shows "config_lookup cfg (constructPath (root cfg) ip) = Some ip \<and>
    looked_up cfg (constructPath (root cfg) ip) = Some s"
proof -
  have p: "\<forall>c\<in>set (comps (root cfg) ip). plain c" by (rule comps_plain [OF assms(1,3)])
  have "join (comps (root cfg) ip) = [] \<or> last (join (comps (root cfg) ip)) \<noteq> CHR ''[''"
    using join_last [OF p] by (cases "comps (root cfg) ip = []") auto
  then have "config_lookup cfg (constructPath (root cfg) ip) = Some ip"
    using constructPath_join [OF assms(1,3)] lookup_from_walk components_join [OF p]
      walk_comps [OF assms]
    by (simp add: config_lookup_def)
  then show ?thesis using assms(3) by (simp add: looked_up_def)
qed

theorem lookup_constructPath_witness:
  "config_lookup (config_init\<lparr>root := Setting None CONFIG_TYPE_GROUP 0 (VList [Setting (Some ''mail'') CONFIG_TYPE_LIST 0
      (VList [new_setting None CONFIG_TYPE_INT, new_setting None CONFIG_TYPE_BOOL]) None 0 None]) None 0 None\<rparr>)
    (constructPath (Setting None CONFIG_TYPE_GROUP 0 (VList [Setting (Some ''mail'') CONFIG_TYPE_LIST 0
      (VList [new_setting None CONFIG_TYPE_INT, new_setting None CONFIG_TYPE_BOOL]) None 0 None]) None 0 None) [0, 1])
   = Some [0, 1]"
  using lookup_constructPath [of "config_init\<lparr>root := Setting None CONFIG_TYPE_GROUP 0 (VList [Setting (Some ''mail'') CONFIG_TYPE_LIST 0
      (VList [new_setting None CONFIG_TYPE_INT, new_setting None CONFIG_TYPE_BOOL]) None 0 None]) None 0 None\<rparr>"
      "[0, 1]" "new_setting None CONFIG_TYPE_BOOL"]
  by (simp add: names_ok_def config_validate_name_def isalpha_def isdigit_def new_setting_def elems_def list_ptr_def)

text \<open>
  C23. What a path means: a path not ending in an opening bracket is cut at the
  separators \<open>: . /\<close>, empty components are skipped, and each component selects
  a child, an element by index or a member by name.
\<close>

theorem config_lookup_walks_components:
  assumes "path = [] \<or> last path \<noteq> CHR ''[''"
  shows "config_lookup cfg path = walk (root cfg) (components path)"
  unfolding config_lookup_def by (rule lookup_from_walk [OF assms])

theorem config_lookup_walks_components_witness:
  "config_lookup config_init ''/a:b.'' = walk (root config_init) (components ''/a:b.'')"
  by (rule config_lookup_walks_components) simp

text \<open>
  C27. A lookup never leaves the tree: every pointer it delivers leads to a
  setting of the tree, and the typed lookups then succeed exactly on a setting
  of a type they can convert.
\<close>

theorem config_lookup_valid:
  assumes "config_lookup cfg path = Some ip"
  shows "\<exists>s. setting_at (root cfg) ip = Some s \<and> looked_up cfg path = Some s \<and>
    (config_lookup_string cfg path \<noteq> None \<longleftrightarrow> s_type s = CONFIG_TYPE_STRING) \<and>
    (config_lookup_bool cfg path \<noteq> None \<longleftrightarrow> s_type s = CONFIG_TYPE_BOOL) \<and>
    (config_lookup_int cfg path \<noteq> None \<longleftrightarrow> s_type s = CONFIG_TYPE_INT \<or> s_type s = CONFIG_TYPE_INT64
       \<or> s_type s = CONFIG_TYPE_FLOAT \<and> config_get_auto_convert cfg)"
proof -
  obtain s where "setting_at (root cfg) ip = Some s"
    using lookup_from_valid assms unfolding config_lookup_def by blast
  then show ?thesis
    using assms
    by (cases "s_type s")
      (simp_all add: looked_up_def config_lookup_string_def config_lookup_bool_def
        config_lookup_int_def get_int_value_def flags_auto_convert)
qed

theorem config_lookup_valid_witness:
  "\<exists>s. setting_at (root config_init) [] = Some s \<and> looked_up config_init ''//'' = Some s"
proof -
  have "config_lookup config_init ''//'' = Some []"
    by (simp add: config_lookup_def config_lookup_from.simps is_token_def PATH_TOKENS_def)
  from config_lookup_valid [OF this] show ?thesis by blast
qed

text \<open>
  A path that ends in an opening bracket is not rejected: when the setting
  before it has no element 0, the lookup delivers that setting itself instead
  of NULL.
\<close>

theorem config_lookup_open_bracket:
  assumes "elems s = []"
  shows "config_lookup_from s ''['' = Some []"
  using assms by (auto simp: config_lookup_from.simps [of s] is_token_def PATH_TOKENS_def
      config_setting_get_elem_def split: option.split)

theorem config_lookup_open_bracket_witness:
  "config_lookup_from (root config_init) ''['' = Some []"
  by (rule config_lookup_open_bracket) (simp add: config_init_def)

end
