(* ===== verification/SettingCpp.thy ===== *)
theory SettingCpp
  imports Lookup
begin

text \<open>
  The C++ interface to settings (\<open>lib/libconfigcpp.c++\<close>): classes \<open>Setting\<close> and
  \<open>Config\<close> with their exceptions.  A wrapper object stands for the setting it
  wraps, so the operations work on a configuration and the pointer of a
  setting (theory \<open>Lookup\<close>).  The wrappers' copy of the type is the type of the setting,
  which no operation of the interface changes; the hooks that tie wrappers to
  settings are not modelled.
\<close>

section \<open>Settings behind pointers\<close>

definition node :: "config \<Rightarrow> nat list \<Rightarrow> config_setting" where
  "node cfg ip = (case setting_at (root cfg) ip of Some s \<Rightarrow> s | None \<Rightarrow> new_setting None CONFIG_TYPE_NONE)"

text \<open>Writing through a pointer.\<close>

fun put_at :: "config_setting \<Rightarrow> nat list \<Rightarrow> config_setting \<Rightarrow> config_setting" where
  "put_at s [] t = t"
| "put_at s (i # ip) t =
     (if i < length (elems s) then set_value (VList ((elems s)[i := put_at (elems s ! i) ip t])) s else s)"

definition put_node :: "nat list \<Rightarrow> config_setting \<Rightarrow> config \<Rightarrow> config" where
  "put_node ip s cfg = cfg\<lparr>root := put_at (root cfg) ip s\<rparr>"

section \<open>Exceptions\<close>

datatype cfg_exn =
    SettingTypeException string
  | SettingNotFoundException string
  | SettingNameException string
  | ParseException "string option" int "string option"
  | FileIOException

definition bindE :: "'e + 'a \<Rightarrow> ('a \<Rightarrow> 'e + 'b) \<Rightarrow> 'e + 'b" where
  "bindE m f = (case m of Inl e \<Rightarrow> Inl e | Inr a \<Rightarrow> f a)"

lemma bindE_simps [simp]: "bindE (Inl e) f = Inl e" "bindE (Inr a) f = f a"
  by (simp_all add: bindE_def)

lemma bindE_Inr: "bindE m f = Inr b \<longleftrightarrow> (\<exists>a. m = Inr a \<and> f a = Inr b)"
  by (cases m) simp_all

text \<open>The path an exception carries: of the setting, or of a member or element of it.\<close>

definition path_of :: "config \<Rightarrow> nat list \<Rightarrow> string" where
  "path_of cfg ip = constructPath (root cfg) ip"

definition path_idx :: "config \<Rightarrow> nat list \<Rightarrow> int \<Rightarrow> string" where
  "path_idx cfg ip idx = path_of cfg ip @ ''.['' @ show_int idx @ '']''"

definition path_name :: "config \<Rightarrow> nat list \<Rightarrow> string \<Rightarrow> string" where
  "path_name cfg ip name = path_of cfg ip @ ''.'' @ name"

definition isNumber :: "ctype \<Rightarrow> bool" where
  "isNumber t \<longleftrightarrow> t \<in> {CONFIG_TYPE_INT, CONFIG_TYPE_INT64, CONFIG_TYPE_FLOAT}"

definition assertType :: "config \<Rightarrow> nat list \<Rightarrow> ctype \<Rightarrow> cfg_exn + unit" where
  "assertType cfg ip type =
     (if type \<noteq> s_type (node cfg ip)
         \<and> \<not> (isNumber (s_type (node cfg ip)) \<and> config_get_auto_convert cfg
              \<and> (type = CONFIG_TYPE_INT \<or> type = CONFIG_TYPE_INT64 \<or> type = CONFIG_TYPE_FLOAT))
      then Inl (SettingTypeException (path_of cfg ip))
      else Inr ())"

section \<open>Conversions\<close>

definition as_bool :: "config \<Rightarrow> nat list \<Rightarrow> cfg_exn + bool" where
  "as_bool cfg ip =
     bindE (assertType cfg ip CONFIG_TYPE_BOOL) (\<lambda>_. Inr (config_setting_get_bool (node cfg ip) \<noteq> 0))"

definition as_int :: "config \<Rightarrow> nat list \<Rightarrow> cfg_exn + word32" where
  "as_int cfg ip =
     bindE (assertType cfg ip CONFIG_TYPE_INT) (\<lambda>_. Inr (config_setting_get_int cfg (node cfg ip)))"

definition as_uint :: "config \<Rightarrow> nat list \<Rightarrow> cfg_exn + word32" where
  "as_uint cfg ip =
     bindE (assertType cfg ip CONFIG_TYPE_INT) (\<lambda>_.
       let v = config_setting_get_int cfg (node cfg ip) in Inr (if sint v < 0 then 0 else v))"

definition as_llong :: "config \<Rightarrow> nat list \<Rightarrow> cfg_exn + word64" where
  "as_llong cfg ip =
     bindE (assertType cfg ip CONFIG_TYPE_INT64) (\<lambda>_. Inr (config_setting_get_int64 cfg (node cfg ip)))"

definition as_ullong :: "config \<Rightarrow> nat list \<Rightarrow> cfg_exn + word64" where
  "as_ullong cfg ip =
     bindE (assertType cfg ip CONFIG_TYPE_INT64) (\<lambda>_.
       let v = config_setting_get_int64 cfg (node cfg ip) in Inr (if sint v < 0 then 0 else v))"

definition as_double :: "config \<Rightarrow> nat list \<Rightarrow> cfg_exn + cdouble" where
  "as_double cfg ip =
     bindE (assertType cfg ip CONFIG_TYPE_FLOAT) (\<lambda>_. Inr (config_setting_get_float cfg (node cfg ip)))"

definition as_cstr :: "config \<Rightarrow> nat list \<Rightarrow> cfg_exn + string option" where
  "as_cstr cfg ip =
     bindE (assertType cfg ip CONFIG_TYPE_STRING) (\<lambda>_. Inr (config_setting_get_string (node cfg ip)))"

definition as_string :: "config \<Rightarrow> nat list \<Rightarrow> cfg_exn + string" where
  "as_string cfg ip =
     bindE (assertType cfg ip CONFIG_TYPE_STRING) (\<lambda>_.
       Inr (case config_setting_get_string (node cfg ip) of None \<Rightarrow> [] | Some s \<Rightarrow> s))"

text \<open>A \<open>long\<close> has the size of a \<open>long long\<close> on the target.\<close>

definition as_long :: "config \<Rightarrow> nat list \<Rightarrow> cfg_exn + word64" where
  "as_long cfg ip = as_llong cfg ip"

definition as_ulong :: "config \<Rightarrow> nat list \<Rightarrow> cfg_exn + word64" where
  "as_ulong cfg ip = as_ullong cfg ip"

section \<open>Selection\<close>

definition is_vector :: "ctype \<Rightarrow> bool" where
  "is_vector t \<longleftrightarrow> \<not> (t \<noteq> CONFIG_TYPE_ARRAY \<and> t \<noteq> CONFIG_TYPE_GROUP \<and> t \<noteq> CONFIG_TYPE_LIST)"

definition sel_idx :: "config \<Rightarrow> nat list \<Rightarrow> word32 \<Rightarrow> cfg_exn + nat list" where
  "sel_idx cfg ip i =
     (if \<not> is_vector (s_type (node cfg ip)) then Inl (SettingTypeException (path_idx cfg ip (sint i)))
      else case config_setting_get_elem (node cfg ip) i of
          None \<Rightarrow> Inl (SettingNotFoundException (path_idx cfg ip (sint i)))
        | Some k \<Rightarrow> Inr (ip @ [k]))"

definition sel_name :: "config \<Rightarrow> nat list \<Rightarrow> string \<Rightarrow> cfg_exn + nat list" where
  "sel_name cfg ip key =
     bindE (assertType cfg ip CONFIG_TYPE_GROUP) (\<lambda>_.
       case config_setting_get_member (node cfg ip) key of
         None \<Rightarrow> Inl (SettingNotFoundException (path_name cfg ip key))
       | Some k \<Rightarrow> Inr (ip @ [k]))"

text \<open>
  \<open>lookupValue\<close> for any of the conversions: \<open>None\<close> stands for the result \<open>false\<close>,
  which leaves the variable as it is.
\<close>

definition lookupValue :: "(config \<Rightarrow> nat list \<Rightarrow> cfg_exn + 'a) \<Rightarrow> config \<Rightarrow> nat list \<Rightarrow> string \<Rightarrow> 'a option" where
  "lookupValue conv cfg ip name =
     (case bindE (sel_name cfg ip name) (conv cfg) of Inl e \<Rightarrow> None | Inr v \<Rightarrow> Some v)"

definition exists_name :: "config \<Rightarrow> nat list \<Rightarrow> string \<Rightarrow> bool" where
  "exists_name cfg ip name =
     (if s_type (node cfg ip) \<noteq> CONFIG_TYPE_GROUP then False
      else config_setting_get_member (node cfg ip) name \<noteq> None)"

definition getLength :: "config \<Rightarrow> nat list \<Rightarrow> nat" where
  "getLength cfg ip = config_setting_length (node cfg ip)"

definition getName :: "config \<Rightarrow> nat list \<Rightarrow> string option" where
  "getName cfg ip = s_name (node cfg ip)"

definition getParent :: "nat list \<Rightarrow> (nat list) option" where
  "getParent ip = (if ip = [] then None else Some (butlast ip))"

definition isRoot :: "nat list \<Rightarrow> bool" where
  "isRoot ip \<longleftrightarrow> getParent ip = None"

text \<open>\<open>Config::lookup\<close> and \<open>Config::lookupValue\<close>, by path.\<close>

definition Config_lookup :: "config \<Rightarrow> string \<Rightarrow> cfg_exn + nat list" where
  "Config_lookup cfg path =
     (case config_lookup cfg path of None \<Rightarrow> Inl (SettingNotFoundException path) | Some ip \<Rightarrow> Inr ip)"

definition Config_exists :: "config \<Rightarrow> string \<Rightarrow> bool" where
  "Config_exists cfg path \<longleftrightarrow> config_lookup cfg path \<noteq> None"

definition Config_lookupValue :: "(config \<Rightarrow> nat list \<Rightarrow> cfg_exn + 'a) \<Rightarrow> config \<Rightarrow> string \<Rightarrow> 'a option" where
  "Config_lookupValue conv cfg path =
     (case bindE (Config_lookup cfg path) (conv cfg) of Inl e \<Rightarrow> None | Inr v \<Rightarrow> Some v)"

text \<open>The exception a failed read turns into.\<close>

definition handleError :: "config \<Rightarrow> cfg_exn + unit" where
  "handleError cfg =
     (case error_type cfg of
        CONFIG_ERR_NONE \<Rightarrow> Inr ()
      | CONFIG_ERR_PARSE \<Rightarrow> Inl (ParseException (error_file cfg) (error_line cfg) (error_text cfg))
      | CONFIG_ERR_FILE_IO \<Rightarrow> Inl FileIOException)"

section \<open>Assignments\<close>

definition assign :: "ctype \<Rightarrow> (config_setting \<Rightarrow> config_setting \<times> bool) \<Rightarrow> config \<Rightarrow> nat list \<Rightarrow> cfg_exn + config" where
  "assign type setter cfg ip =
     bindE (assertType cfg ip type) (\<lambda>_. Inr (put_node ip (fst (setter (node cfg ip))) cfg))"

definition assign_bool :: "bool \<Rightarrow> config \<Rightarrow> nat list \<Rightarrow> cfg_exn + config" where
  "assign_bool b = assign CONFIG_TYPE_BOOL (\<lambda>s. config_setting_set_bool s (if b then 1 else 0))"

definition assign_int :: "word32 \<Rightarrow> config \<Rightarrow> nat list \<Rightarrow> cfg_exn + config" where
  "assign_int v cfg = assign CONFIG_TYPE_INT (\<lambda>s. config_setting_set_int cfg s v) cfg"

definition assign_llong :: "word64 \<Rightarrow> config \<Rightarrow> nat list \<Rightarrow> cfg_exn + config" where
  "assign_llong v cfg = assign CONFIG_TYPE_INT64 (\<lambda>s. config_setting_set_int64 cfg s v) cfg"

definition assign_double :: "cdouble \<Rightarrow> config \<Rightarrow> nat list \<Rightarrow> cfg_exn + config" where
  "assign_double v cfg = assign CONFIG_TYPE_FLOAT (\<lambda>s. config_setting_set_float cfg s v) cfg"

definition assign_cstr :: "string option \<Rightarrow> config \<Rightarrow> nat list \<Rightarrow> cfg_exn + config" where
  "assign_cstr v = assign CONFIG_TYPE_STRING (\<lambda>s. config_setting_set_string s v)"

definition assign_long :: "word64 \<Rightarrow> config \<Rightarrow> nat list \<Rightarrow> cfg_exn + config" where
  "assign_long v cfg = assign_llong v cfg"

text \<open>A \<open>float\<close> is given by the \<open>double\<close> of the same value.\<close>

definition assign_float :: "cdouble \<Rightarrow> config \<Rightarrow> nat list \<Rightarrow> cfg_exn + config" where
  "assign_float v cfg = assign_double v cfg"

definition assign_string :: "string \<Rightarrow> config \<Rightarrow> nat list \<Rightarrow> cfg_exn + config" where
  "assign_string v cfg = assign_cstr (Some v) cfg"

definition setFormat :: "int \<Rightarrow> config \<Rightarrow> nat list \<Rightarrow> config" where
  "setFormat format cfg ip =
     (let t = s_type (node cfg ip);
          fmt = (if t = CONFIG_TYPE_INT \<or> t = CONFIG_TYPE_INT64
                 then (if format = CONFIG_FORMAT_HEX then CONFIG_FORMAT_HEX else CONFIG_FORMAT_DEFAULT)
                 else CONFIG_FORMAT_DEFAULT)
      in put_node ip (fst (config_setting_set_format (node cfg ip) fmt)) cfg)"

section \<open>Adding and removing\<close>

definition toTypeCode :: "ctype \<Rightarrow> int" where
  "toTypeCode type =
     (case type of
        CONFIG_TYPE_GROUP \<Rightarrow> 1 | CONFIG_TYPE_INT \<Rightarrow> 2 | CONFIG_TYPE_INT64 \<Rightarrow> 3 | CONFIG_TYPE_FLOAT \<Rightarrow> 4
      | CONFIG_TYPE_STRING \<Rightarrow> 5 | CONFIG_TYPE_BOOL \<Rightarrow> 6 | CONFIG_TYPE_ARRAY \<Rightarrow> 7 | CONFIG_TYPE_LIST \<Rightarrow> 8
      | CONFIG_TYPE_NONE \<Rightarrow> 0)"

text \<open>
  \<open>add\<close>: the new configuration and the pointer of the new setting.  The outer
  \<open>None\<close> is the NULL dereference of \<open>config_setting_add\<close>.
\<close>

definition add_named :: "string \<Rightarrow> ctype \<Rightarrow> config \<Rightarrow> nat list \<Rightarrow> (cfg_exn + config \<times> nat list) option" where
  "add_named name type cfg ip =
     (case assertType cfg ip CONFIG_TYPE_GROUP of
        Inl e \<Rightarrow> Some (Inl e)
      | Inr _ \<Rightarrow>
          if toTypeCode type = 0 then Some (Inl (SettingTypeException (path_name cfg ip name)))
          else (case config_setting_add (Some (node cfg ip)) (Some name) (toTypeCode type) of
              Some (Some parent, Some k) \<Rightarrow> Some (Inr (put_node ip parent cfg, ip @ [k]))
            | Some _ \<Rightarrow> Some (Inl (SettingNameException (path_name cfg ip name)))
            | None \<Rightarrow> None))"

definition init_elem :: "ctype \<Rightarrow> config \<Rightarrow> nat list \<Rightarrow> cfg_exn + config" where
  "init_elem type cfg ip =
     (case type of
        CONFIG_TYPE_INT \<Rightarrow> assign_int 0 cfg ip
      | CONFIG_TYPE_INT64 \<Rightarrow> assign_llong 0 cfg ip
      | CONFIG_TYPE_FLOAT \<Rightarrow> assign_double dzero cfg ip
      | CONFIG_TYPE_STRING \<Rightarrow> assign_cstr None cfg ip
      | CONFIG_TYPE_BOOL \<Rightarrow> assign_bool False cfg ip
      | _ \<Rightarrow> Inr cfg)"

text \<open>The check of the element type; \<open>operator[](0)\<close> is the first element.\<close>

definition check_elem_type :: "ctype \<Rightarrow> config \<Rightarrow> nat list \<Rightarrow> cfg_exn + unit" where
  "check_elem_type type cfg ip =
     (if s_type (node cfg ip) \<noteq> CONFIG_TYPE_ARRAY then Inr ()
      else let idx = getLength cfg ip
           in if idx > 0
              then bindE (sel_idx cfg ip 0) (\<lambda>first.
                if type \<noteq> s_type (node cfg first) then Inl (SettingTypeException (path_idx cfg ip (int idx)))
                else Inr ())
              else if type \<noteq> CONFIG_TYPE_INT \<and> type \<noteq> CONFIG_TYPE_INT64 \<and> type \<noteq> CONFIG_TYPE_FLOAT
                      \<and> type \<noteq> CONFIG_TYPE_STRING \<and> type \<noteq> CONFIG_TYPE_BOOL
                then Inl (SettingTypeException (path_idx cfg ip (int idx)))
              else Inr ())"

definition add_elem :: "ctype \<Rightarrow> config \<Rightarrow> nat list \<Rightarrow> (cfg_exn + config \<times> nat list) option" where
  "add_elem type cfg ip =
     (if s_type (node cfg ip) \<noteq> CONFIG_TYPE_ARRAY \<and> s_type (node cfg ip) \<noteq> CONFIG_TYPE_LIST
      then Some (Inl (SettingTypeException (path_of cfg ip)))
      else case check_elem_type type cfg ip of
        Inl e \<Rightarrow> Some (Inl e)
      | Inr _ \<Rightarrow>
          (case config_setting_add (Some (node cfg ip)) None (toTypeCode type) of
             Some (Some parent, Some k) \<Rightarrow>
               Some (bindE (init_elem type (put_node ip parent cfg) (ip @ [k])) (\<lambda>cfg'. Inr (cfg', ip @ [k])))
           | _ \<Rightarrow> None))"

text \<open>\<open>remove\<close>: the new configuration and the destructor calls.\<close>

definition remove_name :: "string \<Rightarrow> config \<Rightarrow> nat list \<Rightarrow> cfg_exn + config \<times> nat list" where
  "remove_name name cfg ip =
     bindE (assertType cfg ip CONFIG_TYPE_GROUP) (\<lambda>_.
       case config_setting_remove (destructor cfg) (node cfg ip) name of
         (parent, True, freed) \<Rightarrow> Inr (put_node ip parent cfg, freed)
       | (parent, False, freed) \<Rightarrow> Inl (SettingNotFoundException (path_name cfg ip name)))"

definition remove_idx :: "word32 \<Rightarrow> config \<Rightarrow> nat list \<Rightarrow> cfg_exn + config \<times> nat list" where
  "remove_idx idx cfg ip =
     (if \<not> is_vector (s_type (node cfg ip)) then Inl (SettingTypeException (path_idx cfg ip (sint idx)))
      else case config_setting_remove_elem (destructor cfg) (node cfg ip) idx of
          (parent, True, freed) \<Rightarrow> Inr (put_node ip parent cfg, freed)
        | (parent, False, freed) \<Rightarrow> Inl (SettingNotFoundException (path_idx cfg ip (sint idx))))"

section \<open>Well-typed trees\<close>

text \<open>
  What the interface promises of a tree: it is well-formed (theory
  \<open>Setting\<close>), and every array in it holds scalars of one type.
\<close>

definition is_scalar :: "ctype \<Rightarrow> bool" where
  "is_scalar t \<longleftrightarrow> t \<in> {CONFIG_TYPE_INT, CONFIG_TYPE_INT64, CONFIG_TYPE_FLOAT, CONFIG_TYPE_STRING, CONFIG_TYPE_BOOL}"

definition scalars :: "config_setting list \<Rightarrow> bool" where
  "scalars xs \<longleftrightarrow> (\<forall>x\<in>set xs. is_scalar (s_type x) \<and> s_type x = s_type (xs ! 0))"

fun arrays_ok :: "config_setting \<Rightarrow> bool" where
  "arrays_ok (Setting n t f v h l fl) =
     (case v of VList xs \<Rightarrow> (t = CONFIG_TYPE_ARRAY \<longrightarrow> scalars xs) \<and> (\<forall>x\<in>set xs. arrays_ok x) | _ \<Rightarrow> True)"

definition well_typed :: "config_setting \<Rightarrow> bool" where
  "well_typed s \<longleftrightarrow> wf_setting s \<and> arrays_ok s"

lemma scalars_Nil [simp]: "scalars []"
  by (simp add: scalars_def)

lemma arrays_ok_iff:
  "arrays_ok s \<longleftrightarrow> (s_type s = CONFIG_TYPE_ARRAY \<longrightarrow> scalars (elems s)) \<and> (\<forall>x\<in>set (elems s). arrays_ok x)"
  by (cases s) (auto simp: elems_def list_ptr_def split: config_value.splits)

lemma well_typed_iff:
  "well_typed s \<longleftrightarrow> tag_ok (s_type s) (s_value s) \<and> names_ok (s_type s) (elems s)
     \<and> (s_type s = CONFIG_TYPE_ARRAY \<longrightarrow> scalars (elems s)) \<and> (\<forall>x\<in>set (elems s). well_typed x)"
  unfolding well_typed_def using wf_setting_iff [of s] arrays_ok_iff [of s] by auto

lemma well_typed_new [simp]: "well_typed (new_setting n t)"
  by (simp add: well_typed_iff [of "new_setting n t"])

lemma well_typed_elem: "well_typed s \<Longrightarrow> i < length (elems s) \<Longrightarrow> well_typed (elems s ! i)"
  using well_typed_iff [of s] by auto

lemma well_typed_set_list:
  assumes "is_aggregate s" "names_ok (s_type s) xs" "s_type s = CONFIG_TYPE_ARRAY \<longrightarrow> scalars xs"
    "\<forall>x\<in>set xs. well_typed x"
  shows "well_typed (set_value (VList xs) s)"
  using assms by (auto simp: well_typed_iff [of "set_value (VList xs) s"] is_aggregate_def)

lemma elems_aggregate: "well_typed s \<Longrightarrow> i < length (elems s) \<Longrightarrow> is_aggregate s"
  using well_typed_iff [of s]
  by (cases "s_value s") (auto simp: elems_def list_ptr_def is_aggregate_def)

lemma names_ok_map:
  "names_ok t xs \<longleftrightarrow>
     (if t = CONFIG_TYPE_GROUP
      then list_all (\<lambda>n. \<exists>k. n = Some k \<and> config_validate_name k) (map s_name xs) \<and> distinct (map s_name xs)
      else list_all (\<lambda>n. n = None) (map s_name xs))"
  by (simp add: names_ok_def list_all_iff)

lemma names_ok_update:
  assumes "names_ok t xs" "i < length xs" "s_name x = s_name (xs ! i)"
  shows "names_ok t (xs[i := x])"
proof -
  have m: "map s_name (xs[i := x]) = map s_name xs" using assms(2,3) by (simp add: map_update list_update_same_conv)
  show ?thesis using assms(1) by (simp only: names_ok_map m)
qed

lemma scalars_update:
  assumes "scalars xs" "i < length xs" "s_type x = s_type (xs ! i)"
  shows "scalars (xs[i := x])"
proof -
  have t: "s_type (xs[i := x] ! k) = s_type (xs ! k)" if "k < length xs" for k
    using assms(2,3) that by (cases "k = i") simp_all
  have "0 < length xs" using assms(2) by auto
  then show ?thesis
    using assms(1) t t [of 0] unfolding scalars_def all_set_conv_all_nth by (metis length_list_update)
qed

section \<open>Writing through a pointer\<close>

lemma put_at_same: "setting_at s ip = Some u \<Longrightarrow> setting_at (put_at s ip t) ip = Some t"
  by (induction s ip t rule: put_at.induct) (auto split: if_splits)

lemma put_at_sels: "ip \<noteq> [] \<Longrightarrow> s_name (put_at s ip t) = s_name s \<and> s_type (put_at s ip t) = s_type s"
  by (cases ip) auto

lemma put_at_name: "setting_at s ip = Some u \<Longrightarrow> s_name t = s_name u \<Longrightarrow> s_name (put_at s ip t) = s_name s"
  by (cases ip) auto

text \<open>
  Replacing a setting by a well-typed one of the same name keeps a tree
  well-typed, if it has the same type or does not stand in an array.
\<close>

lemma put_at_well_typed:
  assumes "well_typed s" "setting_at s ip = Some u" "well_typed t" "s_name t = s_name u"
    "s_type t = s_type u \<or> ip = [] \<or> (\<forall>p. setting_at s (butlast ip) = Some p \<longrightarrow> s_type p \<noteq> CONFIG_TYPE_ARRAY)"
  shows "well_typed (put_at s ip t)"
  using assms
proof (induction s ip t rule: put_at.induct)
  case (2 s i ip t)
  have i: "i < length (elems s)" "setting_at (elems s ! i) ip = Some u"
    using "2.prems"(2) by (auto split: if_splits)
  let ?e = "put_at (elems s ! i) ip t"
  have wi: "well_typed (elems s ! i)" using "2.prems"(1) i(1) by (rule well_typed_elem)
  have par: "s_type t = s_type u \<or> ip = [] \<or> (\<forall>p. setting_at (elems s ! i) (butlast ip) = Some p \<longrightarrow> s_type p \<noteq> CONFIG_TYPE_ARRAY)"
    using "2.prems"(5) i(1) by (cases "ip = []") auto
  have e: "well_typed ?e" "s_name ?e = s_name (elems s ! i)"
    using "2.IH" [OF i(1) wi i(2) "2.prems"(3,4) par] put_at_name [OF i(2) "2.prems"(4)] by auto
  have ty: "s_type ?e = s_type (elems s ! i)" if "s_type s = CONFIG_TYPE_ARRAY"
    using "2.prems"(5) that i by (cases ip) auto
  have ok: "names_ok (s_type s) (elems s)" "s_type s = CONFIG_TYPE_ARRAY \<longrightarrow> scalars (elems s)"
    "\<forall>x\<in>set (elems s). well_typed x"
    using "2.prems"(1) well_typed_iff [of s] by auto
  have "well_typed (set_value (VList ((elems s)[i := ?e])) s)"
    using ok e ty i(1) elems_aggregate [OF "2.prems"(1) i(1)]
    by (intro well_typed_set_list names_ok_update)
      (auto intro: scalars_update dest!: set_update_subset_insert [THEN subsetD])
  then show ?case using i(1) by simp
qed simp

section \<open>Every operation keeps the tree well-typed\<close>

lemma put_node_ok:
  assumes "well_typed (root cfg)" "setting_at (root cfg) ip = Some s" "well_typed s'" "s_name s' = s_name s"
    "s_type s' = s_type s"
  shows "well_typed (root (put_node ip s' cfg))"
  using assms put_at_well_typed [of "root cfg" ip s s'] by (simp add: put_node_def)

lemma node_at: "setting_at (root cfg) ip = Some s \<Longrightarrow> node cfg ip = s"
  by (simp add: node_def)

lemma well_typed_at: "well_typed s \<Longrightarrow> setting_at s ip = Some u \<Longrightarrow> well_typed u"
  by (induction s ip rule: setting_at.induct) (auto split: if_splits dest: well_typed_elem)

lemma add_group_ok:
  assumes "well_typed g" "s_type g = CONFIG_TYPE_GROUP" "type_of_code c = Some t"
    and add: "config_setting_add (Some g) (Some nm) c = Some (Some p, Some k)"
  shows "p = set_value (VList (elems g @ [new_setting (Some nm) t])) g" "k = length (elems g)" "well_typed p"
proof -
  have g: "wf_group g" using assms(1,2) by (simp add: wf_group_def well_typed_def)
  have v: "config_validate_name nm"
    using add assms(2,3) by (auto simp: config_setting_add_def Let_def split: if_splits)
  have n: "members g nm = None" and p: "p = set_value (VList (elems g @ [new_setting (Some nm) t])) g"
    and k: "k = length (elems g)"
    using add config_setting_add_group [OF g v assms(3)] by (auto split: if_splits)
  have "names_ok (s_type g) (elems g @ [new_setting (Some nm) t])"
    using names_ok_add_member [OF wf_groupD(1) [OF g] v n] assms(2) by simp
  then have "well_typed p"
    unfolding p using assms(1,2) well_typed_iff [of g] by (intro well_typed_set_list) (auto simp: is_aggregate_def)
  then show "p = set_value (VList (elems g @ [new_setting (Some nm) t])) g" "k = length (elems g)" "well_typed p"
    using p k by simp_all
qed

lemma add_vector_ok:
  assumes "well_typed v" "s_type v = CONFIG_TYPE_ARRAY \<or> s_type v = CONFIG_TYPE_LIST" "type_of_code c = Some t"
    and add: "config_setting_add (Some v) None c = Some (Some p, Some k)"
    and arr: "s_type v = CONFIG_TYPE_ARRAY \<Longrightarrow> is_scalar t \<and> (elems v \<noteq> [] \<longrightarrow> t = s_type (elems v ! 0))"
  shows "p = set_value (VList (elems v @ [new_setting None t])) v" "k = length (elems v)" "well_typed p"
proof -
  have agg: "is_aggregate v" using assms(2) by (auto simp: is_aggregate_def)
  show p: "p = set_value (VList (elems v @ [new_setting None t])) v" and k: "k = length (elems v)"
    using add assms(2,3) agg
    by (auto simp: config_setting_add_def Let_def config_setting_create_spec split: if_splits)
  have "scalars (elems v @ [new_setting None t])" if "s_type v = CONFIG_TYPE_ARRAY"
    using that arr assms(1) well_typed_iff [of v] by (cases "elems v") (auto simp: scalars_def)
  then show "well_typed p"
    unfolding p using assms(1,2) agg well_typed_iff [of v]
    by (intro well_typed_set_list) (auto simp: names_ok_def)
qed

lemma remove_ok:
  assumes "well_typed s" "i < length (elems s)"
  shows "well_typed (set_value (VList (take i (elems s) @ drop (Suc i) (elems s))) s)"
proof -
  let ?ys = "take i (elems s) @ drop (Suc i) (elems s)"
  have sub: "x \<in> set (elems s)" if "x \<in> set ?ys" for x using that by (auto dest: in_set_takeD in_set_dropD)
  have ok: "names_ok (s_type s) (elems s)" "s_type s = CONFIG_TYPE_ARRAY \<longrightarrow> scalars (elems s)"
    "\<forall>x\<in>set (elems s). well_typed x"
    using assms(1) well_typed_iff [of s] by auto
  have "scalars ?ys" if a: "s_type s = CONFIG_TYPE_ARRAY"
  proof (cases "?ys = []")
    case False
    then have "?ys ! 0 \<in> set (elems s)" using sub [of "?ys ! 0"] by (metis length_greater_0_conv nth_mem)
    then show ?thesis using ok(2) a sub unfolding scalars_def by metis
  next
    case True
    show ?thesis unfolding True by simp
  qed
  then show ?thesis
    using ok sub elems_aggregate [OF assms] by (intro well_typed_set_list) (auto intro: names_ok_without)
qed

lemma remove_well_typed:
  "well_typed s \<Longrightarrow> config_setting_remove d s nm = (p, b, fr) \<Longrightarrow> well_typed p \<and> s_name p = s_name s \<and> s_type p = s_type s"
  "well_typed s \<Longrightarrow> config_setting_remove_elem d s i = (p, b, fr) \<Longrightarrow> well_typed p \<and> s_name p = s_name s \<and> s_type p = s_type s"
  by (auto simp: config_setting_remove_def config_setting_remove_elem_def config_list_remove_def Let_def
      intro: remove_ok dest: config_list_search_SomeD split: if_splits option.splits)

lemma remove_put_ok:
  assumes wt: "well_typed (root cfg)" and s: "setting_at (root cfg) ip = Some s"
  shows "config_setting_remove d (node cfg ip) nm = (p, b, fr) \<Longrightarrow> well_typed (root (put_node ip p cfg))"
    and "config_setting_remove_elem d (node cfg ip) i = (p, b, fr) \<Longrightarrow> well_typed (root (put_node ip p cfg))"
proof -
  note r = remove_well_typed [OF well_typed_at [OF wt s], folded node_at [OF s]]
  have put: "well_typed (root (put_node ip p cfg))"
    if "well_typed p \<and> s_name p = s_name (node cfg ip) \<and> s_type p = s_type (node cfg ip)"
    using put_node_ok [OF wt s] that node_at [OF s] by simp
  show "config_setting_remove d (node cfg ip) nm = (p, b, fr) \<Longrightarrow> well_typed (root (put_node ip p cfg))"
    by (rule put, erule r(1))
  show "config_setting_remove_elem d (node cfg ip) i = (p, b, fr) \<Longrightarrow> well_typed (root (put_node ip p cfg))"
    by (rule put, erule r(2))
qed

lemma setter_well_typed:
  assumes "well_typed s" "s_type s \<noteq> CONFIG_TYPE_NONE"
  shows "well_typed (fst (config_setting_set_int cfg s i))"
  "well_typed (fst (config_setting_set_int64 cfg s l))"
  "well_typed (fst (config_setting_set_float cfg s d))"
  "well_typed (fst (config_setting_set_bool s i))"
  "well_typed (fst (config_setting_set_string s t))"
  "well_typed (fst (config_setting_set_format s fmt))"
proof -
  have e: "elems (set_value v s) = (case v of VList xs \<Rightarrow> xs | _ \<Rightarrow> [])" for v
    by (simp add: elems_def list_ptr_def split: config_value.split)
  have a: "arrays_ok (set_value v s)" if "\<And>xs. v \<noteq> VList xs" for v
    using that by (simp add: arrays_ok_iff [of "set_value v s"] e split: config_value.split)
  have str: "string_value t \<noteq> VList xs" for xs by (simp add: string_value_def split: option.split)
  note setters = config_setting_set_int_def config_setting_set_int64_def config_setting_set_float_def
    config_setting_set_bool_def config_setting_set_string_def
  have "arrays_ok s" using assms(1) by (simp add: well_typed_def)
  then show "well_typed (fst (config_setting_set_format s fmt))"
    using assms(1) by (auto simp: config_setting_set_format_def well_typed_iff [of s]
        well_typed_iff [of "set_format fmt s"])
  show "well_typed (fst (config_setting_set_int cfg s i))" "well_typed (fst (config_setting_set_int64 cfg s l))"
    "well_typed (fst (config_setting_set_float cfg s d))" "well_typed (fst (config_setting_set_bool s i))"
    "well_typed (fst (config_setting_set_string s t))"
    using \<open>arrays_ok s\<close> assms setter_keeps_wf [of s] a str unfolding well_typed_def
    by (auto simp: setters split: ctype.split)
qed

lemma assertType_some: "assertType cfg ip t = Inr u \<Longrightarrow> t \<noteq> CONFIG_TYPE_NONE \<Longrightarrow> s_type (node cfg ip) \<noteq> CONFIG_TYPE_NONE"
  by (auto simp: assertType_def isNumber_def split: if_splits)

lemma assertType_group: "assertType cfg ip CONFIG_TYPE_GROUP = Inr u \<Longrightarrow> s_type (node cfg ip) = CONFIG_TYPE_GROUP"
  by (auto simp: assertType_def split: if_splits)

lemma assign_ok:
  assumes "well_typed (root cfg)" "setting_at (root cfg) ip = Some s" "t \<noteq> CONFIG_TYPE_NONE"
    "assign t f cfg ip = Inr cfg'"
    "\<And>s. well_typed s \<Longrightarrow> s_type s \<noteq> CONFIG_TYPE_NONE \<Longrightarrow>
       well_typed (fst (f s)) \<and> s_name (fst (f s)) = s_name s \<and> s_type (fst (f s)) = s_type s"
  shows "well_typed (root cfg')"
proof -
  have "s_type s \<noteq> CONFIG_TYPE_NONE" and c: "cfg' = put_node ip (fst (f s)) cfg"
    using assms(4) assertType_some [OF _ assms(3), of cfg ip] node_at [OF assms(2)]
    by (auto simp: assign_def bindE_Inr)
  then show ?thesis
    using assms(5) [of s] put_node_ok [OF assms(1,2)] well_typed_at [OF assms(1,2)] by simp
qed

lemma assigns_ok:
  assumes "well_typed (root cfg)" "setting_at (root cfg) ip = Some s"
  shows "assign_int i cfg ip = Inr cfg' \<Longrightarrow> well_typed (root cfg')"
    "assign_llong l cfg ip = Inr cfg' \<Longrightarrow> well_typed (root cfg')"
    "assign_double d cfg ip = Inr cfg' \<Longrightarrow> well_typed (root cfg')"
    "assign_bool b cfg ip = Inr cfg' \<Longrightarrow> well_typed (root cfg')"
    "assign_cstr t cfg ip = Inr cfg' \<Longrightarrow> well_typed (root cfg')"
  unfolding assign_int_def assign_llong_def assign_double_def assign_bool_def assign_cstr_def
  by (erule assign_ok [OF assms, rotated 1]; simp add: setter_well_typed setter_keeps_name setter_keeps_type)+

lemma setFormat_ok:
  assumes "well_typed (root cfg)" "setting_at (root cfg) ip = Some s"
  shows "well_typed (root (setFormat fmt cfg ip))"
proof -
  have w: "well_typed (fst (config_setting_set_format s f)) \<and> s_name (fst (config_setting_set_format s f)) = s_name s
      \<and> s_type (fst (config_setting_set_format s f)) = s_type s" for f
    using well_typed_at [OF assms] setter_well_typed(6) [of s f]
    by (cases "s_type s = CONFIG_TYPE_NONE") (auto simp: config_setting_set_format_def)
  show ?thesis
    unfolding setFormat_def Let_def node_at [OF assms(2)] using w by (intro put_node_ok [OF assms]) auto
qed

lemma type_code_inv: "type_of_code (toTypeCode t) = Some t"
  by (cases t) (simp_all add: type_of_code_def toTypeCode_def)

lemma add_named_ok:
  assumes wt: "well_typed (root cfg)" and s: "setting_at (root cfg) ip = Some s"
    and add: "add_named nm t cfg ip = Some (Inr (cfg', ip'))"
  shows "well_typed (root cfg')"
proof -
  obtain u p k where g: "assertType cfg ip CONFIG_TYPE_GROUP = Inr u"
    and a: "config_setting_add (Some s) (Some nm) (toTypeCode t) = Some (Some p, Some k)"
    and c: "cfg' = put_node ip p cfg"
    using add node_at [OF s] by (auto simp: add_named_def split: sum.splits if_splits option.splits)
  have "s_type s = CONFIG_TYPE_GROUP" using assertType_group [OF g] node_at [OF s] by simp
  then show ?thesis
    using add_group_ok [OF well_typed_at [OF wt s] _ type_code_inv a] put_node_ok [OF wt s] c by simp
qed

lemma well_typed_array: "well_typed s \<Longrightarrow> s_type s = CONFIG_TYPE_ARRAY \<Longrightarrow> scalars (elems s)"
  by (subst (asm) well_typed_iff) blast

lemma length_vector: "is_vector (s_type s) \<Longrightarrow> config_setting_length s = length (elems s)"
  unfolding is_vector_def config_setting_length_def elems_def by (cases "list_ptr s") auto

lemma check_elem_scalar:
  assumes "check_elem_type t cfg ip = Inr u" "s_type (node cfg ip) = CONFIG_TYPE_ARRAY"
    "setting_at (root cfg) ip = Some s" "well_typed s"
  shows "is_scalar t \<and> (elems s \<noteq> [] \<longrightarrow> t = s_type (elems s ! 0))"
proof (cases "getLength cfg ip > 0")
  case True
  have n: "node cfg ip = s" using assms(3) by (rule node_at)
  have l: "elems s \<noteq> []"
    using True assms(2) n length_vector [of s] by (auto simp: getLength_def is_vector_def)
  obtain f where f: "sel_idx cfg ip 0 = Inr f" "t = s_type (node cfg f)"
    using assms(1,2) True by (auto simp: check_elem_type_def Let_def bindE_Inr split: if_splits)
  then have "f = ip @ [0]"
    by (auto simp: sel_idx_def config_setting_get_elem_def split: if_splits option.splits)
  moreover have "setting_at (root cfg) (ip @ [0]) = Some (elems s ! 0)"
    using assms(3) l by (simp add: setting_at_append)
  ultimately have "t = s_type (elems s ! 0)" using f(2) node_at by simp
  moreover have "scalars (elems s)" using well_typed_array [OF assms(4)] assms(2) n by metis
  then have "is_scalar (s_type (elems s ! 0))" using nth_mem [of 0 "elems s"] l unfolding scalars_def by blast
  ultimately show ?thesis by simp
next
  case False
  then have "elems s = []"
    using assms(2) node_at [OF assms(3)] length_vector [of s] by (simp add: getLength_def is_vector_def)
  moreover have "is_scalar t"
  proof (rule ccontr)
    assume "\<not> is_scalar t"
    then have "t \<noteq> CONFIG_TYPE_INT \<and> t \<noteq> CONFIG_TYPE_INT64 \<and> t \<noteq> CONFIG_TYPE_FLOAT
        \<and> t \<noteq> CONFIG_TYPE_STRING \<and> t \<noteq> CONFIG_TYPE_BOOL"
      by (simp add: is_scalar_def)
    then show False using assms(1) unfolding check_elem_type_def Let_def by (simp add: assms(2) False)
  qed
  ultimately show ?thesis by simp
qed

lemma add_elem_ok:
  assumes wt: "well_typed (root cfg)" and s: "setting_at (root cfg) ip = Some s"
    and add: "add_elem t cfg ip = Some (Inr (cfg', ip'))"
  shows "well_typed (root cfg')"
proof -
  have n: "node cfg ip = s" using s by (rule node_at)
  obtain u p k where v: "s_type s = CONFIG_TYPE_ARRAY \<or> s_type s = CONFIG_TYPE_LIST"
    and c: "check_elem_type t cfg ip = Inr u"
    and a: "config_setting_add (Some s) None (toTypeCode t) = Some (Some p, Some k)"
    and i: "init_elem t (put_node ip p cfg) (ip @ [k]) = Inr cfg'"
    using add n by (auto simp: add_elem_def bindE_Inr split: sum.splits if_splits option.splits)
  have arr: "is_scalar t \<and> (elems s \<noteq> [] \<longrightarrow> t = s_type (elems s ! 0))" if "s_type s = CONFIG_TYPE_ARRAY"
    using check_elem_scalar [OF c _ s well_typed_at [OF wt s]] that n by simp
  note p = add_vector_ok [OF well_typed_at [OF wt s] v type_code_inv a arr, simplified]
  have w: "well_typed (root (put_node ip p cfg))"
    using put_node_ok [OF wt s p(3)] p(1) by simp
  have at: "setting_at (root (put_node ip p cfg)) (ip @ [k]) = Some (new_setting None t)"
    using put_at_same [OF s, of p] p(1,2) by (simp add: put_node_def setting_at_append)
  show ?thesis
    using i w assigns_ok [OF w at] by (auto simp: init_elem_def split: ctype.splits)
qed

text \<open>
  A program that uses the interface: a sequence of calls on wrappers of
  existing settings, where a call that throws leaves the configuration as it is.
\<close>

datatype cpp_op =
    AddNamed string ctype | AddElem ctype | RemoveName string | RemoveIdx word32
  | AssignBool bool | AssignInt word32 | AssignLlong word64 | AssignDouble cdouble | AssignCstr "string option"
  | SetFormat int

definition keep :: "config \<Rightarrow> ('e + config) \<Rightarrow> config" where
  "keep cfg r = (case r of Inl e \<Rightarrow> cfg | Inr cfg' \<Rightarrow> cfg')"

definition keep_fst :: "config \<Rightarrow> ('e + config \<times> 'b) \<Rightarrow> config" where
  "keep_fst cfg r = (case r of Inl e \<Rightarrow> cfg | Inr (cfg', x) \<Rightarrow> cfg')"

fun cpp_call :: "cpp_op \<Rightarrow> nat list \<Rightarrow> config \<Rightarrow> config" where
  "cpp_call (AddNamed nm t) ip cfg = (case add_named nm t cfg ip of None \<Rightarrow> cfg | Some r \<Rightarrow> keep_fst cfg r)"
| "cpp_call (AddElem t) ip cfg = (case add_elem t cfg ip of None \<Rightarrow> cfg | Some r \<Rightarrow> keep_fst cfg r)"
| "cpp_call (RemoveName nm) ip cfg = keep_fst cfg (remove_name nm cfg ip)"
| "cpp_call (RemoveIdx i) ip cfg = keep_fst cfg (remove_idx i cfg ip)"
| "cpp_call (AssignBool b) ip cfg = keep cfg (assign_bool b cfg ip)"
| "cpp_call (AssignInt i) ip cfg = keep cfg (assign_int i cfg ip)"
| "cpp_call (AssignLlong i) ip cfg = keep cfg (assign_llong i cfg ip)"
| "cpp_call (AssignDouble d) ip cfg = keep cfg (assign_double d cfg ip)"
| "cpp_call (AssignCstr t) ip cfg = keep cfg (assign_cstr t cfg ip)"
| "cpp_call (SetFormat fmt) ip cfg = setFormat fmt cfg ip"

definition cpp_step :: "cpp_op \<times> nat list \<Rightarrow> config \<Rightarrow> config" where
  "cpp_step c cfg = (case c of (op, ip) \<Rightarrow>
     if setting_at (root cfg) ip = None then cfg else cpp_call op ip cfg)"

lemma cpp_step_ok:
  assumes wt: "well_typed (root cfg)"
  shows "well_typed (root (cpp_step c cfg))"
proof (cases c)
  case (Pair op ip)
  show ?thesis
  proof (cases "setting_at (root cfg) ip")
    case None
    then show ?thesis using wt by (simp add: cpp_step_def Pair)
  next
    case (Some s)
    note rm = remove_put_ok [OF wt Some]
    have "well_typed (root (cpp_call op ip cfg))"
    proof (cases op)
      case (AddNamed nm t)
      then show ?thesis
        using wt add_named_ok [OF wt Some] by (auto simp: keep_fst_def split: option.splits sum.splits)
    next
      case (AddElem t)
      then show ?thesis
        using wt add_elem_ok [OF wt Some] by (auto simp: keep_fst_def split: option.splits sum.splits)
    next
      case (RemoveName nm)
      then show ?thesis
        using wt rm by (auto simp: keep_fst_def remove_name_def bindE_def split: sum.splits prod.splits bool.splits)
    next
      case (RemoveIdx i)
      then show ?thesis
        using wt rm by (auto simp: keep_fst_def remove_idx_def split: sum.splits prod.splits bool.splits if_splits)
    next
      case (SetFormat fmt)
      show ?thesis using setFormat_ok [OF wt Some, of fmt] by (simp add: SetFormat)
    qed (use wt assigns_ok [OF wt Some] in \<open>auto simp: keep_def split: sum.splits\<close>)
    then show ?thesis using Some by (simp add: cpp_step_def Pair)
  qed
qed

section \<open>Properties\<close>

text \<open>
  C8. Whatever a program does through the C++ interface, adding, removing and
  assigning with any arguments on any settings, exceptions included, the tree
  stays well-typed: union and type tag agree, member names are valid and
  distinct, and every array holds scalars of one type.
\<close>

theorem cpp_interface_keeps_well_typed:
  assumes "well_typed (root cfg)"
  shows "well_typed (root (fold cpp_step calls cfg))"
  using assms by (induction calls arbitrary: cfg) (simp_all add: cpp_step_ok)

theorem cpp_interface_keeps_well_typed_witness:
  "well_typed (root (fold cpp_step [(AddNamed ''a'' CONFIG_TYPE_ARRAY, []), (AddElem CONFIG_TYPE_INT, [0]),
     (AddElem CONFIG_TYPE_STRING, [0]), (AssignInt 7, [0, 0])] config_init))"
  by (rule cpp_interface_keeps_well_typed) (simp add: config_init_def)

end
