(* ===== verification/Monitor.thy ===== *)
theory Monitor
  imports Watcher SettingCpp
begin

text \<open>
  The main program (\<open>src/monitor.cpp\<close>): the pid file and the check for a
  running instance, the texts of the alerts, loading the configuration into
  the mailer, the alert rules, the judge and the watcher, and \<open>main\<close>.  The
  configuration comes as the result of \<open>Config::readFile\<close>; the operating
  system is a parameter.  Console and syslog output is not modelled.
\<close>

section \<open>The pid file\<close>

record system =
  pid_file :: "string option"              \<comment> \<open>its contents, \<open>None\<close> if it cannot be opened\<close>
  comm :: "word32 \<Rightarrow> string option"        \<comment> \<open>what \<open>fgets\<close> reads from \<open>/proc/pid/comm\<close>\<close>
  alive :: "word32 \<Rightarrow> bool"                \<comment> \<open>\<open>kill(pid, 0)\<close> succeeds\<close>
  writable :: bool                         \<comment> \<open>the pid file can be opened for writing\<close>

definition get_pid :: "system \<Rightarrow> word32 option" where
  "get_pid sys =
     (case pid_file sys of
        None \<Rightarrow> None
      | Some pbuf \<Rightarrow> if length (take 255 pbuf) \<le> 0 then None else Some (atoi (take 255 pbuf)))"

text \<open>\<open>strstr\<close>.\<close>

fun strstr :: "string \<Rightarrow> string \<Rightarrow> string option" where
  "strstr s t = (if take (length t) s = t then Some s
                 else case s of [] \<Rightarrow> None | c # r \<Rightarrow> strstr r t)"

definition is_running :: "system \<Rightarrow> bool" where
  "is_running sys =
     (case get_pid sys of
        None \<Rightarrow> False
      | Some pid \<Rightarrow>
          if \<not> alive sys pid then False
          else strstr (case comm sys pid of None \<Rightarrow> [] | Some buff \<Rightarrow> buff) ''zzhelper'' \<noteq> None)"

text \<open>
  The file is opened without truncation: what was longer stays behind the new
  contents.  The returned code is 0 (OK) or -1 (ERROR).
\<close>

definition write_pid_file :: "word32 \<Rightarrow> system \<Rightarrow> system \<times> int" where
  "write_pid_file pid sys =
     (if is_running sys then (sys, -1)
      else if writable sys
      then let line = show_int (sint pid) @ [CHR 0x0A];
               old = (case pid_file sys of None \<Rightarrow> [] | Some pbuf \<Rightarrow> pbuf)
           in (sys\<lparr>pid_file := Some (line @ drop (length line) old)\<rparr>, 0)
      else (sys, 0))"

definition remove_pid_file :: "system \<Rightarrow> system \<times> int" where
  "remove_pid_file sys =
     (case pid_file sys of None \<Rightarrow> (sys, -1) | Some _ \<Rightarrow> (sys\<lparr>pid_file := None\<rparr>, 0))"

section \<open>The texts of the alerts\<close>

definition get_alert :: "int \<Rightarrow> string \<Rightarrow> string \<Rightarrow> string" where
  "get_alert level dir name =
     ''File '' @ name @
     (if level = CHANGED then '' have been changed!!''
      else if level = CREATED then '' have been created!!''
      else if level = DELETED then '' have been deleted!!''
      else [])"

text \<open>The two actions, as what they are asked to do.\<close>

datatype act = Send_mail | Log_alert

definition CRLF :: string where
  "CRLF = [CHR 0x0D, CHR 0x0A]"

text \<open>The subject and the body of the mail, and the line of the log.\<close>

definition send_mail :: "int \<Rightarrow> string \<Rightarrow> string \<Rightarrow> string \<times> string" where
  "send_mail level dir name =
     (''A Warning of File Integerity Monitor'', ''Attention please!'' @ CRLF @ get_alert level dir name)"

definition log_alert :: "int \<Rightarrow> string \<Rightarrow> string \<Rightarrow> string" where
  "log_alert level dir name = get_alert level dir name @ [CHR 0x0A]"

definition init_action :: "act alerter \<Rightarrow> act alerter" where
  "init_action a = add_action ''log'' Log_alert (add_action ''mail'' Send_mail a)"

section \<open>Loading the configuration\<close>

text \<open>
  What the loaders throw: the exceptions of the settings, and the
  \<open>std::logic_error\<close> of a string built from NULL.
\<close>

datatype thrown = Cfg cfg_exn | LogicError

definition cfgE :: "cfg_exn + 'a \<Rightarrow> thrown + 'a" where
  "cfgE m = (case m of Inl e \<Rightarrow> Inl (Cfg e) | Inr a \<Rightarrow> Inr a)"

lemma cfgE_simps [simp]: "cfgE (Inl e) = Inl (Cfg e)" "cfgE (Inr a) = Inr a"
  by (simp_all add: cfgE_def)

lemma cfgE_Inr: "cfgE m = Inr b \<longleftrightarrow> m = Inr b"
  by (cases m) simp_all

text \<open>A \<open>for\<close> loop whose body may throw.\<close>

fun forE :: "'b list \<Rightarrow> ('b \<Rightarrow> 's \<Rightarrow> 'e + 's) \<Rightarrow> 's \<Rightarrow> 'e + 's" where
  "forE [] f s = Inr s"
| "forE (x # xs) f s = bindE (f x s) (forE xs f)"

text \<open>\<open>set[n]\<close> as a \<open>const char *\<close>, appended to a vector of strings.\<close>

definition push_string :: "config \<Rightarrow> nat list \<Rightarrow> nat \<Rightarrow> string list \<Rightarrow> thrown + string list" where
  "push_string cfg ip n vec =
     bindE (cfgE (bindE (sel_idx cfg ip (word_of_nat n)) (as_cstr cfg))) (\<lambda>s.
       case s of None \<Rightarrow> Inl LogicError | Some str \<Rightarrow> Inr (vec @ [str]))"

definition setting2strvec :: "config \<Rightarrow> nat list \<Rightarrow> string \<Rightarrow> thrown + string list" where
  "setting2strvec cfg setting name =
     (if \<not> exists_name cfg setting name then Inr []
      else bindE (cfgE (sel_name cfg setting name)) (\<lambda>ip.
        forE [0..<getLength cfg ip] (push_string cfg ip) []))"

definition lower_first :: "string list \<Rightarrow> string list \<Rightarrow> string list" where
  "lower_first low high = (if length low \<noteq> 0 then low else high)"

definition get_int_value_of :: "config \<Rightarrow> nat list \<Rightarrow> string \<Rightarrow> word32 \<Rightarrow> thrown + word32" where
  "get_int_value_of cfg ip name val =
     (if exists_name cfg ip name then cfgE (bindE (sel_name cfg ip name) (as_int cfg)) else Inr val)"

record mailman =
  m_to :: "string list"
  m_from :: string
  m_smtpserver :: string
  m_username :: string
  m_password :: string

definition member_string :: "config \<Rightarrow> nat list \<Rightarrow> string \<Rightarrow> thrown + string" where
  "member_string cfg ip name = cfgE (bindE (sel_name cfg ip name) (as_string cfg))"

definition load_mailman :: "config \<Rightarrow> mailman \<Rightarrow> thrown + mailman" where
  "load_mailman cfg m =
     bindE (cfgE (sel_name cfg [] ''mail'')) (\<lambda>set.
     bindE (member_string cfg set ''server'') (\<lambda>server.
     bindE (member_string cfg set ''from'') (\<lambda>frm.
     bindE (setting2strvec cfg set ''to'') (\<lambda>to.
     bindE (member_string cfg set ''username'') (\<lambda>username.
     bindE (member_string cfg set ''password'') (\<lambda>password.
       Inr (m\<lparr>m_smtpserver := server, m_from := frm, m_to := to, m_username := username,
              m_password := password\<rparr>)))))))"

text \<open>
  The loop all loaders share: every check that has a path, in order.  \<open>body\<close>
  works on the pointer of the check.
\<close>

definition for_checks :: "config \<Rightarrow> (nat list \<Rightarrow> 's \<Rightarrow> thrown + 's) \<Rightarrow> 's \<Rightarrow> thrown + 's" where
  "for_checks cfg body s =
     bindE (cfgE (sel_name cfg [] ''checks'')) (\<lambda>checks.
       forE [0..<getLength cfg checks] (\<lambda>i s.
         bindE (cfgE (sel_idx cfg checks (word_of_nat i))) (\<lambda>check.
           if \<not> exists_name cfg check ''path'' then Inr s else body check s)) s)"

text \<open>The inner loop over the paths of a check.\<close>

definition for_paths :: "config \<Rightarrow> nat list \<Rightarrow> (string \<Rightarrow> 's \<Rightarrow> thrown + 's) \<Rightarrow> 's \<Rightarrow> thrown + 's" where
  "for_paths cfg check body s =
     bindE (cfgE (sel_name cfg check ''path'')) (\<lambda>paths.
       forE [0..<getLength cfg paths] (\<lambda>n s.
         bindE (cfgE (bindE (sel_idx cfg paths (word_of_nat n)) (as_string cfg))) (\<lambda>path. body path s)) s)"

definition load_alerter :: "config \<Rightarrow> 'a alerter \<Rightarrow> thrown + 'a alerter" where
  "load_alerter cfg al =
     bindE (setting2strvec cfg [] ''file_created_alert'') (\<lambda>file_created_alert.
     bindE (setting2strvec cfg [] ''file_changed_alert'') (\<lambda>file_changed_alert.
     bindE (setting2strvec cfg [] ''file_deleted_alert'') (\<lambda>file_deleted_alert.
       for_checks cfg (\<lambda>check a.
         bindE (setting2strvec cfg check ''file_created_alert'') (\<lambda>check_created_alert.
         bindE (setting2strvec cfg check ''file_changed_alert'') (\<lambda>check_changed_alert.
         bindE (setting2strvec cfg check ''file_deleted_alert'') (\<lambda>check_deleted_alert.
           for_paths cfg check (\<lambda>path a.
             Inr (add_rule DELETED path (lower_first check_deleted_alert file_deleted_alert)
                 (add_rule CHANGED path (lower_first check_changed_alert file_changed_alert)
                 (add_rule CREATED path (lower_first check_created_alert file_created_alert) a)))) a)))) al)))"

definition load_judge :: "(string \<Rightarrow> regmap \<Rightarrow> regmap) \<Rightarrow> config \<Rightarrow> ('db, 'a) judge \<Rightarrow> thrown + ('db, 'a) judge" where
  "load_judge hins cfg j =
     bindE (get_int_value_of cfg [] ''alert_interval'' 0) (\<lambda>interval.
       for_checks cfg (\<lambda>check j.
         bindE (setting2strvec cfg check ''filter'') (\<lambda>filter.
         bindE (setting2strvec cfg check ''grep'') (\<lambda>grep.
           for_paths cfg check (\<lambda>path j. Inr (add_grep hins path grep (add_filter hins path filter j))) j)))
         (set_interval (sint (interval * 60)) j))"

definition load_excluded_dir :: "config \<Rightarrow> ('db, 'a) watcher \<Rightarrow> thrown + ('db, 'a) watcher" where
  "load_excluded_dir cfg w =
     for_checks cfg (\<lambda>check w.
       bindE (setting2strvec cfg check ''filter'') (\<lambda>filter. Inr (exclude_dir filter w))) w"

text \<open>
  The first traversals.  \<open>trav\<close> is the run of \<open>add_dir\<close> with a directory, the
  recursive flag, the sleep count and the sleep interval; \<open>None\<close> is undefined
  behaviour in one of them.
\<close>

type_synonym ('db, 'a) traversal = "string \<Rightarrow> bool \<Rightarrow> nat \<Rightarrow> int \<Rightarrow> ('db, 'a) watcher \<Rightarrow> (('db, 'a) watcher \<times> action list) option"

definition load_watcher :: "('db, 'a) traversal \<Rightarrow> config \<Rightarrow> ('db, 'a) watcher \<Rightarrow>
    thrown + (('db, 'a) watcher \<times> action list) option" where
  "load_watcher trav cfg w =
     bindE (load_excluded_dir cfg w) (\<lambda>w.
     bindE (get_int_value_of cfg [] ''sleep_interval'' 0) (\<lambda>sleep_interval.
     bindE (get_int_value_of cfg [] ''sleep_count'' 0) (\<lambda>sleep_count.
       for_checks cfg (\<lambda>check st.
         let recursive = (case lookupValue as_int cfg check ''recursive'' of None \<Rightarrow> 0 | Some r \<Rightarrow> r)
         in for_paths cfg check (\<lambda>path st.
              Inr (case st of None \<Rightarrow> None
                   | Some (w, acts) \<Rightarrow>
                       map_option (\<lambda>(w', more). (w', acts @ more))
                         (trav path (recursive \<noteq> 0) (nat \<bar>sint sleep_count\<bar>) (sint sleep_interval) w))) st)
         (Some (w, [])))))"

text \<open>
  \<open>load_conf\<close> on what \<open>readFile\<close> did: it threw, or delivered a configuration.
  The \<open>catch\<close> clauses turn the exceptions of reading and missing settings into
  -1; no clause catches a \<open>SettingTypeException\<close> or \<open>std::logic_error\<close>, so
  those end the program.
\<close>

datatype 's loaded = Loaded 's | Failed int | Terminated thrown | Undefined

definition catch_conf :: "thrown \<Rightarrow> 's loaded" where
  "catch_conf e =
     (case e of
        Cfg FileIOException \<Rightarrow> Failed (-1)
      | Cfg (ParseException f l t) \<Rightarrow> Failed (-1)
      | Cfg (SettingNotFoundException p) \<Rightarrow> Failed (-1)
      | _ \<Rightarrow> Terminated e)"

definition load_all :: "('db, 'a) traversal \<Rightarrow> (string \<Rightarrow> regmap \<Rightarrow> regmap) \<Rightarrow> config \<Rightarrow> mailman \<Rightarrow>
    ('db, 'a) watcher \<Rightarrow> thrown + (mailman \<times> (('db, 'a) watcher \<times> action list) option)" where
  "load_all trav hins cfg m w =
     bindE (load_mailman cfg m) (\<lambda>m.
     bindE (load_alerter cfg (alerter (the_judge w))) (\<lambda>a.
     bindE (load_judge hins cfg ((the_judge w)\<lparr>alerter := a\<rparr>)) (\<lambda>j.
     bindE (load_watcher trav cfg (w\<lparr>the_judge := j\<rparr>)) (\<lambda>st. Inr (m, st)))))"

definition load_conf :: "('db, 'a) traversal \<Rightarrow> (string \<Rightarrow> regmap \<Rightarrow> regmap) \<Rightarrow> cfg_exn + config \<Rightarrow> mailman \<Rightarrow>
    ('db, 'a) watcher \<Rightarrow> (mailman \<times> ('db, 'a) watcher \<times> action list) loaded" where
  "load_conf trav hins rd m w =
     (case bindE (cfgE rd) (\<lambda>cfg. load_all trav hins cfg m w) of
        Inl e \<Rightarrow> catch_conf e
      | Inr (m', None) \<Rightarrow> Undefined
      | Inr (m', Some (w', acts)) \<Rightarrow> Loaded (m', w', acts))"

section \<open>The main program\<close>

datatype effect = Stop_command | Kill word32 | Daemon | Pid_file_written int | Threads_started | Pid_file_removed int

datatype run_end = Return int | Abort thrown | Undef

text \<open>
  \<open>main\<close>: the arguments with the program's name, the system, the own process
  id, and what loading the configuration gives for a value of the skip flag
  (the new watcher included).  The loop of the watcher runs after
  \<open>Threads_started\<close> and ends before \<open>Pid_file_removed\<close>.
\<close>

definition monitor_main :: "string list \<Rightarrow> system \<Rightarrow> word32 \<Rightarrow> (bool \<Rightarrow> 's loaded) \<Rightarrow> effect list \<times> run_end" where
  "monitor_main argv sys own ld =
     (if length argv < 2 then ([], Return (-1))
      else if argv ! 1 = ''--stop'' then
        (if \<not> is_running sys then ([], Return 0)
         else case get_pid sys of
             None \<Rightarrow> ([Stop_command], Return (-1))
           | Some pid \<Rightarrow> ([Stop_command, Kill pid], Return 0))
      else if argv ! 1 = ''--start'' \<and> is_running sys then ([], Return 0)
      else if argv ! 1 \<noteq> ''--start'' \<and> argv ! 1 \<noteq> ''--test'' then ([], Return 0)
      else let skip = (length argv \<ge> 3 \<and> argv ! 2 = ''--skip'');
               (sys', rc) = write_pid_file own sys;
               begun = (if argv ! 1 = ''--test'' then [] else [Daemon]) @ [Pid_file_written rc]
           in case ld skip of
                Failed n \<Rightarrow> (begun, Return (-1))
              | Terminated e \<Rightarrow> (begun, Abort e)
              | Undefined \<Rightarrow> (begun, Undef)
              | Loaded st \<Rightarrow> (begun @ [Threads_started, Pid_file_removed (snd (remove_pid_file sys'))], Return 0))"

section \<open>What the configuration says\<close>

text \<open>
  The strings of a member, the checks with a path, and the rules they set up:
  for every path the actions for created, changed and deleted files, those of
  the check if it has any and otherwise those of the root.
\<close>

definition str_of :: "config_setting \<Rightarrow> string" where
  "str_of e = (case sval e of None \<Rightarrow> [] | Some t \<Rightarrow> t)"

definition items :: "config_setting \<Rightarrow> config_setting list" where
  "items v = (if is_vector (s_type v) then elems v else [])"

definition strs :: "config_setting \<Rightarrow> string \<Rightarrow> string list" where
  "strs s name = (case member_of s name of None \<Rightarrow> [] | Some v \<Rightarrow> map str_of (items v))"

definition checks_of :: "config \<Rightarrow> config_setting list" where
  "checks_of cfg =
     (case member_of (root cfg) ''checks'' of None \<Rightarrow> []
      | Some v \<Rightarrow> filter (\<lambda>c. member_of c ''path'' \<noteq> None) (items v))"

definition actions_for :: "config \<Rightarrow> config_setting \<Rightarrow> string \<Rightarrow> string list" where
  "actions_for cfg check name = lower_first (strs check name) (strs (root cfg) name)"

definition level_name :: "int \<Rightarrow> string" where
  "level_name level = (if level = CREATED then ''file_created_alert''
     else if level = CHANGED then ''file_changed_alert'' else ''file_deleted_alert'')"

definition listed :: "config \<Rightarrow> (string \<times> config_setting) list" where
  "listed cfg = concat (map (\<lambda>check. map (\<lambda>p. (p, check)) (strs check ''path'')) (checks_of cfg))"

text \<open>The last check that lists a path, and the actions of a path.\<close>

definition last_check :: "config \<Rightarrow> string \<Rightarrow> config_setting option" where
  "last_check cfg p = map_of (rev (listed cfg)) p"

definition configured :: "config \<Rightarrow> int \<Rightarrow> string \<Rightarrow> string list option" where
  "configured cfg level p = map_option (\<lambda>check. actions_for cfg check (level_name level)) (last_check cfg p)"

text \<open>The nearest configured path above a directory, and its actions.\<close>

definition nearest :: "config \<Rightarrow> int \<Rightarrow> string \<Rightarrow> string \<Rightarrow> string list \<Rightarrow> bool" where
  "nearest cfg level dir p acts \<longleftrightarrow> covers p dir \<and> length (stringtrim p) \<noteq> 0 \<and> configured cfg level p = Some acts
     \<and> (\<forall>q. covers q dir \<and> length p < length q \<longrightarrow> length (stringtrim q) = 0 \<or> configured cfg level q = None)"

text \<open>The calls a list of actions stands for.\<close>

definition calls_for :: "string list \<Rightarrow> int \<Rightarrow> string \<Rightarrow> string \<Rightarrow> (act \<times> int \<times> string \<times> string) list" where
  "calls_for acts level dir name = concat (map (\<lambda>t. if t = ''mail'' then [(Send_mail, level, dir, name)]
     else if t = ''log'' then [(Log_alert, level, dir, name)] else []) acts)"

section \<open>Loops that may throw\<close>

lemma forE_fold:
  assumes "\<And>x s s'. x \<in> set xs \<Longrightarrow> f x s = Inr s' \<Longrightarrow> s' = h x s" "forE xs f s = Inr s'"
  shows "s' = fold h xs s"
  using assms
proof (induction xs arbitrary: s)
  case (Cons x xs)
  then obtain s1 where s1: "f x s = Inr s1" "forE xs f s1 = Inr s'" by (auto simp: bindE_Inr)
  have "s1 = h x s" using Cons.prems(1) s1(1) by simp
  moreover have "s' = fold h xs s1" using Cons.prems(1) by (intro Cons.IH [OF _ s1(2)]) simp
  ultimately show ?case by simp
qed simp

lemma fold_snoc: "fold (\<lambda>i v. v @ [g i]) is v = v @ map g is"
  by (induction "is" arbitrary: v) auto

lemma fold_index: "fold (\<lambda>i. h (xs ! i)) [0..<length xs] s = fold h xs s"
proof -
  have "fold (\<lambda>i. h (xs ! i)) [0..<length xs] s = fold h (map ((!) xs) [0..<length xs]) s"
    by (simp add: fold_map o_def)
  then show ?thesis by (simp add: map_nth)
qed

section \<open>The settings behind the loaders' pointers\<close>

lemma sel_name_node:
  assumes "setting_at (root cfg) ip = Some s" "sel_name cfg ip name = Inr ip'"
  shows "\<exists>k. config_setting_get_member s name = Some k \<and> ip' = ip @ [k] \<and> k < length (elems s)
     \<and> setting_at (root cfg) ip' = Some (elems s ! k)"
  using assms get_member_bound [of s name] node_at [OF assms(1)]
  by (auto simp: sel_name_def bindE_Inr setting_at_append split: option.splits)

lemma exists_name_node:
  assumes "setting_at (root cfg) ip = Some s"
  shows "exists_name cfg ip name \<longleftrightarrow> member_of s name \<noteq> None"
  using node_at [OF assms] by (auto simp: exists_name_def member_of_def config_setting_get_member_def)

lemma sel_name_member:
  assumes "setting_at (root cfg) ip = Some s" "sel_name cfg ip name = Inr ip'"
  obtains v where "member_of s name = Some v" "setting_at (root cfg) ip' = Some v"
  using sel_name_node [OF assms] that by (auto simp: member_of_def)

lemma getLength_items: "setting_at (root cfg) ip = Some v \<Longrightarrow> getLength cfg ip = length (items v)"
  using length_vector [of v] by (auto simp: getLength_def node_at items_def is_vector_def config_setting_length_def)

lemma small_at: "small s \<Longrightarrow> setting_at s ip = Some v \<Longrightarrow> small v"
  by (induction s ip rule: setting_at.induct) (auto split: if_splits dest: smallD)

lemma sel_idx_item:
  assumes "setting_at (root cfg) ip = Some v" "small (root cfg)" "i < length (items v)"
    "sel_idx cfg ip (word_of_nat i) = Inr ip'"
  shows "setting_at (root cfg) ip' = Some (items v ! i)"
proof -
  have l: "length (elems v) < 2 ^ 31" using smallD [OF small_at [OF assms(2,1)]] by simp
  have i: "i < length (elems v)" "items v = elems v" using assms(3) by (auto simp: items_def split: if_splits)
  then have u: "unat (word_of_nat i :: word32) = i" using l by (simp add: unat_of_nat take_bit_nat_eq_self)
  have "ip' = ip @ [i]"
    using assms(4) node_at [OF assms(1)] u
    by (auto simp: sel_idx_def config_setting_get_elem_def split: if_splits option.splits)
  then show ?thesis using assms(1) i by (simp add: setting_at_append)
qed

section \<open>What the loaders do\<close>

lemma setting2strvec_strs:
  assumes s: "setting_at (root cfg) ip = Some s" and sm: "small (root cfg)"
    and v: "setting2strvec cfg ip name = Inr vec"
  shows "vec = strs s name"
proof (cases "exists_name cfg ip name")
  case False
  then show ?thesis using v exists_name_node [OF s, of name] by (simp add: setting2strvec_def strs_def)
next
  case True
  obtain ip' where ip': "sel_name cfg ip name = Inr ip'"
    and f: "forE [0..<getLength cfg ip'] (push_string cfg ip') [] = Inr vec"
    using v True by (auto simp: setting2strvec_def bindE_Inr cfgE_Inr)
  obtain m where m: "member_of s name = Some m" "setting_at (root cfg) ip' = Some m"
    using sel_name_member [OF s ip'] .
  have step: "w' = w @ [str_of (items m ! i)]"
    if i: "i \<in> set [0..<length (items m)]" and p: "push_string cfg ip' i w = Inr w'" for i w w'
  proof -
    obtain e t where e: "sel_idx cfg ip' (word_of_nat i) = Inr e" "as_cstr cfg e = Inr (Some t)" "w' = w @ [t]"
      using p by (auto simp: push_string_def bindE_Inr cfgE_Inr split: option.splits)
    have "setting_at (root cfg) e = Some (items m ! i)"
      using sel_idx_item [OF m(2) sm _ e(1)] i by simp
    then show ?thesis
      using e(2,3) node_at by (auto simp: as_cstr_def bindE_Inr config_setting_get_string_def str_of_def split: if_splits)
  qed
  have "vec = fold (\<lambda>i w. w @ [str_of (items m ! i)]) [0..<length (items m)] []"
    by (rule forE_fold [OF step f [unfolded getLength_items [OF m(2)]]])
  also have "\<dots> = map str_of (items m)" unfolding fold_snoc by (rule nth_equalityI) simp_all
  finally show ?thesis using m(1) by (simp add: strs_def)
qed

lemma for_paths_fold:
  assumes s: "setting_at (root cfg) check = Some c" and sm: "small (root cfg)"
    and body: "\<And>p st st'. body p st = Inr st' \<Longrightarrow> st' = h p st"
    and r: "for_paths cfg check body st = Inr st'"
  shows "st' = fold h (strs c ''path'') st"
proof -
  obtain ip where ip: "sel_name cfg check ''path'' = Inr ip"
    and f: "forE [0..<getLength cfg ip] (\<lambda>n s. bindE (cfgE (bindE (sel_idx cfg ip (word_of_nat n)) (as_string cfg)))
        (\<lambda>path. body path s)) st = Inr st'"
    using r by (auto simp: for_paths_def bindE_Inr cfgE_Inr)
  obtain m where m: "member_of c ''path'' = Some m" "setting_at (root cfg) ip = Some m"
    using sel_name_member [OF s ip] .
  have step: "w' = h (str_of (items m ! i)) w"
    if i: "i \<in> set [0..<length (items m)]"
      and p: "bindE (cfgE (bindE (sel_idx cfg ip (word_of_nat i)) (as_string cfg))) (\<lambda>path. body path w) = Inr w'" for i w w'
  proof -
    obtain e t where e: "sel_idx cfg ip (word_of_nat i) = Inr e" "as_string cfg e = Inr t" "body t w = Inr w'"
      using p by (auto simp: bindE_Inr cfgE_Inr)
    have "setting_at (root cfg) e = Some (items m ! i)"
      using sel_idx_item [OF m(2) sm _ e(1)] i by simp
    then have "t = str_of (items m ! i)"
      using e(2) node_at by (auto simp: as_string_def bindE_Inr assertType_def isNumber_def
          config_setting_get_string_def str_of_def split: if_splits)
    then show ?thesis using body [OF e(3)] by simp
  qed
  have "st' = fold (\<lambda>i. h (str_of (items m ! i))) [0..<length (items m)] st"
    by (rule forE_fold [OF step f [unfolded getLength_items [OF m(2)]]])
  then show ?thesis
    using m(1) fold_index [of "\<lambda>e. h (str_of e)" "items m" st] by (simp add: strs_def fold_map o_def)
qed

lemma for_checks_fold:
  assumes sm: "small (root cfg)"
    and body: "\<And>check c st st'. setting_at (root cfg) check = Some c \<Longrightarrow> body check st = Inr st' \<Longrightarrow> st' = h c st"
    and r: "for_checks cfg body st = Inr st'"
  shows "st' = fold h (checks_of cfg) st"
proof -
  let ?body = "\<lambda>ip i s. bindE (cfgE (sel_idx cfg ip (word_of_nat i))) (\<lambda>check.
           if \<not> exists_name cfg check ''path'' then Inr s else body check s)"
  let ?h = "\<lambda>c s. if member_of c ''path'' = None then s else h c s"
  obtain ip where ip: "sel_name cfg [] ''checks'' = Inr ip"
    and f: "forE [0..<getLength cfg ip] (?body ip) st = Inr st'"
    using r by (auto simp: for_checks_def bindE_Inr cfgE_Inr)
  have rt: "setting_at (root cfg) [] = Some (root cfg)" by simp
  obtain m where m: "member_of (root cfg) ''checks'' = Some m" "setting_at (root cfg) ip = Some m"
    using sel_name_member [OF rt ip] .
  have step: "w' = ?h (items m ! i) w" if i: "i \<in> set [0..<length (items m)]" and p: "?body ip i w = Inr w'" for i w w'
  proof -
    obtain e where e: "sel_idx cfg ip (word_of_nat i) = Inr e"
      "(if \<not> exists_name cfg e ''path'' then Inr w else body e w) = Inr w'"
      using p by (auto simp: bindE_Inr cfgE_Inr)
    have at: "setting_at (root cfg) e = Some (items m ! i)"
      using sel_idx_item [OF m(2) sm _ e(1)] i by simp
    then show ?thesis using e(2) body [OF at] exists_name_node [OF at] by (auto split: if_splits)
  qed
  have "st' = fold (\<lambda>i. ?h (items m ! i)) [0..<length (items m)] st"
    by (rule forE_fold [OF step f [unfolded getLength_items [OF m(2)]]])
  also have "\<dots> = fold ?h (items m) st" by (rule fold_index)
  also have "\<dots> = fold h (filter (\<lambda>c. member_of c ''path'' \<noteq> None) (items m)) st"
    by (simp add: fold_filter) (rule fold_cong; auto)
  finally show ?thesis using m(1) by (simp add: checks_of_def)
qed

definition add_rules :: "config \<Rightarrow> string \<times> config_setting \<Rightarrow> 'a alerter \<Rightarrow> 'a alerter" where
  "add_rules cfg e a = (case e of (p, check) \<Rightarrow>
     fold (\<lambda>level. add_rule level p (actions_for cfg check (level_name level))) [CREATED, CHANGED, DELETED] a)"

lemma load_alerter_fold:
  assumes sm: "small (root cfg)" and r: "load_alerter cfg a = Inr a'"
  shows "a' = fold (add_rules cfg) (listed cfg) a"
proof -
  have rt: "setting_at (root cfg) [] = Some (root cfg)" by simp
  note root_strs = setting2strvec_strs [OF rt sm]
  obtain fc fh fd where v: "setting2strvec cfg [] ''file_created_alert'' = Inr fc"
    "setting2strvec cfg [] ''file_changed_alert'' = Inr fh" "setting2strvec cfg [] ''file_deleted_alert'' = Inr fd"
    and f: "for_checks cfg (\<lambda>check a.
         bindE (setting2strvec cfg check ''file_created_alert'') (\<lambda>cc.
         bindE (setting2strvec cfg check ''file_changed_alert'') (\<lambda>ch.
         bindE (setting2strvec cfg check ''file_deleted_alert'') (\<lambda>cd.
           for_paths cfg check (\<lambda>path a.
             Inr (add_rule DELETED path (lower_first cd fd)
                 (add_rule CHANGED path (lower_first ch fh)
                 (add_rule CREATED path (lower_first cc fc) a)))) a)))) a = Inr a'"
    using r by (auto simp: load_alerter_def bindE_Inr)
  have lv: "level_name CREATED = ''file_created_alert''" "level_name CHANGED = ''file_changed_alert''"
    "level_name DELETED = ''file_deleted_alert''"
    by (simp_all add: level_name_def CREATED_def CHANGED_def DELETED_def)
  have "a' = fold (\<lambda>c. fold (\<lambda>p. add_rules cfg (p, c)) (strs c ''path'')) (checks_of cfg) a"
  proof (rule for_checks_fold [OF sm _ f], goal_cases)
    case (1 check c st st')
    obtain cc ch cd where cv: "setting2strvec cfg check ''file_created_alert'' = Inr cc"
      "setting2strvec cfg check ''file_changed_alert'' = Inr ch" "setting2strvec cfg check ''file_deleted_alert'' = Inr cd"
      and p: "for_paths cfg check (\<lambda>path a.
             Inr (add_rule DELETED path (lower_first cd fd)
                 (add_rule CHANGED path (lower_first ch fh)
                 (add_rule CREATED path (lower_first cc fc) a)))) st = Inr st'"
      using 1(2) by (auto simp: bindE_Inr)
    note cs = setting2strvec_strs [OF 1(1) sm]
    show ?case
      by (rule for_paths_fold [OF 1(1) sm _ p])
        (simp add: add_rules_def actions_for_def lv cs [OF cv(1)] cs [OF cv(2)] cs [OF cv(3)]
          root_strs [OF v(1)] root_strs [OF v(2)] root_strs [OF v(3)])
  qed
  also have "\<dots> = fold (add_rules cfg) (listed cfg) a"
  proof -
    have "fold (\<lambda>c. fold (\<lambda>p. add_rules cfg (p, c)) (strs c ''path'')) cs a
        = fold (add_rules cfg) (concat (map (\<lambda>check. map (\<lambda>p. (p, check)) (strs check ''path'')) cs)) a" for cs
      by (induction cs arbitrary: a) (simp_all add: fold_map o_def)
    then show ?thesis by (simp add: listed_def)
  qed
  finally show ?thesis .
qed

lemma level_cases: "level \<in> {CREATED, CHANGED, DELETED} \<longleftrightarrow> level = 1 \<or> level = 2 \<or> level = 3"
  by (auto simp: CREATED_def CHANGED_def DELETED_def)

lemma add_rules_conf:
  assumes "level \<in> {CREATED, CHANGED, DELETED}"
  shows "conf (add_rules cfg (p, check) a) (q, level)
     = (if q = p \<and> length (stringtrim p) \<noteq> 0 then Some (actions_for cfg check (level_name level)) else conf a (q, level))"
  using assms by (auto simp: add_rules_def add_rule_def CREATED_def CHANGED_def DELETED_def)

lemma add_rules_actions [simp]: "actions (add_rules cfg e a) = actions a"
  by (cases e) (simp add: add_rules_def add_rule_def)

lemma fold_rules_conf:
  assumes "level \<in> {CREATED, CHANGED, DELETED}"
  shows "conf (fold (add_rules cfg) xs a) (q, level)
     = (if length (stringtrim q) = 0 then conf a (q, level)
        else case map_of (rev xs) q of None \<Rightarrow> conf a (q, level)
             | Some check \<Rightarrow> Some (actions_for cfg check (level_name level)))"
proof (induction xs rule: rev_induct)
  case (snoc x xs)
  then show ?case using assms by (cases x) (auto simp: add_rules_conf map_add_def split: option.splits)
qed simp

lemma fold_rules_actions: "actions (fold (add_rules cfg) xs a) = actions a"
  by (induction xs arbitrary: a) simp_all

lemma load_alerter_conf:
  assumes "small (root cfg)" "load_alerter cfg (init_action empty_alerter) = Inr a"
    "level \<in> {CREATED, CHANGED, DELETED}"
  shows "conf a (q, level) = (if length (stringtrim q) = 0 then None else configured cfg level q)"
    and "actions a = [''mail'' \<mapsto> Send_mail, ''log'' \<mapsto> Log_alert]"
  unfolding load_alerter_fold [OF assms(1,2)] fold_rules_conf [OF assms(3)] fold_rules_actions
  by (auto simp: init_action_def add_action_def empty_alerter_def configured_def last_check_def split: option.splits)

section \<open>Printed numbers are short\<close>

lemma length_show_nat: "n < 10 ^ k \<Longrightarrow> 0 < k \<Longrightarrow> length (show_nat n) \<le> k"
proof (induction k arbitrary: n)
  case (Suc k)
  show ?case
  proof (cases "n < 10")
    case True
    then show ?thesis by (simp add: show_nat.simps [of n])
  next
    case False
    then have "0 < k" using Suc.prems by (cases k) auto
    moreover have "n div 10 < 10 ^ k" using Suc.prems by (simp add: less_mult_imp_div_less mult.commute)
    ultimately have "length (show_nat (n div 10)) \<le> k" by (rule Suc.IH [rotated])
    then show ?thesis using False by (simp add: show_nat.simps [of n])
  qed
qed simp

lemma length_show_int32: "length (show_int (sint (w :: word32))) \<le> 11"
proof -
  have "nat (sint w) < 10 ^ 10" "nat (- sint w) < 10 ^ 10" using sint32_range [of w] by simp_all
  then have "length (show_nat (nat (sint w))) \<le> 10" "length (show_nat (nat (- sint w))) \<le> 10"
    by (intro length_show_nat; simp)+
  then show ?thesis by (simp add: show_int_def)
qed

lemma atoi_line: "atoi (show_int (sint (w :: word32)) @ CHR 0x0A # r) = w"
proof -
  have "- (2 ^ 63) \<le> sint w" "sint w < 2 ^ 63" using sint32_range [of w] by simp_all
  then have "strtol10 (show_int (sint w) @ CHR 0x0A # r) = sint w"
    by (intro strtol10_show_int) (auto simp: isdigit_def)
  then show ?thesis by (simp add: atoi_def)
qed

section \<open>Alerts\<close>

lemma alert_nearest:
  assumes "small (root cfg)" "load_alerter cfg (init_action empty_alerter) = Inr a"
    "level \<in> {CREATED, CHANGED, DELETED}"
  shows "(\<forall>p act. nearest cfg level dir p act \<longrightarrow>
      alert a level dir name = calls_for act level dir name)
    \<and> ((\<nexists>p act. nearest cfg level dir p act) \<longrightarrow> alert a level dir name = [])"
proof -
  note c = load_alerter_conf(1) [OF assms(1-3)]
  have act: "actions a = [''mail'' \<mapsto> Send_mail, ''log'' \<mapsto> Log_alert]"
    by (rule load_alerter_conf(2) [OF assms(1-3)])
  have s: "search_rule a level dir = Some x \<longleftrightarrow> (\<exists>p. nearest cfg level dir p x)" for x
  proof -
    have "covers p dir \<and> conf a (p, level) = Some x \<and> (\<forall>q. covers q dir \<and> length p < length q \<longrightarrow> conf a (q, level) = None)
        \<longleftrightarrow> nearest cfg level dir p x" for p
      unfolding nearest_def c by (cases "length (stringtrim p) = 0") (simp_all, metis option.distinct(1))
    then show ?thesis unfolding search_rule_spec by simp
  qed
  have run: "run_actions a level dir name x = calls_for x level dir name" for x
    unfolding run_actions_def act calls_for_def by (rule arg_cong [where f = concat], rule map_cong) auto
  have "alert a level dir name = run_actions a level dir name x" if "nearest cfg level dir p x" for p x
    proof -
    have "search_rule a level dir = Some x" using s that by blast
    then show ?thesis by (simp add: alert_def)
  qed
  moreover have "search_rule a level dir = None" if "\<nexists>p x. nearest cfg level dir p x"
    using s that by (cases "search_rule a level dir") auto
  ultimately show ?thesis by (auto simp: run alert_def)
qed

section \<open>Properties\<close>

text \<open>
  C18. Alerts go where the configuration says: once the rules are loaded, an
  alert for a file in a directory runs the actions of the nearest configured
  path above it, namely those the last check that lists the path names for the
  kind of the alert, or those of the root when the check names none; \<open>mail\<close> and
  \<open>log\<close> are the actions, other names are ignored, and without a configured path
  above there is no alert.
\<close>

theorem alerts_as_configured:
  assumes "small (root cfg)" "load_alerter cfg (init_action empty_alerter) = Inr a"
    "level \<in> {CREATED, CHANGED, DELETED}"
  shows "(\<forall>p act. nearest cfg level dir p act \<longrightarrow>
      alert a level dir name = calls_for act level dir name)
    \<and> ((\<nexists>p act. nearest cfg level dir p act) \<longrightarrow> alert a level dir name = [])"
  by (rule alert_nearest [OF assms])

text \<open>
  C36. The pid file works over stale contents: after \<open>write_pid_file\<close> succeeded
  in writing, with whatever an earlier and maybe longer file contained, \<open>get_pid\<close>
  reads the own process id back; so a later \<open>--stop\<close> sends the signal to this
  very process when it runs under the program's name.
\<close>

theorem pid_file_roundtrip:
  assumes "\<not> is_running sys" "writable sys"
  shows "get_pid (fst (write_pid_file pid sys)) = Some pid
    \<and> (alive sys pid \<and> comm sys pid = Some (a @ ''zzhelper'' @ b) \<longrightarrow>
       monitor_main [prog, ''--stop''] (fst (write_pid_file pid sys)) own ld = ([Stop_command, Kill pid], Return 0))"
proof -
  define old where "old = (case pid_file sys of None \<Rightarrow> [] | Some b \<Rightarrow> b)"
  define line where "line = show_int (sint pid) @ [CHR 0x0A]"
  have f: "fst (write_pid_file pid sys) = sys\<lparr>pid_file := Some (line @ drop (length line) old)\<rparr>"
    using assms by (simp add: write_pid_file_def Let_def old_def line_def)
  have "take 255 (line @ drop (length line) old) = show_int (sint pid) @ CHR 0x0A # take (255 - length line) (drop (length line) old)"
    using length_show_int32 [of pid] by (simp add: line_def take_Cons')
  then have g: "get_pid (fst (write_pid_file pid sys)) = Some pid"
    unfolding f get_pid_def by (simp add: atoi_line)
  have "strstr (a @ ''zzhelper'' @ b) ''zzhelper'' \<noteq> None" by (induction a) simp_all
  then have "is_running (fst (write_pid_file pid sys))" if "alive sys pid" "comm sys pid = Some (a @ ''zzhelper'' @ b)"
    using that g by (simp add: is_running_def f)
  then show ?thesis using g by (simp add: monitor_main_def)
qed

text \<open>
  C35. A value of the wrong type is not a handled error: when the mail group and
  the rules load and \<open>alert_interval\<close> is there but not an integer, no clause of
  \<open>load_conf\<close> catches the exception, and \<open>main\<close> aborts with the pid file left
  behind; a configuration without the \<open>mail\<close> group, in contrast, makes it return.
\<close>

theorem wrong_type_aborts:
  assumes "load_mailman cfg m = Inr m'" "load_alerter cfg (alerter (the_judge w)) = Inr a"
    "member_of (root cfg) ''alert_interval'' = Some v" "s_type v \<noteq> CONFIG_TYPE_INT" "\<not> config_get_auto_convert cfg"
    "\<not> is_running sys"
  shows "\<exists>e rc. load_conf trav hins (Inr cfg) m w = Terminated (Cfg (SettingTypeException e))
    \<and> monitor_main [prog, ''--start''] sys own (\<lambda>skip. load_conf trav hins (Inr cfg) m w)
      = ([Daemon, Pid_file_written rc], Abort (Cfg (SettingTypeException e)))"
proof -
  have rt: "setting_at (root cfg) [] = Some (root cfg)" by simp
  obtain k where k: "config_setting_get_member (root cfg) ''alert_interval'' = Some k" "elems (root cfg) ! k = v"
    using assms(3) by (auto simp: member_of_def)
  have n: "node cfg [] = root cfg" by (simp add: node_def)
  have g: "s_type (root cfg) = CONFIG_TYPE_GROUP" using k(1) by (auto simp: config_setting_get_member_def split: if_splits)
  have "sel_name cfg [] ''alert_interval'' = Inr [k]"
    using k(1) g by (simp add: sel_name_def assertType_def n)
  moreover have "node cfg [k] = v" using k get_member_bound [OF k(1)] by (simp add: node_def)
  ultimately have "get_int_value_of cfg [] ''alert_interval'' 0 = Inl (Cfg (SettingTypeException (path_of cfg [k])))"
    using assms(3-5) exists_name_node [OF rt] by (simp add: get_int_value_of_def as_int_def assertType_def)
  then have "load_conf trav hins (Inr cfg) m w = Terminated (Cfg (SettingTypeException (path_of cfg [k])))"
    using assms(1,2) by (simp add: load_conf_def load_all_def load_judge_def catch_conf_def)
  then show ?thesis using assms(6) by (auto simp: monitor_main_def split: prod.splits)
qed

section \<open>Witnesses\<close>

definition text_setting :: "string option \<Rightarrow> string \<Rightarrow> config_setting" where
  "text_setting name t = Setting name CONFIG_TYPE_STRING 0 (VSval t) None 0 None"

definition tree :: "string option \<Rightarrow> ctype \<Rightarrow> config_setting list \<Rightarrow> config_setting" where
  "tree name t xs = Setting name t 0 (VList xs) None 0 None"

definition sample_check :: config_setting where
  "sample_check = tree None CONFIG_TYPE_GROUP [tree (Some ''path'') CONFIG_TYPE_ARRAY [text_setting None ''/etc'']]"

definition sample_cfg :: config where
  "sample_cfg = config_init\<lparr>root := tree None CONFIG_TYPE_GROUP
     [tree (Some ''mail'') CONFIG_TYPE_GROUP
        [text_setting (Some ''server'') ''s'', text_setting (Some ''from'') ''f'',
         text_setting (Some ''username'') ''u'', text_setting (Some ''password'') ''p''],
      tree (Some ''file_changed_alert'') CONFIG_TYPE_ARRAY [text_setting None ''mail''],
      text_setting (Some ''alert_interval'') ''30'',
      tree (Some ''checks'') CONFIG_TYPE_LIST [sample_check]]\<rparr>"

lemma sample_small: "small (root sample_cfg)"
  by (simp add: sample_cfg_def sample_check_def tree_def text_setting_def)

lemma sample_rules: "\<not> isl (load_alerter sample_cfg (init_action empty_alerter :: act alerter))"
  by code_simp

theorem alerts_as_configured_witness:
  "\<exists>a. load_alerter sample_cfg (init_action empty_alerter) = Inr a
     \<and> alert a CHANGED ''/etc/ssh'' ''/etc/ssh/key'' = [(Send_mail, CHANGED, ''/etc/ssh'', ''/etc/ssh/key'')]"
proof -
  obtain a :: "act alerter" where a: "load_alerter sample_cfg (init_action empty_alerter) = Inr a"
    using sample_rules by (cases "load_alerter sample_cfg (init_action empty_alerter :: act alerter)") auto
  have l: "listed sample_cfg = [(''/etc'', sample_check)]" by code_simp
  have c: "actions_for sample_cfg sample_check (level_name CHANGED) = [''mail'']" by code_simp
  have t: "length (stringtrim ''/etc'') \<noteq> 0" by code_simp
  have "nearest sample_cfg CHANGED ''/etc/ssh'' ''/etc'' [''mail'']"
    using t by (auto simp: nearest_def configured_def last_check_def l c covers_def is_sep_def)
  then show ?thesis
    using alerts_as_configured [OF sample_small a, of CHANGED "''/etc/ssh''" "''/etc/ssh/key''"] a by (auto simp: calls_for_def)
qed

definition sample_system :: system where
  "sample_system = \<lparr>pid_file = Some ''1234567'', comm = (\<lambda>p. Some ''zzhelper''), alive = (\<lambda>p. p = 42), writable = True\<rparr>"

lemma sample_not_running: "\<not> is_running sample_system"
proof -
  have "atoi ''1234567'' = 1234567"
    by (simp add: atoi_def strtol10_def isspace_def isdigit_def dec_val_def)
  then show ?thesis by (simp add: is_running_def get_pid_def sample_system_def)
qed

theorem pid_file_roundtrip_witness:
  "monitor_main [''zzhelper'', ''--stop''] (fst (write_pid_file 42 sample_system)) 7 (\<lambda>s. Failed (-1) :: unit loaded)
   = ([Stop_command, Kill 42], Return 0)"
proof -
  have "alive sample_system 42 \<and> comm sample_system 42 = Some ([] @ ''zzhelper'' @ [])" "writable sample_system"
    by (simp_all add: sample_system_def)
  then show ?thesis
    using pid_file_roundtrip [OF sample_not_running, of 42 "[]" "[]" "''zzhelper''" 7 "\<lambda>s. Failed (-1)"] by blast
qed

theorem wrong_type_aborts_witness:
  "\<exists>e rc. monitor_main [''zzhelper'', ''--start''] sample_system 7
     (\<lambda>skip. load_conf (\<lambda>d r c i w. Some (w, [])) (\<lambda>k m. (k, []) # m) (Inr sample_cfg)
       \<lparr>m_to = [], m_from = [], m_smtpserver = [], m_username = [], m_password = []\<rparr>
       sample_watcher)
   = ([Daemon, Pid_file_written rc], Abort (Cfg (SettingTypeException e)))"
proof -
  let ?m = "\<lparr>m_to = [], m_from = [], m_smtpserver = [], m_username = [], m_password = []\<rparr>"
  have m: "\<not> isl (load_mailman sample_cfg ?m)" by code_simp
  have a: "\<not> isl (load_alerter sample_cfg (alerter (the_judge sample_watcher)))" by code_simp
  obtain m' where m': "load_mailman sample_cfg ?m = Inr m'" using m by (cases "load_mailman sample_cfg ?m") auto
  obtain a' where a': "load_alerter sample_cfg (alerter (the_judge sample_watcher)) = Inr a'"
    using a by (cases "load_alerter sample_cfg (alerter (the_judge sample_watcher))") auto
  have v: "member_of (root sample_cfg) ''alert_interval'' = Some (text_setting (Some ''alert_interval'') ''30'')"
    by code_simp
  have "s_type (text_setting (Some ''alert_interval'') ''30'') \<noteq> CONFIG_TYPE_INT" by (simp add: text_setting_def)
  moreover have "\<not> config_get_auto_convert sample_cfg" by code_simp
  ultimately show ?thesis
    using wrong_type_aborts [OF m' a' v _ _ sample_not_running] by blast
qed

end
