(* ===== verification/Mailman.thy ===== *)
theory Mailman
  imports Monitor
begin

text \<open>
  The mailer (\<open>src/mailman.h\<close>, \<open>src/mailman.cpp\<close>): one SMTP dialogue over a
  connection.  The network is a parameter: the result of \<open>connect_tcp\<close> and
  what the successive \<open>recv\<close> calls deliver (\<open>None\<close> for a closed or failed
  connection).  The fixed buffers of \<open>snprintf\<close> truncate, as in the code;
  results of \<open>send\<close> are ignored there, so the messages handed to it are the
  transcript.
\<close>

section \<open>Pieces\<close>

definition SMTP_PORT :: nat where
  "SMTP_PORT = 25"

text \<open>\<open>snprintf(buf, n, ...)\<close>: at most n - 1 characters and the NUL.\<close>

definition snprintf :: "nat \<Rightarrow> string \<Rightarrow> string" where
  "snprintf n s = take (n - 1) s"

text \<open>\<open>connect_tcp\<close>: the socket, or -1 without an address or when a call fails.\<close>

definition connect_tcp :: "int \<Rightarrow> (string \<Rightarrow> bool) \<Rightarrow> string \<Rightarrow> int" where
  "connect_tcp ossock connects ip =
     (if ossock < 0 then -1 else if ip = [] then -1 else if \<not> connects ip then -1 else ossock)"

text \<open>\<open>recv_tcp\<close> reads at most size - 1 characters; the string ends at the first NUL.\<close>

definition recv_tcp :: "string option \<Rightarrow> nat \<Rightarrow> string option" where
  "recv_tcp r sz =
     (case r of None \<Rightarrow> None
      | Some bs \<Rightarrow> if length (take (sz - 1) bs) = 0 then None
                  else Some (takeWhile (\<lambda>c. c \<noteq> CHR 0x00) (take (sz - 1) bs)))"

text \<open>\<open>match\<close> throws unless the answer begins with the token.\<close>

definition match_token :: "string \<Rightarrow> string option \<Rightarrow> string + unit" where
  "match_token token str =
     (case str of
        None \<Rightarrow> Inl ''ddd''
      | Some s \<Rightarrow>
          if length token > length s \<or> take (length token) s \<noteq> token
          then Inl (snprintf 512 (''mismatch '' @ token @ '':'' @ s))
          else Inr ())"

section \<open>The dialogue\<close>

text \<open>The straight-line code as the calls it makes on the connection.\<close>

datatype io = Send string | Expect string | Recv

definition line127 :: "string \<Rightarrow> string" where
  "line127 s = snprintf 127 s"

definition greeting :: "mailman \<Rightarrow> io list" where
  "greeting m =
     [Expect ''220'', Send (''Helo world'' @ CRLF), Expect ''250'',
      Send (line127 (''AUTH LOGIN'' @ CRLF)), Expect ''334'',
      Send (line127 (m_username m @ CRLF)), Expect ''334'',
      Send (line127 (m_password m @ CRLF)), Expect ''235'',
      Send (line127 (''Mail From: <'' @ m_from m @ ''>'' @ CRLF)), Expect ''250'']"

definition recipients :: "mailman \<Rightarrow> io list" where
  "recipients m =
     concat (map (\<lambda>it. [Send (line127 (''Rcpt To: <'' @ it @ ''>'' @ CRLF)), Expect ''250'']) (m_to m))"

definition headers :: "mailman \<Rightarrow> string \<Rightarrow> string \<Rightarrow> io list" where
  "headers m date subject =
     map (\<lambda>it. Send (line127 (''To: <'' @ it @ ''>'' @ CRLF))) (m_to m)
     @ [Send (line127 (''From: file checker <'' @ m_from m @ ''>'' @ CRLF)),
        Send date,
        Send (line127 (''Subject: '' @ subject @ CRLF))]"

definition dialogue :: "mailman \<Rightarrow> string \<Rightarrow> string \<Rightarrow> string \<Rightarrow> io list" where
  "dialogue m date subject body =
     greeting m @ recipients m
     @ [Send (''DATA'' @ CRLF), Expect ''354'']
     @ headers m date subject
     @ [Send (snprintf 512 (CRLF @ body @ CRLF)), Send (CRLF @ ''.'' @ CRLF), Expect ''250'',
        Send (''QUIT'' @ CRLF), Recv]"

text \<open>
  Running the calls against the answers: the messages sent, and whether an
  exception ended the dialogue.
\<close>

fun run_io :: "io list \<Rightarrow> (string option) list \<Rightarrow> string list \<times> bool" where
  "run_io [] rs = ([], True)"
| "run_io (Send s # ios) rs = (let (sent, ok) = run_io ios rs in (s # sent, ok))"
| "run_io (Recv # ios) rs = run_io ios (tl rs)"
| "run_io (Expect token # ios) rs =
     (case match_token token (recv_tcp (case rs of [] \<Rightarrow> None | r # _ \<Rightarrow> r) 1024) of
        Inl e \<Rightarrow> ([], False)
      | Inr _ \<Rightarrow> run_io ios (tl rs))"

text \<open>\<open>sendmail\<close>: the returned code, the messages sent, and whether the socket was closed.\<close>

definition sendmail :: "int \<Rightarrow> (string \<Rightarrow> bool) \<Rightarrow> (string option) list \<Rightarrow> string \<Rightarrow> mailman \<Rightarrow> string \<Rightarrow> string \<Rightarrow>
    int \<times> string list \<times> bool" where
  "sendmail ossock connects rs date m subject body =
     (let socket = connect_tcp ossock connects (m_smtpserver m)
      in if socket < 0 then (socket, [], False)
         else let (sent, ok) = run_io (dialogue m date subject body) rs in (0, sent, ok))"

section \<open>The exchange of SMTP\<close>

text \<open>
  The protocol as a table: the messages of a turn of the client and the code the
  server answers them with.  \<open>fit\<close> is what a buffer of a given size does to a line.
\<close>

definition smtp_exchange :: "(nat \<Rightarrow> string \<Rightarrow> string) \<Rightarrow> mailman \<Rightarrow> string \<Rightarrow> string \<Rightarrow> string \<Rightarrow> (string list \<times> string) list" where
  "smtp_exchange fit m date subject body =
     [([], ''220''),
      ([''Helo world'' @ CRLF], ''250''),
      ([''AUTH LOGIN'' @ CRLF], ''334''),
      ([fit 127 (m_username m @ CRLF)], ''334''),
      ([fit 127 (m_password m @ CRLF)], ''235''),
      ([fit 127 (''Mail From: <'' @ m_from m @ ''>'' @ CRLF)], ''250'')]
     @ map (\<lambda>to. ([fit 127 (''Rcpt To: <'' @ to @ ''>'' @ CRLF)], ''250'')) (m_to m)
     @ [([''DATA'' @ CRLF], ''354''),
        (map (\<lambda>to. fit 127 (''To: <'' @ to @ ''>'' @ CRLF)) (m_to m)
          @ [fit 127 (''From: file checker <'' @ m_from m @ ''>'' @ CRLF), date, fit 127 (''Subject: '' @ subject @ CRLF),
             fit 512 (CRLF @ body @ CRLF), CRLF @ ''.'' @ CRLF], ''250'')]"

text \<open>A received answer begins with a code.\<close>

definition answered :: "string \<Rightarrow> string option \<Rightarrow> bool" where
  "answered c r \<longleftrightarrow> (\<exists>rest. r = Some (c @ rest))"

definition code_ok :: "string \<Rightarrow> bool" where
  "code_ok c \<longleftrightarrow> c \<noteq> [] \<and> length c < 1024 \<and> CHR 0x00 \<notin> set c"

lemma take_takeWhile: "take n (takeWhile P xs) = takeWhile P (take n xs)"
  by (induction xs arbitrary: n) (auto simp: take_Cons split: nat.split)

lemma match_answered:
  assumes "code_ok c"
  shows "match_token c (recv_tcp r 1024) = Inr () \<longleftrightarrow> answered c r"
proof (cases r)
  case None
  then show ?thesis by (simp add: match_token_def recv_tcp_def answered_def)
next
  case (Some bs)
  let ?n = "length c" and ?str = "takeWhile (\<lambda>x. x \<noteq> CHR 0x00) (take 1023 bs)"
  have tk: "take ?n ?str = takeWhile (\<lambda>x. x \<noteq> CHR 0x00) (take ?n bs)"
    using assms by (simp add: take_takeWhile code_ok_def min_def)
  have "take ?n ?str = c \<longleftrightarrow> take ?n bs = c"
  proof
    assume a: "take ?n ?str = c"
    then have "?n = length (takeWhile (\<lambda>x. x \<noteq> CHR 0x00) (take ?n bs))" using tk by simp
    moreover have "length (take ?n bs) \<le> ?n" by simp
    ultimately have eq: "takeWhile (\<lambda>x. x \<noteq> CHR 0x00) (take ?n bs) = take ?n bs"
      using length_takeWhile_le [of "\<lambda>x. x \<noteq> CHR 0x00" "take ?n bs"]
      by (metis le_antisym takeWhile_eq_take take_all)
    show "take ?n bs = c" using a unfolding tk eq .
  next
    assume a: "take ?n bs = c"
    then have "takeWhile (\<lambda>x. x \<noteq> CHR 0x00) (take ?n bs) = take ?n bs"
      using assms by (auto simp: takeWhile_eq_all_conv code_ok_def)
    then show "take ?n ?str = c" using a tk by simp
  qed
  moreover have "answered c r \<longleftrightarrow> take ?n bs = c"
    unfolding answered_def Some by (metis append_eq_conv_conj append_take_drop_id option.inject)
  moreover have "take ?n ?str = c \<Longrightarrow> ?n \<le> length ?str" by (metis length_take min.cobounded1)
  moreover have "take ?n bs = c \<Longrightarrow> bs \<noteq> []" using assms by (auto simp: code_ok_def)
  ultimately show ?thesis using assms by (auto simp: Some match_token_def recv_tcp_def code_ok_def)
qed

text \<open>The calls of a table, and how they run.\<close>

definition calls_of :: "(string list \<times> string) list \<Rightarrow> io list" where
  "calls_of xs = concat (map (\<lambda>(msgs, c). map Send msgs @ [Expect c]) xs)"

lemma dialogue_calls:
  "dialogue m date subject body = calls_of (smtp_exchange snprintf m date subject body) @ [Send (''QUIT'' @ CRLF), Recv]"
proof -
  have "concat (map ((\<lambda>(msgs, c). map Send msgs @ [Expect c]) \<circ> (\<lambda>to. ([snprintf 127 (f to)], ''250''))) ts)
      = concat (map (\<lambda>to. [Send (snprintf 127 (f to)), Expect ''250'']) ts)" for f :: "string \<Rightarrow> string" and ts
    by (induction ts) simp_all
  moreover have "snprintf 127 (''AUTH LOGIN'' @ CRLF) = ''AUTH LOGIN'' @ CRLF" by (simp add: snprintf_def CRLF_def)
  ultimately show ?thesis
    by (simp add: dialogue_def greeting_def recipients_def headers_def smtp_exchange_def calls_of_def line127_def)
qed

lemma codes_ok: "\<forall>x \<in> set (smtp_exchange fit m date subject body). code_ok (snd x)"
  by (auto simp: smtp_exchange_def code_ok_def)

lemma run_sends: "run_io (map Send msgs @ ios) rs = (msgs @ fst (run_io ios rs), snd (run_io ios rs))"
  by (induction msgs) (auto split: prod.split)

lemma run_expect:
  "code_ok c \<Longrightarrow> run_io (Expect c # ios) rs =
     (if rs \<noteq> [] \<and> answered c (hd rs) then run_io ios (tl rs) else ([], False))"
  using match_answered [of c "case rs of [] \<Rightarrow> None | r # _ \<Rightarrow> r"]
  by (cases rs) (auto simp: answered_def split: sum.split)

lemma calls_of_Cons: "calls_of ((msgs, c) # xs) @ ios = map Send msgs @ Expect c # calls_of xs @ ios"
  by (simp add: calls_of_def)

lemma run_whole:
  assumes "\<forall>x \<in> set xs. code_ok (snd x)" "length xs \<le> length rs" "\<forall>i<length xs. answered (snd (xs ! i)) (rs ! i)"
  shows "run_io (calls_of xs @ ios) rs =
    (concat (map fst xs) @ fst (run_io ios (drop (length xs) rs)), snd (run_io ios (drop (length xs) rs)))"
  using assms
proof (induction xs arbitrary: rs)
  case (Cons x xs)
  obtain msgs c where x: "x = (msgs, c)" by fastforce
  obtain r rs' where rs: "rs = r # rs'" using Cons.prems(2) by (cases rs) auto
  have "\<forall>i<length xs. answered (snd (xs ! i)) (rs' ! i)" "answered c r"
    using Cons.prems(3) [rule_format, of "Suc _"] Cons.prems(3) [rule_format, of 0] rs x by auto
  moreover have "code_ok c" using Cons.prems(1) x by simp
  ultimately show ?case
    using Cons.IH [of rs'] Cons.prems(1,2) unfolding x calls_of_Cons run_sends run_expect [OF \<open>code_ok c\<close>] by (simp add: rs)
qed (simp add: calls_of_def)

lemma run_stops:
  assumes "\<forall>x \<in> set xs. code_ok (snd x)" "n < length xs" "n < length rs \<Longrightarrow> \<not> answered (snd (xs ! n)) (rs ! n)"
    "\<forall>i<n. i < length rs \<and> answered (snd (xs ! i)) (rs ! i)"
  shows "run_io (calls_of xs @ ios) rs = (concat (map fst (take (Suc n) xs)), False)"
  using assms
proof (induction xs arbitrary: rs n)
  case (Cons x xs)
  obtain msgs c where x: "x = (msgs, c)" by fastforce
  have c: "code_ok c" using Cons.prems(1) x by simp
  show ?case
  proof (cases n)
    case 0
    then show ?thesis
      using Cons.prems(3) unfolding x calls_of_Cons run_sends run_expect [OF c] by (cases rs) auto
  next
    case (Suc k)
    obtain r rs' where rs: "rs = r # rs'" using Cons.prems(4) Suc by (cases rs) auto
    have a: "answered c r" using Cons.prems(4) [rule_format, of 0] rs x Suc by simp
    have "run_io (calls_of xs @ ios) rs' = (concat (map fst (take (Suc k) xs)), False)"
    proof (rule Cons.IH)
      show "\<forall>i<k. i < length rs' \<and> answered (snd (xs ! i)) (rs' ! i)"
        using Cons.prems(4) [rule_format, of "Suc _"] rs Suc by auto
    qed (use Cons.prems rs Suc in auto)
    then show ?thesis using a unfolding x calls_of_Cons run_sends run_expect [OF c] rs Suc by simp
  qed
qed simp

text \<open>Fields that fit the buffers they are formatted into.\<close>

definition fields_fit :: "mailman \<Rightarrow> string \<Rightarrow> string \<Rightarrow> bool" where
  "fields_fit m subject body \<longleftrightarrow>
     length (m_username m) \<le> 124 \<and> length (m_password m) \<le> 124 \<and> length (m_from m) \<le> 98
     \<and> (\<forall>to\<in>set (m_to m). length to \<le> 112) \<and> length subject \<le> 115 \<and> length body \<le> 507"

lemma snprintf_fits: "length s < n \<Longrightarrow> snprintf n s = s"
  by (simp add: snprintf_def)

lemma exchange_fits:
  "fields_fit m subject body \<Longrightarrow> smtp_exchange snprintf m date subject body = smtp_exchange (\<lambda>n s. s) m date subject body"
  by (auto simp: smtp_exchange_def fields_fit_def CRLF_def snprintf_fits)

section \<open>Properties\<close>

text \<open>
  C37. A mail is delivered in full or not at all, and the caller cannot tell: the
  client goes through the turns of the protocol, 220 for the banner, 250 for
  the greeting, 334 twice and 235 for the login, 250 for the sender and each
  recipient, 354 for \<open>DATA\<close>, 250 for the text.  When every answer begins with
  its code all messages are sent, ended by \<open>QUIT\<close>, and the socket is closed; at
  the first other or missing answer the dialogue stops after the messages of
  that turn with the socket open; the result is 0 in both cases.  Lines are cut
  to their buffers, which changes nothing when the fields fit; without a
  connection nothing is sent and the failure is returned.
\<close>

theorem sendmail_dialogue:
  assumes "xs = smtp_exchange snprintf m date subject body" "sock = connect_tcp ossock connects (m_smtpserver m)"
  shows "(0 \<le> sock \<and> length xs \<le> length rs \<and> (\<forall>i<length xs. answered (snd (xs ! i)) (rs ! i)) \<longrightarrow>
      sendmail ossock connects rs date m subject body = (0, concat (map fst xs) @ [''QUIT'' @ CRLF], True))
    \<and> (\<forall>n<length xs. 0 \<le> sock \<and> (\<forall>i<n. i < length rs \<and> answered (snd (xs ! i)) (rs ! i)) \<and>
        \<not> (n < length rs \<and> answered (snd (xs ! n)) (rs ! n)) \<longrightarrow>
        sendmail ossock connects rs date m subject body = (0, concat (map fst (take (Suc n) xs)), False))
    \<and> (sock < 0 \<longrightarrow> sendmail ossock connects rs date m subject body = (sock, [], False))
    \<and> (fields_fit m subject body \<longrightarrow> xs = smtp_exchange (\<lambda>n s. s) m date subject body)"
proof (intro conjI impI allI)
  note ok = codes_ok [of snprintf m date subject body, folded assms(1)]
  note d = dialogue_calls [of m date subject body, folded assms(1)]
  show "sendmail ossock connects rs date m subject body = (0, concat (map fst xs) @ [''QUIT'' @ CRLF], True)"
    if "0 \<le> sock \<and> length xs \<le> length rs \<and> (\<forall>i<length xs. answered (snd (xs ! i)) (rs ! i))"
    using that run_whole [OF ok, of rs "[Send (''QUIT'' @ CRLF), Recv]"] assms(2) by (simp add: sendmail_def d)
  show "sendmail ossock connects rs date m subject body = (0, concat (map fst (take (Suc n) xs)), False)"
    if "n < length xs" "0 \<le> sock \<and> (\<forall>i<n. i < length rs \<and> answered (snd (xs ! i)) (rs ! i)) \<and>
      \<not> (n < length rs \<and> answered (snd (xs ! n)) (rs ! n))" for n
    using that run_stops [OF ok that(1), of rs "[Send (''QUIT'' @ CRLF), Recv]"] assms(2) by (simp add: sendmail_def d)
  show "sendmail ossock connects rs date m subject body = (sock, [], False)" if "sock < 0"
    using that assms(2) by (simp add: sendmail_def)
  show "xs = smtp_exchange (\<lambda>n s. s) m date subject body" if "fields_fit m subject body"
    using exchange_fits [OF that] assms(1) by simp
qed

definition sample_mailman :: mailman where
  "sample_mailman = \<lparr>m_to = [''b@c''], m_from = ''a@c'', m_smtpserver = ''10.0.0.1'', m_username = ''dQ=='', m_password = ''cA==''\<rparr>"

theorem sendmail_dialogue_witness:
  "sendmail 3 (\<lambda>ip. True) [Some ''220 ready'', Some ''250 hi'', Some ''334 u'', Some ''334 p'', Some ''535 no'']
       ''Date: x'' sample_mailman ''s'' ''b''
     = (0, [''Helo world'' @ CRLF, ''AUTH LOGIN'' @ CRLF, ''dQ=='' @ CRLF, ''cA=='' @ CRLF], False)
   \<and> sendmail 3 (\<lambda>ip. True) [Some ''220'', Some ''250'', Some ''334'', Some ''334'', Some ''235'', Some ''250'', Some ''250'', Some ''354'', Some ''250'']
       ''Date: x'' sample_mailman ''s'' ''b''
     = (0, concat (map fst (smtp_exchange (\<lambda>n s. s) sample_mailman ''Date: x'' ''s'' ''b'')) @ [''QUIT'' @ CRLF], True)"
proof -
  let ?xs = "smtp_exchange snprintf sample_mailman ''Date: x'' ''s'' ''b''"
  have c: "connect_tcp 3 (\<lambda>ip. True) (m_smtpserver sample_mailman) = 3" by code_simp
  have f: "fields_fit sample_mailman ''s'' ''b''" by code_simp
  note fits = exchange_fits [OF f, of "''Date: x''"]
  have x: "map snd ?xs = [''220'', ''250'', ''334'', ''334'', ''235'', ''250'', ''250'', ''354'', ''250'']"
    "map fst (take 5 ?xs) = [[], [''Helo world'' @ CRLF], [''AUTH LOGIN'' @ CRLF], [''dQ=='' @ CRLF], [''cA=='' @ CRLF]]"
    unfolding fits by (simp_all add: smtp_exchange_def sample_mailman_def)
  have n: "length ?xs = 9" using arg_cong [OF x(1), of length] by simp
  have s: "snd (?xs ! i) = map snd ?xs ! i" if "i < 9" for i using that n by simp
  have a: "answered c (Some t) \<longleftrightarrow> take (length c) t = c" for c t
    unfolding answered_def by (metis append_eq_conv_conj append_take_drop_id option.inject)
  note dlg = sendmail_dialogue [OF refl refl, of 3 "\<lambda>ip. True" sample_mailman "''Date: x''" "''s''" "''b''", unfolded c]
  have "\<forall>i<4. answered (snd (?xs ! i)) ([Some ''220 ready'', Some ''250 hi'', Some ''334 u'', Some ''334 p'', Some ''535 no''] ! i)"
    using s by (simp add: x(1) a less_Suc_eq numeral_eq_Suc)
  moreover have "\<not> answered (snd (?xs ! 4)) (Some ''535 no'')" using s [of 4] by (simp add: x(1) a)
  ultimately have "sendmail 3 (\<lambda>ip. True) [Some ''220 ready'', Some ''250 hi'', Some ''334 u'', Some ''334 p'', Some ''535 no'']
       ''Date: x'' sample_mailman ''s'' ''b'' = (0, concat (map fst (take (Suc 4) ?xs)), False)"
    using n by (intro conjunct1 [OF conjunct2 [OF dlg], rule_format, of 4]) auto
  moreover have "\<forall>i<9. answered (snd (?xs ! i)) ([Some ''220'', Some ''250'', Some ''334'', Some ''334'', Some ''235'',
      Some ''250'', Some ''250'', Some ''354'', Some ''250''] ! i)"
    using s by (simp add: x(1) a less_Suc_eq numeral_eq_Suc)
  ultimately show ?thesis
    using dlg [of "[Some ''220'', Some ''250'', Some ''334'', Some ''334'', Some ''235'',
      Some ''250'', Some ''250'', Some ''354'', Some ''250'']"] n x(2) fits by simp
qed

end
