(* ===== verification/Logger.thy ===== *)
theory Logger
  imports Cstring
begin

text \<open>
  The log (\<open>src/file_log.h\<close>, \<open>src/file_log.cpp\<close>): levels, the formatting of a
  line in a fixed buffer, and the file with its rotation.  Files are a map from
  names to what was appended to them, in order.  The time stamp that
  \<open>strftime\<close> leaves in its buffer, the formatted message and whether a file can
  be opened come from outside.
\<close>

section \<open>Levels\<close>

datatype logger_level = LOGGER_ERROR | LOGGER_WARNING | LOGGER_INFO | LOGGER_DEBUG | LOGGER_DETAIL

definition level_code :: "logger_level \<Rightarrow> nat" where
  "level_code l = (case l of LOGGER_ERROR \<Rightarrow> 0 | LOGGER_WARNING \<Rightarrow> 1 | LOGGER_INFO \<Rightarrow> 2 | LOGGER_DEBUG \<Rightarrow> 3
     | LOGGER_DETAIL \<Rightarrow> 4)"

definition level_text :: "logger_level \<Rightarrow> string" where
  "level_text l = (case l of LOGGER_WARNING \<Rightarrow> ''WARNING'' | LOGGER_INFO \<Rightarrow> ''INFO'' | LOGGER_DETAIL \<Rightarrow> ''DETAIL''
     | LOGGER_DEBUG \<Rightarrow> ''DEBUG'' | LOGGER_ERROR \<Rightarrow> ''ERROR'')"

section \<open>State\<close>

record logger =
  cur_level :: logger_level
  file_name :: string
  file_open :: bool
  total_size :: int
  files :: "string \<rightharpoonup> string list"

definition MAX_LOG_BUF_LENGTH :: nat where
  "MAX_LOG_BUF_LENGTH = 4048"

definition LOG_LEVEL_STRING_LENGTH :: nat where
  "LOG_LEVEL_STRING_LENGTH = 10"

definition ROTATE_SIZE :: int where
  "ROTATE_SIZE = 1204 * 1204 * 10"

text \<open>Opening in append mode creates a missing file.\<close>

definition open_append :: "bool \<Rightarrow> logger \<Rightarrow> logger" where
  "open_append ok lg =
     (if ok then lg\<lparr>file_open := True,
        files := (if files lg (file_name lg) = None then (files lg)(file_name lg \<mapsto> []) else files lg)\<rparr>
      else lg\<lparr>file_open := False\<rparr>)"

definition init_log :: "bool \<Rightarrow> string \<Rightarrow> logger_level \<Rightarrow> logger \<Rightarrow> logger \<times> int" where
  "init_log ok name level lg =
     (open_append ok (lg\<lparr>cur_level := level, file_name := name\<rparr>), if ok then 0 else -1)"

section \<open>Writing a line\<close>

text \<open>One call: the level, the place, the time stamp, the formatted message, the clock, whether a reopen works.\<close>

record log_call =
  c_level :: logger_level
  c_file :: string
  c_line :: int
  c_stamp :: string
  c_message :: string
  c_now :: nat
  c_reopen :: bool

definition log_buffer :: "log_call \<Rightarrow> string" where
  "log_buffer c =
     (let str_level = take LOG_LEVEL_STRING_LENGTH (level_text (c_level c));
          buffer = take (MAX_LOG_BUF_LENGTH - 1)
            (c_stamp c @ '' ['' @ str_level @ ''] : '' @ c_file c @ ''/'' @ show_int (c_line c) @ '' : '')
      in buffer @ take (MAX_LOG_BUF_LENGTH - length buffer - 1) (c_message c))"

text \<open>The rotation: close, rename to the name with the time appended, reopen.\<close>

definition rotate_log :: "log_call \<Rightarrow> logger \<Rightarrow> logger" where
  "rotate_log c lg =
     open_append (c_reopen c)
       (lg\<lparr>file_open := False, total_size := 0,
           files := (case files lg (file_name lg) of
               None \<Rightarrow> files lg
             | Some ls \<Rightarrow> (files lg)(file_name lg @ show_nat (c_now c) \<mapsto> ls, file_name lg := None))\<rparr>)"

definition formater :: "log_call \<Rightarrow> logger \<Rightarrow> logger \<times> int" where
  "formater c lg0 =
     (let lg = lg0\<lparr>total_size := total_size lg0 + int (length (c_message c))\<rparr>;
          lg' = (if total_size lg > ROTATE_SIZE then rotate_log c lg else lg)
      in if \<not> file_open lg' then (lg', -1)
         else (lg'\<lparr>files := (files lg')(file_name lg' \<mapsto>
                 (case files lg' (file_name lg') of None \<Rightarrow> [] | Some ls \<Rightarrow> ls) @ [log_buffer c])\<rparr>, 0))"

text \<open>\<open>error\<close>, \<open>warning\<close>, \<open>info\<close>, \<open>debug\<close> and \<open>detail\<close>, by the level of the call.\<close>

definition log_at :: "log_call \<Rightarrow> logger \<Rightarrow> logger \<times> int" where
  "log_at c lg = (if level_code (c_level c) > level_code (cur_level lg) then (lg, 0) else formater c lg)"

section \<open>Conservation of lines\<close>

text \<open>Whether a call rotates the file, and the names of the rotated files of a sequence of calls.\<close>

definition rotates :: "log_call \<Rightarrow> logger \<Rightarrow> bool" where
  "rotates c lg \<longleftrightarrow> \<not> level_code (c_level c) > level_code (cur_level lg)
     \<and> total_size lg + int (length (c_message c)) > ROTATE_SIZE"

fun archives :: "log_call list \<Rightarrow> logger \<Rightarrow> string list" where
  "archives [] lg = []"
| "archives (c # cs) lg =
     (if rotates c lg then [file_name lg @ show_nat (c_now c)] else []) @ archives cs (fst (log_at c lg))"

definition run_log :: "log_call list \<Rightarrow> logger \<Rightarrow> logger" where
  "run_log cs lg = fold (\<lambda>c lg. fst (log_at c lg)) cs lg"

definition current :: "logger \<Rightarrow> string list" where
  "current lg = (case files lg (file_name lg) of None \<Rightarrow> [] | Some ls \<Rightarrow> ls)"

definition archived :: "logger \<Rightarrow> string list \<Rightarrow> string list" where
  "archived lg names = concat (map (\<lambda>n. case files lg n of None \<Rightarrow> [] | Some ls \<Rightarrow> ls) names)"

definition log_ok :: "logger \<Rightarrow> bool" where
  "log_ok lg \<longleftrightarrow> file_open lg \<and> files lg (file_name lg) \<noteq> None \<and> total_size lg \<le> ROTATE_SIZE"

lemma show_nat_neq: "(f :: string) @ show_nat n \<noteq> f"
  using show_nat_nonempty [of n] by simp

lemma log_at_step:
  assumes "log_ok lg" "c_reopen c"
  shows "log_ok (fst (log_at c lg))" "file_name (fst (log_at c lg)) = file_name lg"
    "cur_level (fst (log_at c lg)) = cur_level lg"
    "rotates c lg \<Longrightarrow> files (fst (log_at c lg)) (file_name lg @ show_nat (c_now c)) = Some (current lg)
       \<and> current (fst (log_at c lg)) = [log_buffer c]"
    "\<not> rotates c lg \<Longrightarrow> current (fst (log_at c lg)) =
       current lg @ (if level_code (c_level c) \<le> level_code (cur_level lg) then [log_buffer c] else [])"
    "n \<noteq> file_name lg \<Longrightarrow> (rotates c lg \<Longrightarrow> n \<noteq> file_name lg @ show_nat (c_now c)) \<Longrightarrow>
       files (fst (log_at c lg)) n = files lg n"
proof -
  note defs = log_at_def formater_def rotate_log_def open_append_def log_ok_def rotates_def current_def Let_def
  show "log_ok (fst (log_at c lg))" "file_name (fst (log_at c lg)) = file_name lg"
    "cur_level (fst (log_at c lg)) = cur_level lg"
    "\<not> rotates c lg \<Longrightarrow> current (fst (log_at c lg)) =
       current lg @ (if level_code (c_level c) \<le> level_code (cur_level lg) then [log_buffer c] else [])"
    "n \<noteq> file_name lg \<Longrightarrow> (rotates c lg \<Longrightarrow> n \<noteq> file_name lg @ show_nat (c_now c)) \<Longrightarrow>
       files (fst (log_at c lg)) n = files lg n"
    using assms by (auto simp: defs ROTATE_SIZE_def split: option.splits)
  show "rotates c lg \<Longrightarrow> files (fst (log_at c lg)) (file_name lg @ show_nat (c_now c)) = Some (current lg)
       \<and> current (fst (log_at c lg)) = [log_buffer c]"
    using assms show_nat_neq [of "file_name lg" "c_now c"] by (auto simp: defs split: option.splits)
qed

text \<open>The lines that pass the level filter.\<close>

definition logged :: "logger_level \<Rightarrow> log_call list \<Rightarrow> string list" where
  "logged level cs = map log_buffer (filter (\<lambda>c. level_code (c_level c) \<le> level_code level) cs)"

lemma archives_prefix: "a \<in> set (archives cs lg) \<Longrightarrow> log_ok lg \<Longrightarrow> \<forall>c\<in>set cs. c_reopen c \<Longrightarrow>
    \<exists>c\<in>set cs. a = file_name lg @ show_nat (c_now c)"
proof (induction cs lg rule: archives.induct)
  case (2 c cs lg)
  then show ?case using log_at_step(1,2) [of lg c] by (auto split: if_splits)
qed simp

lemma run_log_other:
  assumes "log_ok lg" "\<forall>c\<in>set cs. c_reopen c" "n \<noteq> file_name lg" "n \<notin> set (archives cs lg)"
  shows "files (run_log cs lg) n = files lg n"
  using assms
proof (induction cs arbitrary: lg)
  case (Cons c cs)
  have s: "files (fst (log_at c lg)) n = files lg n"
    using Cons.prems by (intro log_at_step(6)) auto
  have "files (run_log cs (fst (log_at c lg))) n = files (fst (log_at c lg)) n"
    using Cons.prems log_at_step(1,2) [of lg c] by (intro Cons.IH) auto
  then show ?case using s by (simp add: run_log_def)
qed (simp add: run_log_def)

lemma run_log_conserves:
  assumes "log_ok lg" "\<forall>c\<in>set cs. c_reopen c" "distinct (archives cs lg)"
  shows "log_ok (run_log cs lg)"
    and "archived (run_log cs lg) (archives cs lg) @ current (run_log cs lg) = current lg @ logged (cur_level lg) cs"
  using assms
proof (induction cs arbitrary: lg)
  case (Cons c cs)
  case 1
  then show ?case using Cons.IH(1) [of "fst (log_at c lg)"] log_at_step(1) [of lg c] by (simp add: run_log_def)
next
  case (Cons c cs)
  case 2
  let ?l = "fst (log_at c lg)"
  note st = log_at_step [OF 2(1), of c]
  have ok: "log_ok ?l" "file_name ?l = file_name lg" "cur_level ?l = cur_level lg" using st(1,2,3) 2(2) by auto
  have IH: "archived (run_log cs ?l) (archives cs ?l) @ current (run_log cs ?l) = current ?l @ logged (cur_level lg) cs"
    using Cons.IH(2) [of ?l] ok 2 by simp
  show ?case
  proof (cases "rotates c lg")
    case True
    let ?n = "file_name lg @ show_nat (c_now c)"
    have "files (run_log cs ?l) ?n = files ?l ?n"
      using ok 2 True show_nat_neq [of "file_name lg" "c_now c"] by (intro run_log_other) auto
    then have "files (run_log cs ?l) ?n = Some (current lg)" using st(4) 2(2) True by simp
    moreover have "level_code (c_level c) \<le> level_code (cur_level lg)" using True by (simp add: rotates_def)
    ultimately show ?thesis
      using IH st(4) 2(2) True by (simp add: run_log_def archived_def logged_def)
  next
    case False
    then show ?thesis using IH st(5) 2(2) by (auto simp: run_log_def logged_def)
  qed
qed (simp_all add: run_log_def archived_def logged_def)

section \<open>Properties\<close>

text \<open>
  C38. No line of the log is lost by rotation: after any calls in which a file
  can be reopened and no two rotations fall in the same second, the rotated
  files in the order of their rotation, followed by the current file, hold
  what was in the log before and then every line that passes the level, in
  order; and the counted size stays within the limit.
\<close>

theorem log_lines_conserved:
  assumes "log_ok lg" "\<forall>c\<in>set cs. c_reopen c" "distinct (archives cs lg)"
  shows "archived (run_log cs lg) (archives cs lg) @ current (run_log cs lg) = current lg @ logged (cur_level lg) cs
    \<and> total_size (run_log cs lg) \<le> ROTATE_SIZE"
  using run_log_conserves [OF assms] by (simp add: log_ok_def)

definition sample_logger :: logger where
  "sample_logger = \<lparr>cur_level = LOGGER_WARNING, file_name = ''l'', file_open = True, total_size = ROTATE_SIZE, files = [''l'' \<mapsto> [''old'']]\<rparr>"

definition sample_call :: log_call where
  "sample_call = \<lparr>c_level = LOGGER_WARNING, c_file = ''f'', c_line = 1, c_stamp = ''t'', c_message = ''m'', c_now = 7, c_reopen = True\<rparr>"

theorem log_lines_conserved_witness:
  "archived (run_log [sample_call] sample_logger) [''l7''] @ current (run_log [sample_call] sample_logger)
   = [''old'', log_buffer sample_call]"
proof -
  have a: "archives [sample_call] sample_logger = [''l7'']"
    by (simp add: rotates_def sample_call_def sample_logger_def level_code_def ROTATE_SIZE_def show_nat.simps digit_def)
      code_simp?
  have "log_ok sample_logger" by (simp add: log_ok_def sample_logger_def)
  moreover have "current sample_logger = [''old'']" "logged (cur_level sample_logger) [sample_call] = [log_buffer sample_call]"
    by (simp_all add: current_def sample_logger_def logged_def sample_call_def level_code_def)
  ultimately show ?thesis
    using log_lines_conserved [of sample_logger "[sample_call]"] a by (simp add: sample_call_def)
qed

end
