(* ===== verification/Configfile.thy ===== *)
theory Configfile
  imports Cstring
begin

text \<open>
  The reader of ini files (\<open>src/configfile.c\<close>): continuation lines, trimming,
  the loop over the lines and the table of parameters.  A file is the list of
  the characters that are still to be read; C strings are lists without NUL.
  The table is the linked list \<open>param_head.next\<close>, newest entry first.  Failing
  allocations are not modelled.
\<close>

section \<open>The table of parameters\<close>

type_synonym params = "(string \<times> string) list"

definition add_param :: "string \<Rightarrow> string \<Rightarrow> params \<Rightarrow> params" where
  "add_param name value ps = (name, value) # ps"

fun get_config_param :: "string \<Rightarrow> params \<Rightarrow> string option" where
  "get_config_param name [] = None"
| "get_config_param name ((n, v) # ps) = (if n = name then Some v else get_config_param name ps)"

section \<open>Library functions\<close>

definition NUL :: char where "NUL = CHR 0x00"
definition LF :: char where "LF = CHR 0x0A"
definition CR :: char where "CR = CHR 0x0D"
definition TAB :: char where "TAB = CHR 0x09"
definition BSL :: char where "BSL = CHR 0x5C"

definition cstr :: "string \<Rightarrow> string" where
  "cstr buf = takeWhile (\<lambda>c. c \<noteq> NUL) buf"

text \<open>\<open>fgets(buf, n, fp)\<close>: what lands in the buffer, and what is left of the file.\<close>

fun fgets_chars :: "nat \<Rightarrow> string \<Rightarrow> string \<times> string" where
  "fgets_chars 0 f = ([], f)"
| "fgets_chars (Suc n) [] = ([], [])"
| "fgets_chars (Suc n) (c # f) =
     (if c = LF then ([c], f) else (let (l, r) = fgets_chars n f in (c # l, r)))"

definition fgets :: "nat \<Rightarrow> string \<Rightarrow> (string \<times> string) option" where
  "fgets n f = (if f = [] then None else Some (fgets_chars (n - 1) f))"

text \<open>\<open>strtok\<close>: the token and the position where the next call goes on.\<close>

definition strtok :: "char \<Rightarrow> string \<Rightarrow> (string \<times> string) option" where
  "strtok d s =
     (let t = dropWhile (\<lambda>c. c = d) s
      in if t = [] then None
         else Some (takeWhile (\<lambda>c. c \<noteq> d) t, drop 1 (dropWhile (\<lambda>c. c \<noteq> d) t)))"

section \<open>Lines\<close>

definition TEMP_SIZE :: nat where
  "TEMP_SIZE = 4096"

text \<open>The index of the last character before the line end.\<close>

definition line_end :: "string \<Rightarrow> int" where
  "line_end buf =
     (let len = int (length buf)
      in if len \<ge> 2 \<and> buf ! nat (len - 2) = CR then len - 3
         else if len \<ge> 1 \<and> buf ! nat (len - 1) = LF then len - 2
         else len - 1)"

definition skip_blanks :: "string \<Rightarrow> string" where
  "skip_blanks s = dropWhile (\<lambda>c. c = CHR '' '' \<or> c = TAB) s"

lemma fgets_chars_append: "fgets_chars n f = (l, r) \<Longrightarrow> f = l @ r"
  by (induction n f arbitrary: l r rule: fgets_chars.induct) (auto split: if_splits prod.splits)

lemma fgets_shorter: "fgets (Suc (Suc n)) f = Some (l, r) \<Longrightarrow> length r < length f"
  by (cases f) (auto simp: fgets_def split: if_splits prod.splits dest!: fgets_chars_append)

lemma fgets_shorter_temp: "fgets TEMP_SIZE f = Some (l, r) \<Longrightarrow> length r < length f"
  using fgets_shorter [of 4094 f l r] by (simp add: TEMP_SIZE_def)

function fgets_multiline :: "string option \<Rightarrow> string \<Rightarrow> string option \<times> string" where
  "fgets_multiline buf0 fp =
     (case fgets TEMP_SIZE fp of
        None \<Rightarrow> (buf0, fp)
      | Some (temp, fp') \<Rightarrow>
          let buf = (case buf0 of None \<Rightarrow> cstr temp | Some b \<Rightarrow> b @ skip_blanks (cstr temp));
              e = line_end buf
          in if length buf = 0 then (Some buf, fp')
             else if e \<ge> 1 \<and> buf ! nat (e - 1) = BSL \<and> buf ! nat e = BSL
               then (Some (take (nat e) buf @ [LF]), fp')
             else if e > 0 \<and> buf ! nat e = BSL then fgets_multiline (Some (take (nat e) buf)) fp'
             else (Some buf, fp'))"
  by pat_completeness auto
termination
  by (relation "measure (\<lambda>(b, f). length f)") (auto dest: fgets_shorter_temp)

declare fgets_multiline.simps [simp del]

definition is_strip :: "char \<Rightarrow> bool" where
  "is_strip c \<longleftrightarrow> c = CHR '' '' \<or> c = LF \<or> c = CR \<or> c = TAB"

text \<open>
  \<open>strip\<close>, in place: after the first loop \<open>x\<close> is the index of the last
  character that stays (-1 if there is none).
\<close>

definition strip :: "string \<Rightarrow> string" where
  "strip buffer =
     (if buffer = [] then buffer
      else let b = rev (dropWhile is_strip (rev buffer));
               z = int (length b) - 1;
               x = length (takeWhile is_strip b)
           in if z = 0 then b
              else if x > 0 \<and> z > 0 then drop x b
              else b)"

section \<open>The file\<close>

lemma fgets_multiline_shorter:
  "fgets_multiline b f = (r, f') \<Longrightarrow> length f' \<le> length f \<and> (f \<noteq> [] \<longrightarrow> length f' < length f)"
proof (induction b f arbitrary: r f' rule: fgets_multiline.induct)
  case (1 b f)
  show ?case
  proof (cases "fgets TEMP_SIZE f")
    case None
    then have "f = []" by (simp add: fgets_def split: if_splits)
    then show ?thesis using "1.prems" None by (simp add: fgets_multiline.simps [of b])
  next
    case (Some p)
    obtain temp fp' where p: "p = (temp, fp')" by fastforce
    have l: "length fp' < length f" using Some p fgets_shorter_temp by blast
    define buf where "buf = (case b of None \<Rightarrow> cstr temp | Some b \<Rightarrow> b @ skip_blanks (cstr temp))"
    have IH: "length g \<le> length fp'" if "fgets_multiline (Some (take (nat (line_end buf)) buf)) fp' = (q, g)"
        "length buf \<noteq> 0" "\<not> (line_end buf \<ge> 1 \<and> buf ! nat (line_end buf - 1) = BSL \<and> buf ! nat (line_end buf) = BSL)"
        "line_end buf > 0 \<and> buf ! nat (line_end buf) = BSL" for q g
      using "1.IH" [OF Some p [symmetric] buf_def refl that(2,3,4,1)] by simp
    show ?thesis
      using "1.prems" l IH by (force simp: fgets_multiline.simps [of b] Some p buf_def [symmetric] Let_def split: if_splits)
  qed
qed

lemma read_lines_shorter: "(Some l, f') = fgets_multiline None f \<Longrightarrow> length f' < length f"
  using fgets_multiline_shorter [of None f "Some l" f']
  by (cases "f = []") (auto simp: fgets_multiline.simps [of None "[]"] fgets_def)

text \<open>The loop: the returned code and the table.\<close>

function read_lines :: "string \<Rightarrow> params \<Rightarrow> int \<times> params" where
  "read_lines fp ps =
     (case fgets_multiline None fp of
        (None, fp') \<Rightarrow> (0, ps)
      | (Some line, fp') \<Rightarrow>
          let input = strip line
          in if input = [] \<or> hd input = CHR ''#'' then read_lines fp' ps
             else (case strtok (CHR ''='') input of
                 None \<Rightarrow> (-1, ps)
               | Some (variable, left) \<Rightarrow>
                   (case strtok LF left of
                      None \<Rightarrow> (-1, ps)
                    | Some (value, _) \<Rightarrow> read_lines fp' (add_param (strip variable) (strip value) ps))))"
  by pat_completeness auto
termination
proof (relation "measure (\<lambda>(f, ps). length f)", goal_cases)
  case 1
  then show ?case by simp
next
  case (2 fp ps r fp' line input)
  then show ?case using read_lines_shorter by fastforce
next
  case (3 fp ps p fp' line input q variable conts r v s)
  then show ?case using read_lines_shorter by fastforce
qed

declare read_lines.simps [simp del]

text \<open>\<open>None\<close> stands for a file that cannot be opened.\<close>

definition read_config_file :: "string option \<Rightarrow> params \<Rightarrow> int \<times> params" where
  "read_config_file file ps = (case file of None \<Rightarrow> (-1, ps) | Some fp \<Rightarrow> read_lines fp ps)"


section \<open>Trimming\<close>

lemma dropWhile_takeWhile_length: "drop (length (takeWhile p s)) s = dropWhile p s"
  by (induction s) auto

lemma strip_trims: "strip s = dropWhile is_strip (rev (dropWhile is_strip (rev s)))"
proof -
  define b where "b = rev (dropWhile is_strip (rev s))"
  have last: "b \<noteq> [] \<Longrightarrow> \<not> is_strip (last b)"
    unfolding b_def using hd_dropWhile [of is_strip "rev s"] by (simp add: last_rev)
  consider "b = []" | c where "b = [c]" | "length b > 1" by (cases b; cases "tl b") auto
  then show ?thesis
  proof cases
    case 2
    moreover have "s \<noteq> []" using 2 by (auto simp: b_def)
    ultimately show ?thesis using last by (simp add: strip_def b_def [symmetric] Let_def)
  next
    case 3
    have s: "s \<noteq> []" using 3 by (auto simp: b_def)
    show ?thesis
    proof (cases "takeWhile is_strip b = []")
      case True
      then have "dropWhile is_strip b = b" using dropWhile_takeWhile_length [of is_strip b] by simp
      then show ?thesis using True 3 s by (simp add: strip_def b_def [symmetric] Let_def)
    next
      case False
      then show ?thesis
        using 3 s by (simp add: strip_def b_def [symmetric] Let_def dropWhile_takeWhile_length)
    qed
  qed (auto simp: strip_def b_def [symmetric] Let_def)
qed

lemma dropWhile_all: "list_all p s \<Longrightarrow> dropWhile p (s @ t) = dropWhile p t"
  by (induction s) auto

lemma strip_padded:
  assumes "list_all is_strip a" "list_all is_strip b" "m \<noteq> []" "\<not> is_strip (hd m)" "\<not> is_strip (last m)"
  shows "strip (a @ m @ b) = m"
proof -
  have "dropWhile is_strip (rev m @ rev a) = rev m @ rev a"
    using assms(3,5) by (cases m rule: rev_cases) auto
  moreover have "list_all is_strip (rev b)" using assms(2) by (simp add: list_all_iff)
  ultimately have "rev (dropWhile is_strip (rev (a @ m @ b))) = a @ m"
    by (simp add: dropWhile_all)
  moreover have "dropWhile is_strip m = m" using assms(3,4) by (cases m) auto
  ultimately show ?thesis using assms(1) by (simp add: strip_trims dropWhile_all)
qed

lemma strip_blank: "list_all is_strip a \<Longrightarrow> strip a = []"
proof -
  assume "list_all is_strip a"
  then have "list_all is_strip (rev a)" by (simp add: list_all_iff)
  then have d: "dropWhile is_strip (rev a) = []"
    unfolding dropWhile_eq_Nil_conv by (simp add: list_all_iff)
  show "strip a = []" unfolding strip_trims d by simp
qed

section \<open>Written files\<close>

text \<open>
  A line of a file: an optional first piece and continuation pieces, each with
  the blanks that indent it.  \<open>physical\<close> is how it stands in the file, \<open>joined\<close>
  the logical line.
\<close>

fun physical :: "string \<Rightarrow> (string \<times> string) list \<Rightarrow> string" where
  "physical t [] = t @ [LF]"
| "physical t ((i, u) # conts) = t @ [BSL, LF] @ i @ physical u conts"

definition joined :: "string \<Rightarrow> (string \<times> string) list \<Rightarrow> string" where
  "joined t conts = t @ concat (map snd conts)"

definition blanks :: "string \<Rightarrow> bool" where
  "blanks s \<longleftrightarrow> list_all (\<lambda>c. c = CHR '' '' \<or> c = TAB) s"

definition piece_ok :: "string \<Rightarrow> bool" where
  "piece_ok t \<longleftrightarrow> t \<noteq> [] \<and> LF \<notin> set t \<and> NUL \<notin> set t \<and> last t \<noteq> BSL \<and> last t \<noteq> CR"

definition pieces_ok :: "string \<Rightarrow> (string \<times> string) list \<Rightarrow> bool" where
  "pieces_ok t conts \<longleftrightarrow> piece_ok t \<and> length t < 4093
     \<and> (\<forall>(i, u)\<in>set conts. blanks i \<and> piece_ok u \<and> hd u \<noteq> CHR '' '' \<and> hd u \<noteq> TAB \<and> length i + length u < 4093)"

lemma fgets_chars_line: "LF \<notin> set l \<Longrightarrow> length l < n \<Longrightarrow> fgets_chars n (l @ LF # f) = (l @ [LF], f)"
proof (induction l arbitrary: n)
  case Nil
  then show ?case by (cases n) auto
next
  case (Cons c l)
  then show ?case by (cases n) auto
qed

lemma fgets_line: "LF \<notin> set l \<Longrightarrow> length l < 4095 \<Longrightarrow> fgets TEMP_SIZE (l @ LF # f) = Some (l @ [LF], f)"
  by (simp add: fgets_def TEMP_SIZE_def fgets_chars_line)

lemma distinct_chars [simp]:
  "LF \<noteq> NUL" "BSL \<noteq> NUL" "BSL \<noteq> LF" "BSL \<noteq> CR" "LF \<noteq> CR" "CR \<noteq> LF" "LF \<noteq> BSL" "CR \<noteq> BSL" "TAB \<noteq> NUL" "TAB \<noteq> LF"
  "NUL \<noteq> LF" "NUL \<noteq> BSL" "TAB \<noteq> BSL" "LF \<noteq> TAB" "NUL \<noteq> TAB" "LF \<noteq> CHR '' ''" "NUL \<noteq> CHR '' ''"
  by (simp_all add: NUL_def LF_def BSL_def CR_def TAB_def)

lemma cstr_no_nul: "NUL \<notin> set l \<Longrightarrow> cstr l = l"
  by (auto simp: cstr_def takeWhile_eq_all_conv)

lemma skip_blanks_padded:
  "blanks i \<Longrightarrow> hd u \<noteq> CHR '' '' \<Longrightarrow> hd u \<noteq> TAB \<Longrightarrow> u \<noteq> [] \<Longrightarrow> skip_blanks (i @ u) = u"
  by (cases u) (auto simp: skip_blanks_def blanks_def dropWhile_all)

lemma line_end_last:
  assumes "t \<noteq> []" "last t \<noteq> CR"
  shows "line_end (t @ [LF]) = int (length t) - 1"
  using assms by (cases t rule: rev_cases) (auto simp: line_end_def Let_def nth_append nat_diff_distrib)

lemma multiline_step:
  assumes "piece_ok t" "blanks i" "hd t \<noteq> CHR '' '' \<or> b = None \<and> i = []" "hd t \<noteq> TAB \<or> b = None \<and> i = []" "length i + length t < 4093"
  defines "acc \<equiv> (case b of None \<Rightarrow> t | Some a \<Rightarrow> a @ t)"
  assumes bi: "b = None \<longrightarrow> i = []"
  shows "fgets_multiline b (i @ t @ LF # f) = (Some (acc @ [LF]), f)"
    and "fgets_multiline b (i @ t @ BSL # LF # f) = fgets_multiline (Some acc) f"
proof -
  have t: "t \<noteq> []" "LF \<notin> set t" "NUL \<notin> set t" "last t \<noteq> BSL" "last t \<noteq> CR" using assms(1) by (auto simp: piece_ok_def)
  have i: "LF \<notin> set i" "NUL \<notin> set i" using assms(2) by (force simp: blanks_def list_all_iff)+
  have acc: "acc \<noteq> []" "last acc = last t" using t by (auto simp: acc_def split: option.splits)
  have f1: "fgets TEMP_SIZE (i @ t @ LF # f) = Some (i @ t @ [LF], f)"
    using fgets_line [of "i @ t" f] t i assms(5) by simp
  have f2: "fgets TEMP_SIZE (i @ t @ BSL # LF # f) = Some (i @ t @ [BSL, LF], f)"
    using fgets_line [of "i @ t @ [BSL]" f] t i assms(5) by simp
  have buf: "(case b of None \<Rightarrow> cstr (i @ t @ e) | Some a \<Rightarrow> a @ skip_blanks (cstr (i @ t @ e))) = acc @ e"
    if "NUL \<notin> set e" for e
  proof -
    have c: "cstr (i @ t @ e) = i @ t @ e" using that t i by (intro cstr_no_nul) simp
    show ?thesis
    proof (cases b)
      case None
      then show ?thesis using bi c by (simp add: acc_def)
    next
      case (Some a)
      then show ?thesis using assms(2,3,4) t(1) by (simp add: c acc_def skip_blanks_padded [of i "t @ e"])
    qed
  qed
  have e1: "line_end (acc @ [LF]) = int (length acc) - 1" using line_end_last acc t by simp
  have e2: "line_end (acc @ [BSL, LF]) = int (length acc)" using line_end_last [of "acc @ [BSL]"] by simp
  obtain a c where c: "acc = a @ [c]" "c \<noteq> BSL" using acc t by (cases acc rule: rev_cases) auto
  have n1: "(acc @ [LF]) ! nat (line_end (acc @ [LF])) \<noteq> BSL"
    unfolding e1 using c by (simp add: nth_append)
  have n2: "(acc @ [BSL, LF]) ! nat (line_end (acc @ [BSL, LF])) = BSL"
    unfolding e2 by (simp add: nth_append)
  have n3: "(acc @ [BSL, LF]) ! nat (line_end (acc @ [BSL, LF]) - 1) \<noteq> BSL"
    unfolding e2 using c by (simp add: nth_append)
  have n4: "take (nat (line_end (acc @ [BSL, LF]))) (acc @ [BSL, LF]) = acc" "line_end (acc @ [BSL, LF]) > 0"
    unfolding e2 using acc by simp_all
  have b1: "(case b of None \<Rightarrow> cstr (i @ t @ [LF]) | Some a \<Rightarrow> a @ skip_blanks (cstr (i @ t @ [LF]))) = acc @ [LF]"
    by (rule buf) simp
  have b2: "(case b of None \<Rightarrow> cstr (i @ t @ [BSL, LF]) | Some a \<Rightarrow> a @ skip_blanks (cstr (i @ t @ [BSL, LF]))) = acc @ [BSL, LF]"
    by (rule buf) simp
  show "fgets_multiline b (i @ t @ LF # f) = (Some (acc @ [LF]), f)"
    by (subst fgets_multiline.simps, unfold f1 option.case prod.case b1 Let_def) (simp add: n1)
  show "fgets_multiline b (i @ t @ BSL # LF # f) = fgets_multiline (Some acc) f"
    by (subst fgets_multiline.simps, unfold f2 option.case prod.case b2 Let_def) (simp add: n2 n3 n4 del: take_append)
qed

lemma multiline_more:
  assumes "\<forall>(i, u)\<in>set conts. blanks i \<and> piece_ok u \<and> hd u \<noteq> CHR '' '' \<and> hd u \<noteq> TAB \<and> length i + length u < 4093"
    "blanks i" "piece_ok t" "hd t \<noteq> CHR '' ''" "hd t \<noteq> TAB" "length i + length t < 4093"
  shows "fgets_multiline (Some acc) (i @ physical t conts @ f) = (Some (acc @ joined t conts @ [LF]), f)"
  using assms
proof (induction t conts arbitrary: i acc rule: physical.induct)
  case (1 t)
  then show ?case using multiline_step(1) [of t i "Some acc" f] by (simp add: joined_def)
next
  case (2 t j u conts)
  then show ?case
    using multiline_step(2) [of t i "Some acc" "j @ physical u conts @ f"] "2.IH" [of j "acc @ t"]
    by (simp add: joined_def)
qed

lemma multiline_line:
  assumes "pieces_ok t conts"
  shows "fgets_multiline None (physical t conts @ f) = (Some (joined t conts @ [LF]), f)"
proof (cases conts)
  case Nil
  then show ?thesis
    using multiline_step(1) [of t "[]" None f] assms by (simp add: pieces_ok_def blanks_def joined_def)
next
  case (Cons p conts')
  obtain i u where p: "p = (i, u)" by fastforce
  show ?thesis
    using multiline_step(2) [of t "[]" None "i @ physical u conts' @ f"] multiline_more [of conts' i u t f] assms
    by (simp add: pieces_ok_def blanks_def joined_def Cons p)
qed

text \<open>
  An item of a file: a comment or blank line, or an entry \<open>b1 key b2 = b3 val b4\<close>
  with blanks, either of them cut into physical lines in any way.
\<close>

record padded =
  b1 :: string
  key :: string
  b2 :: string
  b3 :: string
  val :: string
  b4 :: string

datatype item = Note string string | Param padded string "(string \<times> string) list"

definition padded_text :: "padded \<Rightarrow> string" where
  "padded_text p = b1 p @ key p @ b2 p @ ''='' @ b3 p @ val p @ b4 p"

definition bare :: "string \<Rightarrow> bool" where
  "bare s \<longleftrightarrow> s \<noteq> [] \<and> \<not> is_strip (hd s) \<and> \<not> is_strip (last s) \<and> LF \<notin> set s"

fun item_ok :: "item \<Rightarrow> bool" where
  "item_ok (Note b c) = (blanks b \<and> (c = [] \<or> hd c = CHR ''#'' \<and> piece_ok c) \<and> length b + length c < 4093)"
| "item_ok (Param p t conts) =
     (pieces_ok t conts \<and> joined t conts = padded_text p
      \<and> blanks (b1 p) \<and> blanks (b2 p) \<and> blanks (b3 p) \<and> blanks (b4 p)
      \<and> bare (key p) \<and> bare (val p) \<and> CHR ''='' \<notin> set (key p) \<and> hd (key p) \<noteq> CHR ''#'')"

fun item_text :: "item \<Rightarrow> string" where
  "item_text (Note b c) = b @ c @ [LF]"
| "item_text (Param p t conts) = physical t conts"

fun item_params :: "item \<Rightarrow> params" where
  "item_params (Note b c) = []"
| "item_params (Param p t conts) = [(key p, val p)]"

lemma blanks_strip: "blanks b \<Longrightarrow> list_all is_strip b"
  by (auto simp: blanks_def is_strip_def list_all_iff)

lemma strip_line:
  assumes "blanks a" "bare m" "blanks b"
  shows "strip (a @ m @ b @ [LF]) = m" and "strip (a @ m @ b) = m"
  using strip_padded [of a "b @ [LF]" m] strip_padded [of a b m] assms
  by (simp_all add: blanks_strip bare_def is_strip_def [of LF])

lemma blanks_chars:
  assumes "blanks b"
  shows "LF \<notin> set b" "NUL \<notin> set b" "b \<noteq> [] \<Longrightarrow> last b \<noteq> BSL \<and> last b \<noteq> CR"
proof -
  have a: "c = CHR '' '' \<or> c = TAB" if "c \<in> set b" for c
    using assms that by (simp add: blanks_def list_all_iff)
  show "LF \<notin> set b" "NUL \<notin> set b" using a by force+
  assume "b \<noteq> []"
  then have "last b = CHR '' '' \<or> last b = TAB" by (intro a) simp
  then show "last b \<noteq> BSL \<and> last b \<noteq> CR" by (auto simp: TAB_def BSL_def CR_def)
qed

lemma multiline_note:
  assumes "item_ok (Note b c)"
  shows "\<exists>l. fgets_multiline None ((b @ c @ [LF]) @ f) = (Some l, f) \<and> (strip l = [] \<or> hd (strip l) = CHR ''#'')"
proof (cases "b @ c = []")
  case True
  have "fgets TEMP_SIZE (LF # f) = Some ([LF], f)" using fgets_line [of "[]" f] by simp
  then have "fgets_multiline None (LF # f) = (Some [LF], f)"
    by (subst fgets_multiline.simps) (simp add: cstr_def line_end_def)
  moreover have "strip [LF] = []" using strip_blank [of "[LF]"] by (simp add: is_strip_def)
  ultimately show ?thesis using True by auto
next
  case False
  have "piece_ok (b @ c)"
    using assms False blanks_chars [of b] by (cases "c = []") (simp_all add: piece_ok_def)
  then have m: "fgets_multiline None ((b @ c @ [LF]) @ f) = (Some (b @ c @ [LF]), f)"
    using multiline_line [of "b @ c" "[]" f] assms by (simp add: pieces_ok_def joined_def)
  have s: "strip (b @ c @ [LF]) = [] \<or> hd (strip (b @ c @ [LF])) = CHR ''#''"
  proof (cases "c = []")
    case True
    then show ?thesis using strip_blank [of "b @ [LF]"] assms blanks_strip [of b] by (simp add: is_strip_def)
  next
    case False
    define d where "d = tl c"
    have c: "c = CHR ''#'' # d" using False assms by (cases c) (auto simp: d_def)
    have h: "\<not> is_strip (CHR ''#'')" by (simp add: is_strip_def LF_def CR_def TAB_def)
    obtain e where e: "rev (dropWhile is_strip (rev (b @ c))) = b @ CHR ''#'' # e"
    proof -
      have "\<exists>e. dropWhile is_strip (rev d @ CHR ''#'' # rev b) = rev e @ CHR ''#'' # rev b"
      proof (induction d rule: rev_induct)
        case Nil
        show ?case by (rule exI [of _ "[]"]) (simp add: h)
      next
        case (snoc x xs)
        then show ?case by (cases "is_strip x") (auto intro: exI [of _ "xs @ [x]"])
      qed
      then show ?thesis using that c by auto
    qed
    have "strip (b @ c @ [LF]) = CHR ''#'' # e"
      using e assms blanks_strip [of b] by (simp add: strip_trims is_strip_def [of LF] dropWhile_all h)
    then show ?thesis by simp
  qed
  show ?thesis using m s by blast
qed

section \<open>Reading what was written\<close>

lemma read_lines_note:
  assumes "item_ok (Note b c)"
  shows "read_lines (b @ c @ [LF] @ f) ps = read_lines f ps"
proof -
  obtain l where "fgets_multiline None ((b @ c @ [LF]) @ f) = (Some l, f)" "strip l = [] \<or> hd (strip l) = CHR ''#''"
    using multiline_note [OF assms] by blast
  then show ?thesis by (subst read_lines.simps) (simp add: Let_def)
qed

lemma until_char:
  assumes "d \<notin> set a"
  shows "takeWhile (\<lambda>c. c \<noteq> d) (a @ d # r) = a" "dropWhile (\<lambda>c. c \<noteq> d) (a @ d # r) = d # r"
    "takeWhile (\<lambda>c. c \<noteq> d) a = a" "dropWhile (\<lambda>c. c \<noteq> d) a = []"
  using assms by (induction a) auto

lemma strtok_first: "d \<notin> set a \<Longrightarrow> a \<noteq> [] \<Longrightarrow> strtok d (a @ d # r) = Some (a, r)"
  by (cases a) (auto simp: strtok_def Let_def until_char)

lemma strtok_all: "d \<notin> set a \<Longrightarrow> a \<noteq> [] \<Longrightarrow> strtok d a = Some (a, [])"
  by (cases a) (auto simp: strtok_def Let_def until_char)

lemma blanks_no_eq: "blanks b \<Longrightarrow> CHR ''='' \<notin> set b"
  by (force simp: blanks_def list_all_iff TAB_def)

lemma bare_joined:
  assumes "bare m" "bare n" "LF \<notin> set w"
  shows "bare (m @ w @ n)"
  using assms by (auto simp: bare_def)

lemma read_lines_param:
  assumes "item_ok (Param p t conts)"
  shows "read_lines (physical t conts @ f) ps = read_lines f ((key p, val p) # ps)"
proof -
  have bl: "blanks (b1 p)" "blanks (b2 p)" "blanks (b3 p)" "blanks (b4 p)" and k: "bare (key p)" "bare (val p)"
    and e: "CHR ''='' \<notin> set (key p)" "hd (key p) \<noteq> CHR ''#''" and j: "joined t conts = padded_text p"
    and o: "pieces_ok t conts"
    using assms by simp_all
  let ?m = "key p @ (b2 p @ ''='' @ b3 p) @ val p"
  have m: "bare ?m"
    using k bl blanks_chars by (intro bare_joined) (auto simp: LF_def)
  have "strip (b1 p @ ?m @ b4 p @ [LF]) = ?m" by (rule strip_line) (rule bl m)+
  then have s: "strip (joined t conts @ [LF]) = ?m" by (simp add: j padded_text_def)
  have ne: "?m \<noteq> []" "hd ?m \<noteq> CHR ''#''" using k e by (auto simp: bare_def)
  have t1: "strtok (CHR ''='') ?m = Some (key p @ b2 p, b3 p @ val p)"
    using strtok_first [of "CHR ''=''" "key p @ b2 p" "b3 p @ val p"] e(1) k(1) blanks_no_eq [OF bl(2)]
    by (simp add: bare_def)
  have t2: "strtok LF (b3 p @ val p) = Some (b3 p @ val p, [])"
    using k(2) blanks_chars [OF bl(3)] by (intro strtok_all) (auto simp: bare_def)
  have s1: "strip (key p @ b2 p) = key p" using strip_line(2) [of "[]" "key p" "b2 p"] k bl by (simp add: blanks_def)
  have s2: "strip (b3 p @ val p) = val p" using strip_line(2) [of "b3 p" "val p" "[]"] k bl by (simp add: blanks_def)
  show ?thesis
    by (subst read_lines.simps, unfold multiline_line [OF o] prod.case option.case s Let_def t1 t2 s1 s2)
      (simp add: ne [simplified] add_param_def)
qed

lemma read_lines_items:
  "list_all item_ok items \<Longrightarrow>
   read_lines (concat (map item_text items) @ f) ps = read_lines f (rev (concat (map item_params items)) @ ps)"
proof (induction items arbitrary: ps)
  case (Cons it items)
  have ok: "item_ok it" using Cons.prems by simp
  have "read_lines (item_text it @ g) ps = read_lines g (rev (item_params it) @ ps)" for g
    using ok read_lines_note read_lines_param by (cases it) (simp_all del: item_ok.simps)
  then show ?case using Cons by (simp del: item_ok.simps)
qed simp

lemma read_lines_bad:
  assumes "pieces_ok t conts" "joined t conts = a @ m @ b" "blanks a" "blanks b" "bare m"
    "hd m \<noteq> CHR ''#''" "CHR ''='' \<notin> set (butlast m)"
  shows "read_lines (physical t conts @ f) ps = (-1, ps)"
proof -
  have s: "strip (joined t conts @ [LF]) = m" using strip_line(1) [of a m b] assms by simp
  obtain n c where m: "m = n @ [c]" using assms(5) by (cases m rule: rev_cases) (auto simp: bare_def)
  have n: "CHR ''='' \<notin> set n" using assms(7) m by simp
  have "strtok (CHR ''='') m = None \<or> (\<exists>v. strtok (CHR ''='') m = Some (v, []))"
  proof (cases "c = CHR ''=''")
    case True
    then show ?thesis using n m strtok_first [of "CHR ''=''" n "[]"] by (cases n) (auto simp: strtok_def)
  next
    case False
    then show ?thesis using strtok_all [of "CHR ''=''" m] n m by auto
  qed
  moreover have "strtok LF [] = None" by (simp add: strtok_def)
  ultimately show ?thesis
    using assms(5,6) by (subst read_lines.simps, unfold multiline_line [OF assms(1)] prod.case option.case s Let_def)
      (auto simp: bare_def)
qed

lemma get_config_param_map_of: "get_config_param n ps = map_of ps n"
  by (induction ps) auto

section \<open>Properties\<close>

text \<open>
  C21. A configuration file is read back: for any file of comments, blank lines
  and entries with blanks around keys and values, the lines cut into
  continuation lines in any way (each below the buffer's size), reading
  succeeds and \<open>get_config_param\<close> delivers for every name the value of the last
  entry with that key.
\<close>

theorem config_file_roundtrip:
  assumes "list_all item_ok items"
  shows "fst (read_config_file (Some (concat (map item_text items))) []) = 0
    \<and> get_config_param name (snd (read_config_file (Some (concat (map item_text items))) []))
       = map_of (rev (concat (map item_params items))) name"
proof -
  have "read_lines [] ps = (0, ps)" for ps
    by (subst read_lines.simps) (simp add: fgets_multiline.simps fgets_def)
  then have "read_lines (concat (map item_text items)) [] = (0, rev (concat (map item_params items)))"
    using read_lines_items [OF assms, of "[]" "[]"] by simp
  then show ?thesis
    by (simp_all add: read_config_file_def get_config_param_map_of)
qed

definition sample_param :: item where
  "sample_param = Param \<lparr>b1 = '' '', key = ''a'', b2 = '' '', b3 = [], val = ''xy'', b4 = '' ''\<rparr> '' a =x'' [(''  '', ''y '')]"

lemma sample_param_ok: "item_ok sample_param"
  by (simp add: sample_param_def pieces_ok_def piece_ok_def padded_text_def joined_def bare_def blanks_def
      is_strip_def LF_def NUL_def BSL_def CR_def TAB_def)

theorem config_file_roundtrip_witness:
  "fst (read_config_file (Some (concat (map item_text [sample_param, Note '' '' ''#b'']))) []) = 0
   \<and> get_config_param ''a'' (snd (read_config_file (Some (concat (map item_text [sample_param, Note '' '' ''#b'']))) []))
     = Some ''xy''"
proof -
  have "list_all item_ok [sample_param, Note '' '' ''#b'']"
    using sample_param_ok by (simp add: piece_ok_def blanks_def LF_def NUL_def BSL_def CR_def TAB_def)
  then show ?thesis
    using config_file_roundtrip [of "[sample_param, Note '' '' ''#b'']"] by (simp add: sample_param_def)
qed

text \<open>
  C34. A line without an equals sign, or with nothing after it, ends the
  reading: the result is -1, the entries before it are in the table, and
  nothing of what follows is.
\<close>

theorem config_file_stops:
  assumes "list_all item_ok items" "pieces_ok t conts" "joined t conts = a @ m @ b" "blanks a" "blanks b"
    "bare m" "hd m \<noteq> CHR ''#''" "CHR ''='' \<notin> set (butlast m)"
  shows "read_config_file (Some (concat (map item_text items) @ physical t conts @ f)) ps
    = (-1, rev (concat (map item_params items)) @ ps)"
  using read_lines_items [OF assms(1)] read_lines_bad [OF assms(2-8)] by (simp add: read_config_file_def)

theorem config_file_stops_witness:
  "read_config_file (Some (item_text sample_param @ ''b='' @ [LF] @ ''c=d'' @ [LF])) [] = (-1, [(''a'', ''xy'')])"
proof -
  have "pieces_ok ''b='' []" "bare ''b=''"
    by (simp_all add: pieces_ok_def piece_ok_def bare_def is_strip_def LF_def NUL_def BSL_def CR_def TAB_def)
  then show ?thesis
    using config_file_stops [of "[sample_param]" "''b=''" "[]" "[]" "''b=''" "[]" "''c=d'' @ [LF]" "[]"]
      sample_param_ok by (simp add: joined_def blanks_def sample_param_def)
qed

end
