(* ===== verification/MessageQueue.thy ===== *)
theory MessageQueue
  imports Prelude
begin

text \<open>
  The message queue (\<open>src/message_queue.h\<close>, \<open>src/message_queue.cpp\<close>), which no
  program of the build uses: opening a datagram socket of the Unix domain for
  reading or writing, with retries.  The system calls are a parameter; the calls
  an operation makes are recorded.
\<close>

section \<open>System calls\<close>

datatype mq_call =
    Unlink string | Stat string | Socket | Bind int string | Connect int string | Close int | Chmod string int
  | Set_rcvbuf int int | Set_sndbuf int int | Sleep nat

text \<open>
  What a call returns, given the calls made before it: \<open>stat\<close>, \<open>socket\<close>, \<open>bind\<close> and
  \<open>connect\<close> their code, and \<open>getsockopt\<close> the size of a buffer or no value.
\<close>

record mq_system =
  r_stat :: "mq_call list \<Rightarrow> int"
  r_socket :: "mq_call list \<Rightarrow> int"
  r_bind :: "mq_call list \<Rightarrow> int"
  r_connect :: "mq_call list \<Rightarrow> int"
  r_rcvbuf :: "mq_call list \<Rightarrow> int option"
  r_sndbuf :: "mq_call list \<Rightarrow> int option"

text \<open>\<open>sun_path\<close> has 108 bytes, the last of them the NUL.\<close>

definition sun_path :: "string \<Rightarrow> string" where
  "sun_path path = take 107 path"

section \<open>Sockets\<close>

definition file_is_exist :: "mq_system \<Rightarrow> string \<Rightarrow> mq_call list \<Rightarrow> int \<times> mq_call list" where
  "file_is_exist sys file tr = (if r_stat sys tr < 0 then 0 else 1, tr @ [Stat file])"

definition bind_unix_domain :: "mq_system \<Rightarrow> string \<Rightarrow> int \<Rightarrow> int \<Rightarrow> mq_call list \<Rightarrow> int \<times> mq_call list" where
  "bind_unix_domain sys path mode max_msg_size tr =
     (let d1 = tr @ [Unlink path]; sock = r_socket sys d1; d2 = d1 @ [Socket]
      in if sock < 0 then (-1, d2)
         else let rc = r_bind sys d2; d3 = d2 @ [Bind sock (sun_path path)]
              in if rc < 0 then (-1, d3 @ [Close sock])
                 else let d4 = d3 @ [Chmod path mode]
                      in case r_rcvbuf sys d4 of
                           None \<Rightarrow> (-1, d4)
                         | Some len \<Rightarrow> (sock, if len < max_msg_size then d4 @ [Set_rcvbuf sock max_msg_size] else d4))"

definition connect_unix_domain :: "mq_system \<Rightarrow> string \<Rightarrow> int \<Rightarrow> mq_call list \<Rightarrow> int \<times> mq_call list" where
  "connect_unix_domain sys path max_msg_size tr =
     (let sock = r_socket sys tr; d1 = tr @ [Socket]
      in if sock < 0 then (-1, d1)
         else let rc = r_connect sys d1; d2 = d1 @ [Connect sock (sun_path path)]
              in if rc < 0 then (-1, d2)
                 else case r_sndbuf sys d2 of
                        None \<Rightarrow> (-1, d2)
                      | Some len \<Rightarrow> (sock, if len < max_msg_size then d2 @ [Set_sndbuf sock max_msg_size] else d2))"

definition getsocketsize :: "mq_system \<Rightarrow> mq_call list \<Rightarrow> int" where
  "getsocketsize sys tr = (case r_sndbuf sys tr of None \<Rightarrow> -1 | Some len \<Rightarrow> len)"

section \<open>Retries\<close>

definition MAX_RETRY :: nat where
  "MAX_RETRY = 3"

text \<open>The loop from \<open>i\<close>, with what \<open>i\<close> is behind it; a result other than 0 counts as success.\<close>

function try_loop :: "(mq_call list \<Rightarrow> int \<times> mq_call list) \<Rightarrow> nat \<Rightarrow> mq_call list \<Rightarrow> nat \<times> mq_call list" where
  "try_loop call i tr =
     (case call tr of
        (r, d1) \<Rightarrow> if r = 0 \<and> i < MAX_RETRY then try_loop call (i + 1) (d1 @ [Sleep (1 + 5 * i)]) else (i, d1))"
  by pat_completeness auto
termination
  by (relation "measure (\<lambda>(call, i, tr). MAX_RETRY - i)") auto

declare try_loop.simps [simp del]

definition try_call :: "(mq_call list \<Rightarrow> int \<times> mq_call list) \<Rightarrow> mq_call list \<Rightarrow> int \<times> mq_call list" where
  "try_call call tr = (case try_loop call 0 tr of (i, d) \<Rightarrow> (if MAX_RETRY \<le> i then -1 else 0, d))"

section \<open>The queue\<close>

record MQ =
  mq_sock :: int
  mq_path :: string
  mq_type :: int

definition READ :: int where
  "READ = 1"

text \<open>The object, the result, and the calls made.\<close>

definition MQ_start :: "mq_system \<Rightarrow> MQ \<Rightarrow> mq_call list \<Rightarrow> MQ \<times> int \<times> mq_call list" where
  "MQ_start sys q tr =
     (if mq_type q = READ
      then case bind_unix_domain sys (mq_path q) 432 (1024 + 512) tr of
             (sock, d) \<Rightarrow> (q\<lparr>mq_sock := sock\<rparr>, sock, d)
      else case try_call (file_is_exist sys (mq_path q)) tr of
             (rc, d) \<Rightarrow>
               if rc < 0 then (q, -1, d)
               else case try_call (connect_unix_domain sys (mq_path q) (1024 + 512)) d of
                      (sock, d') \<Rightarrow> (q\<lparr>mq_sock := sock\<rparr>, sock, d'))"

definition MQ_send :: "MQ \<Rightarrow> int" where
  "MQ_send q = 0"

definition MQ_recv :: "MQ \<Rightarrow> int" where
  "MQ_recv q = 0"

section \<open>What starting delivers\<close>

text \<open>At once, if the first call does not return 0.\<close>

lemma try_call_first: "call tr = (r, d) \<Longrightarrow> r \<noteq> 0 \<Longrightarrow> try_call call tr = (0, d)"
  by (simp add: try_call_def try_loop.simps [of call] MAX_RETRY_def)

lemma try_call_result: "fst (try_call call tr) \<in> {0, -1}"
  by (auto simp: try_call_def split: prod.split)

lemma bind_result:
  assumes "bind_unix_domain sys path mode n tr = (rc, d)" "s = r_socket sys (tr @ [Unlink path])"
  shows "\<exists>post. d = tr @ Unlink path # Socket # post \<and>
    (if 0 \<le> s \<and> 0 \<le> r_bind sys (tr @ [Unlink path, Socket])
     then Bind s (sun_path path) \<in> set post \<and> (\<forall>k. Close k \<notin> set post)
       \<and> rc = (if r_rcvbuf sys (tr @ [Unlink path, Socket, Bind s (sun_path path), Chmod path mode]) = None then -1 else s)
     else rc = -1 \<and> (0 \<le> s \<longrightarrow> Close s \<in> set post))"
  using assms by (auto simp: bind_unix_domain_def Let_def split: if_splits option.splits)

lemma file_exists_first:
  "\<forall>c. 0 \<le> r_stat sys c \<Longrightarrow> try_call (file_is_exist sys path) tr = (0, tr @ [Stat path])"
  by (intro try_call_first [of _ _ 1]) (auto simp: file_is_exist_def not_less)

text \<open>
  C39. Only a reader gets its socket.  A reader stores the descriptor of the
  socket it created and bound to its path and left open; when creating, binding
  or asking for the buffer size fails it stores -1, and a socket that could not be
  bound is closed.  A writer stores what \<open>try_call\<close> returns, 0 or -1: with its
  file in place it stores 0 whenever connecting delivers anything but the
  descriptor 0, be it the descriptor of the connected socket or the failure -1.
\<close>

theorem MQ_start_sockets:
  assumes "MQ_start sys q tr = (q', rc, d)" "path = mq_path q" "s = r_socket sys (tr @ [Unlink path])"
  shows "(mq_type q = READ \<longrightarrow> mq_sock q' = rc \<and> (\<exists>post. d = tr @ Unlink path # Socket # post \<and>
      (if 0 \<le> s \<and> 0 \<le> r_bind sys (tr @ [Unlink path, Socket])
       then Bind s (sun_path path) \<in> set post \<and> (\<forall>k. Close k \<notin> set post)
         \<and> rc = (if r_rcvbuf sys (tr @ [Unlink path, Socket, Bind s (sun_path path), Chmod path 432]) = None then -1 else s)
       else rc = -1 \<and> (0 \<le> s \<longrightarrow> Close s \<in> set post)))) \<and>
    (mq_type q \<noteq> READ \<longrightarrow> rc \<in> {0, -1} \<and> mq_sock q' \<in> {0, -1, mq_sock q} \<and>
      ((\<forall>c. 0 \<le> r_stat sys c) \<and> fst (connect_unix_domain sys path 1536 (tr @ [Stat path])) \<noteq> 0
        \<longrightarrow> rc = 0 \<and> mq_sock q' = 0))"
proof (cases "mq_type q = READ")
  case True
  obtain r d1 where b: "bind_unix_domain sys path 432 (1024 + 512) tr = (r, d1)" by fastforce
  have "q' = q\<lparr>mq_sock := r\<rparr>" "rc = r" "d = d1"
    using assms(1) True b by (auto simp: MQ_start_def simp flip: assms(2))
  moreover from bind_result [OF b assms(3)] have "\<exists>post. d1 = tr @ Unlink path # Socket # post \<and>
      (if 0 \<le> s \<and> 0 \<le> r_bind sys (tr @ [Unlink path, Socket])
       then Bind s (sun_path path) \<in> set post \<and> (\<forall>k. Close k \<notin> set post)
         \<and> r = (if r_rcvbuf sys (tr @ [Unlink path, Socket, Bind s (sun_path path), Chmod path 432]) = None then -1 else s)
       else r = -1 \<and> (0 \<le> s \<longrightarrow> Close s \<in> set post))" .
  moreover have "mq_sock q' = rc" using calculation(1,2) by simp
  ultimately show ?thesis using True by (simp only: simp_thms)
next
  case False
  obtain rc1 d1 where t1: "try_call (file_is_exist sys path) tr = (rc1, d1)" by fastforce
  obtain sock d2 where t2: "try_call (connect_unix_domain sys path (1024 + 512)) d1 = (sock, d2)" by fastforce
  have s: "rc1 \<in> {0, -1}" "sock \<in> {0, -1}"
    using try_call_result [of "file_is_exist sys path" tr] t1
      try_call_result [of "connect_unix_domain sys path (1024 + 512)" d1] t2 by simp_all
  have r: "(q', rc, d) = (if rc1 < 0 then (q, -1, d1) else (q\<lparr>mq_sock := sock\<rparr>, sock, d2))"
    using assms(1) unfolding MQ_start_def if_not_P [OF False] assms(2) [symmetric] t1 prod.case t2 by (rule sym)
  have f: "rc1 = 0 \<and> sock = 0"
    if a: "\<forall>c. 0 \<le> r_stat sys c" "fst (connect_unix_domain sys path 1536 (tr @ [Stat path])) \<noteq> 0"
  proof -
    have e: "rc1 = 0" "d1 = tr @ [Stat path]" using file_exists_first [OF a(1), of path tr] t1 by simp_all
    obtain x dd where "connect_unix_domain sys path (1024 + 512) d1 = (x, dd)" "x \<noteq> 0"
      using a(2) e(2) by (cases "connect_unix_domain sys path (1024 + 512) d1") simp
    then show ?thesis using try_call_first t2 e(1) by fastforce
  qed
  show ?thesis using False r s f by (auto split: if_splits)
qed

definition sample_mq :: "int \<Rightarrow> mq_system" where
  "sample_mq conn = \<lparr>r_stat = \<lambda>c. 0, r_socket = \<lambda>c. 7, r_bind = \<lambda>c. 0, r_connect = \<lambda>c. conn,
     r_rcvbuf = \<lambda>c. Some 100, r_sndbuf = \<lambda>c. Some 100\<rparr>"

theorem MQ_start_sockets_witness:
  "(\<exists>q' d. MQ_start (sample_mq 0) \<lparr>mq_sock = 99, mq_path = ''/tmp/q'', mq_type = 1\<rparr> [] = (q', 7, d)
      \<and> mq_sock q' = 7 \<and> Bind 7 ''/tmp/q'' \<in> set d)
   \<and> (\<exists>q' d. MQ_start (sample_mq (-1)) \<lparr>mq_sock = 99, mq_path = ''/tmp/q'', mq_type = 2\<rparr> [] = (q', 0, d) \<and> mq_sock q' = 0)
   \<and> (\<exists>q' d. MQ_start (sample_mq 0) \<lparr>mq_sock = 99, mq_path = ''/tmp/q'', mq_type = 2\<rparr> [] = (q', 0, d) \<and> mq_sock q' = 0)"
proof (intro conjI)
  have p: "sun_path ''/tmp/q'' = ''/tmp/q''" by (simp add: sun_path_def)
  obtain q' rc d where r: "MQ_start (sample_mq 0) \<lparr>mq_sock = 99, mq_path = ''/tmp/q'', mq_type = 1\<rparr> [] = (q', rc, d)"
    by (metis prod_cases3)
  show "\<exists>q' d. MQ_start (sample_mq 0) \<lparr>mq_sock = 99, mq_path = ''/tmp/q'', mq_type = 1\<rparr> [] = (q', 7, d)
      \<and> mq_sock q' = 7 \<and> Bind 7 ''/tmp/q'' \<in> set d"
    using MQ_start_sockets [OF r refl refl] r by (auto simp: sample_mq_def READ_def p)
  have c: "fst (connect_unix_domain (sample_mq x) ''/tmp/q'' 1536 [Stat ''/tmp/q'']) \<noteq> 0" for x
    by (simp add: connect_unix_domain_def sample_mq_def Let_def)
  have w: "\<exists>q' d. MQ_start (sample_mq x) \<lparr>mq_sock = 99, mq_path = ''/tmp/q'', mq_type = 2\<rparr> [] = (q', 0, d) \<and> mq_sock q' = 0" for x
  proof -
    obtain q' rc d where r: "MQ_start (sample_mq x) \<lparr>mq_sock = 99, mq_path = ''/tmp/q'', mq_type = 2\<rparr> [] = (q', rc, d)"
      by (metis prod_cases3)
    have "\<forall>k. 0 \<le> r_stat (sample_mq x) k" by (simp add: sample_mq_def)
    then show ?thesis using MQ_start_sockets [OF r refl refl] r c [of x] by (simp add: READ_def)
  qed
  show "\<exists>q' d. MQ_start (sample_mq (-1)) \<lparr>mq_sock = 99, mq_path = ''/tmp/q'', mq_type = 2\<rparr> [] = (q', 0, d) \<and> mq_sock q' = 0"
    "\<exists>q' d. MQ_start (sample_mq 0) \<lparr>mq_sock = 99, mq_path = ''/tmp/q'', mq_type = 2\<rparr> [] = (q', 0, d) \<and> mq_sock q' = 0"
    by (rule w)+
qed

end
