(* ===== verification/Exceptions.thy ===== *)
theory Exceptions
  imports Cstring
begin

text \<open>
  The exceptions of the program (\<open>src/myexception.h\<close>, \<open>src/myexception.cpp\<close>):
  construction, the place they are thrown at, and their text with the stack
  trace.  \<open>backtrace\<close>, \<open>backtrace_symbols\<close> and the demangler are parameters.
\<close>

section \<open>Exception objects\<close>

datatype ex_class = ExceptionBase | MyException

text \<open>
  The array of addresses is a function of the index; only its first
  \<open>mStackTraceSize\<close> entries are written.
\<close>

record 'addr exception_base =
  x_class :: ex_class
  mMsg :: string
  mFile :: string
  mFunc :: string
  mLine :: int
  mStackTrace :: "nat \<Rightarrow> 'addr"
  mStackTraceSize :: nat
  mWhat :: string

definition MAX_STACK_TRACE_SIZE :: nat where
  "MAX_STACK_TRACE_SIZE = 50"

definition exception_new :: "ex_class \<Rightarrow> (nat \<Rightarrow> 'addr) \<Rightarrow> string \<Rightarrow> 'addr exception_base" where
  "exception_new c memory msg =
     \<lparr>x_class = c, mMsg = msg, mFile = ''<unknown file>'', mFunc = ''<unknown func>'', mLine = -1,
      mStackTrace = memory, mStackTraceSize = 0, mWhat = ''''\<rparr>"

text \<open>\<open>backtrace\<close> fills the array with the innermost frames, as many as there are and fit.\<close>

definition Init :: "'addr list \<Rightarrow> string \<Rightarrow> string \<Rightarrow> int \<Rightarrow> 'addr exception_base \<Rightarrow> 'addr exception_base" where
  "Init frames file func line e =
     (let got = take MAX_STACK_TRACE_SIZE frames
      in e\<lparr>mFile := file, mFunc := func, mLine := line,
           mStackTrace := (\<lambda>i. if i < length got then got ! i else mStackTrace e i),
           mStackTraceSize := length got\<rparr>)"

definition GetClassName :: "'addr exception_base \<Rightarrow> string" where
  "GetClassName e = (case x_class e of ExceptionBase \<Rightarrow> ''ExceptionBase'' | MyException \<Rightarrow> ''MyException'')"

definition GetMessage :: "'addr exception_base \<Rightarrow> string" where
  "GetMessage e = mMsg e"

text \<open>\<open>MY_THROW\<close>: the exception that is thrown.\<close>

definition MY_THROW :: "ex_class \<Rightarrow> (nat \<Rightarrow> 'addr) \<Rightarrow> string \<Rightarrow> 'addr list \<Rightarrow> string \<Rightarrow> string \<Rightarrow> int \<Rightarrow> 'addr exception_base" where
  "MY_THROW c memory msg frames file func line = Init frames file func line (exception_new c memory msg)"

section \<open>The stack trace\<close>

text \<open>\<open>find\<close> from a position; the position \<open>npos\<close> is \<open>None\<close>.\<close>

definition find_from :: "char \<Rightarrow> string \<Rightarrow> nat option \<Rightarrow> nat option" where
  "find_from c s pos =
     (case pos of
        None \<Rightarrow> None
      | Some p \<Rightarrow>
          if c \<in> set (drop p s) then Some (p + length (takeWhile (\<lambda>x. x \<noteq> c) (drop p s))) else None)"

definition trace_line :: "(string \<Rightarrow> string option) \<Rightarrow> string \<Rightarrow> string" where
  "trace_line demangle mangledName =
     (let b = find_from CHR ''('' mangledName (Some 0); en = find_from CHR ''+'' mangledName b
      in (case (b, en) of
            (Some bg, Some e) \<Rightarrow>
              let begin = bg + 1
              in (case demangle (take (e - begin) (drop begin mangledName)) of
                    None \<Rightarrow> mangledName
                  | Some demangledName \<Rightarrow> take begin mangledName @ demangledName @ drop e mangledName)
          | _ \<Rightarrow> mangledName) @ [CHR 0x0A])"

text \<open>The loop from \<open>i\<close>; \<open>None\<close> is a read beyond the array of strings.\<close>

function trace_loop :: "(string \<Rightarrow> string option) \<Rightarrow> string list \<Rightarrow> nat \<Rightarrow> nat \<Rightarrow> string option" where
  "trace_loop demangle strings n i =
     (if n \<le> i then Some ''''
      else if length strings \<le> i then None
      else map_option ((@) (trace_line demangle (strings ! i))) (trace_loop demangle strings n (i + 1)))"
  by pat_completeness auto
termination
  by (relation "measure (\<lambda>(demangle, strings, n, i). n - i)") auto

declare trace_loop.simps [simp del]

definition GetStackTrace :: "('addr list \<Rightarrow> string list option) \<Rightarrow> (string \<Rightarrow> string option) \<Rightarrow> 'addr exception_base \<Rightarrow> string option" where
  "GetStackTrace symbols demangle e =
     (if mStackTraceSize e = 0 then Some (''<No stack trace>'' @ [CHR 0x0A])
      else case symbols (map (mStackTrace e) [0..<10]) of
             None \<Rightarrow> Some (''<Unknown error: backtrace_symbols returned NULL>'' @ [CHR 0x0A])
           | Some strings \<Rightarrow> trace_loop demangle strings (mStackTraceSize e) 0)"

section \<open>The text\<close>

text \<open>The object with its cached text, and the text.\<close>

definition ToString :: "('addr list \<Rightarrow> string list option) \<Rightarrow> (string \<Rightarrow> string option) \<Rightarrow> 'addr exception_base \<Rightarrow>
    ('addr exception_base \<times> string) option" where
  "ToString symbols demangle e =
     (if mWhat e = ''''
      then map_option (\<lambda>trace.
             let text = (if 0 < mLine e then mFile e @ ''('' @ show_int (mLine e) @ '')'' else '''') @ '': '' @ GetClassName e
                 @ (if GetMessage e \<noteq> '''' then '': '' @ GetMessage e else '''')
                 @ [CHR 0x0A] @ ''Stack Trace:'' @ [CHR 0x0A] @ trace
             in (e\<lparr>mWhat := text\<rparr>, text))
           (GetStackTrace symbols demangle e)
      else Some (e, mWhat e))"

definition exception_what :: "('addr list \<Rightarrow> string list option) \<Rightarrow> (string \<Rightarrow> string option) \<Rightarrow> 'addr exception_base \<Rightarrow>
    ('addr exception_base \<times> string) option" where
  "exception_what symbols demangle e = ToString symbols demangle e"

section \<open>What a handler reads\<close>

lemma trace_loop_whole:
  "i \<le> n \<Longrightarrow> n \<le> length strings \<Longrightarrow>
   trace_loop demangle strings n i = Some (concat (map (trace_line demangle) (drop i (take n strings))))"
proof (induction "n - i" arbitrary: i)
  case 0
  then show ?case by (simp add: trace_loop.simps)
next
  case (Suc k)
  then have i: "i < n" "i < length strings" by simp_all
  then have "drop i (take n strings) = strings ! i # drop (Suc i) (take n strings)"
    using Cons_nth_drop_Suc [of i "take n strings"] by simp
  then show ?case using Suc i by (simp add: trace_loop.simps [of demangle strings n i])
qed

lemma trace_loop_beyond: "i \<le> length strings \<Longrightarrow> length strings < n \<Longrightarrow> trace_loop demangle strings n i = None"
proof (induction "length strings - i" arbitrary: i)
  case 0
  then show ?case by (simp add: trace_loop.simps)
next
  case (Suc k)
  then show ?case by (simp add: trace_loop.simps [of demangle strings n i])
qed

text \<open>The header of the text of an exception that was thrown with a message.\<close>

definition report_head :: "string \<Rightarrow> int \<Rightarrow> string \<Rightarrow> string" where
  "report_head file line msg = file @ ''('' @ show_int line @ ''): MyException: '' @ msg @ [CHR 0x0A] @ ''Stack Trace:'' @ [CHR 0x0A]"

lemma thrown_sels:
  "x_class (MY_THROW c memory msg frames file func line) = c" "mMsg (MY_THROW c memory msg frames file func line) = msg"
  "mFile (MY_THROW c memory msg frames file func line) = file" "mLine (MY_THROW c memory msg frames file func line) = line"
  "mWhat (MY_THROW c memory msg frames file func line) = ''''"
  "mStackTraceSize (MY_THROW c memory msg frames file func line) = min 50 (length frames)"
  by (simp_all add: MY_THROW_def Init_def exception_new_def Let_def MAX_STACK_TRACE_SIZE_def min.commute)

text \<open>
  C40. What a handler prints of a thrown \<open>MyException\<close>: up to ten frames deep the
  text is the place, the class, the message and a line for every frame, and it
  stays the same however often it is asked for and whatever \<open>Init\<close> does later;
  deeper, the loop reads beyond the ten strings \<open>backtrace_symbols\<close> was asked for.
\<close>

theorem exception_report:
  assumes "\<And>xs ss. symbols xs = Some ss \<Longrightarrow> length ss = length xs"
    and "e = MY_THROW MyException memory msg frames file func line" "frames \<noteq> []" "0 < line" "msg \<noteq> ''''"
    and "symbols (map (mStackTrace e) [0..<10]) = Some strings"
  shows "(length frames \<le> 10 \<longrightarrow>
      (\<exists>e' text. exception_what symbols demangle e = Some (e', text) \<and>
         text = report_head file line msg @ concat (map (trace_line demangle) (take (length frames) strings)) \<and>
         (\<forall>frames' file' func' line'. exception_what symbols demangle (Init frames' file' func' line' e')
            = Some (Init frames' file' func' line' e', text)))) \<and>
    (10 < length frames \<longrightarrow> exception_what symbols demangle e = None)"
proof -
  have sel: "x_class e = MyException" "mMsg e = msg" "mFile e = file" "mLine e = line" "mWhat e = []"
      "mStackTraceSize e = min 50 (length frames)"
    unfolding assms(2) by (rule thrown_sels)+
  have ten: "length strings = 10" using assms(1) [OF assms(6)] by simp
  have size: "mStackTraceSize e \<noteq> 0" using assms(3) sel by simp
  have trace: "GetStackTrace symbols demangle e = trace_loop demangle strings (mStackTraceSize e) 0"
    using size assms(6) by (simp add: GetStackTrace_def)
  show ?thesis
  proof (intro conjI impI)
    assume n: "length frames \<le> 10"
    then have t: "GetStackTrace symbols demangle e = Some (concat (map (trace_line demangle) (take (length frames) strings)))"
      using trace trace_loop_whole [of 0 "length frames" strings demangle] ten sel by (simp add: min_def)
    let ?text = "report_head file line msg @ concat (map (trace_line demangle) (take (length frames) strings))"
    have w: "exception_what symbols demangle e = Some (e\<lparr>mWhat := ?text\<rparr>, ?text)"
      using t sel assms(4,5)
      by (simp add: exception_what_def ToString_def GetClassName_def GetMessage_def report_head_def Let_def)
    have "exception_what symbols demangle (Init frames' file' func' line' (e\<lparr>mWhat := ?text\<rparr>))
        = Some (Init frames' file' func' line' (e\<lparr>mWhat := ?text\<rparr>), ?text)" for frames' file' func' line'
      by (simp add: exception_what_def ToString_def Init_def Let_def report_head_def)
    with w show "\<exists>e' text. exception_what symbols demangle e = Some (e', text) \<and>
         text = report_head file line msg @ concat (map (trace_line demangle) (take (length frames) strings)) \<and>
         (\<forall>frames' file' func' line'. exception_what symbols demangle (Init frames' file' func' line' e')
            = Some (Init frames' file' func' line' e', text))"
      by blast
  next
    assume n: "10 < length frames"
    then have "trace_loop demangle strings (mStackTraceSize e) 0 = None"
      using ten sel by (intro trace_loop_beyond) auto
    then show "exception_what symbols demangle e = None"
      using trace sel by (simp add: exception_what_def ToString_def)
  qed
qed

theorem exception_report_witness:
  "\<exists>e'. exception_what (\<lambda>xs. Some (map (\<lambda>a. ''bin(f+1)'') xs)) (\<lambda>s. if s = ''f'' then Some ''g'' else None)
     (MY_THROW MyException (\<lambda>i. 0::nat) ''sqlite3 open failed'' [7] ''file_db.cpp'' ''FileDB'' 39)
   = Some (e', report_head ''file_db.cpp'' 39 ''sqlite3 open failed'' @ ''bin(g+1)'' @ [CHR 0x0A])"
proof -
  let ?e = "MY_THROW MyException (\<lambda>i. 0::nat) ''sqlite3 open failed'' [7] ''file_db.cpp'' ''FileDB'' 39"
  let ?d = "\<lambda>s. if s = ''f'' then Some ''g'' else None"
  let ?s = "\<lambda>xs::nat list. Some (map (\<lambda>a. ''bin(f+1)'') xs)"
  have "\<exists>e' text. exception_what ?s ?d ?e = Some (e', text) \<and>
      text = report_head ''file_db.cpp'' 39 ''sqlite3 open failed'' @
        concat (map (trace_line ?d) (take (length [7::nat]) (map (\<lambda>a. ''bin(f+1)'') (map (mStackTrace ?e) [0..<10]))))"
    using exception_report [of ?s ?e "\<lambda>i. 0" "''sqlite3 open failed''" "[7]" "''file_db.cpp''" "''FileDB''" 39
      "map (\<lambda>a. ''bin(f+1)'') (map (mStackTrace ?e) [0..<10])" ?d] by auto
  moreover have "trace_line ?d ''bin(f+1)'' = ''bin(g+1)'' @ [CHR 0x0A]" by code_simp
  ultimately show ?thesis by (auto simp: upt_rec)
qed

end
