(* ===== verification/Scanctx.thy ===== *)
theory Scanctx
  imports Lookup
begin

text \<open>
  The growing string buffer (\<open>lib/strbuf.h\<close>, \<open>lib/strbuf.c\<close>) and the context of
  the scanner (\<open>lib/scanctx.h\<close>, \<open>lib/scanctx.c\<close>): the stack of included files,
  the names of the files seen, and the string being collected.  The file system
  is a parameter that gives the contents of a file that can be opened.  The
  arrays of the context are lists of the length \<open>depth\<close>, the latest entry last.
\<close>

section \<open>String buffers\<close>

definition STRING_BLOCK_SIZE :: nat where
  "STRING_BLOCK_SIZE = 64"

record strbuf =
  sb_string :: "string option"      \<comment> \<open>the characters before the NUL\<close>
  sb_length :: nat
  sb_capacity :: nat

definition strbuf_zero :: strbuf where
  "strbuf_zero = \<lparr>sb_string = None, sb_length = 0, sb_capacity = 0\<rparr>"

definition strbuf_release :: "strbuf \<Rightarrow> strbuf \<times> string option" where
  "strbuf_release b = (strbuf_zero, sb_string b)"

text \<open>
  Rounding up to the block size with the mask.  \<open>strcpy\<close> writes the text and its
  NUL behind the first \<open>length\<close> characters.
\<close>

definition round_block :: "nat \<Rightarrow> nat" where
  "round_block n = (n + (STRING_BLOCK_SIZE - 1)) div STRING_BLOCK_SIZE * STRING_BLOCK_SIZE"

definition strbuf_append :: "strbuf \<Rightarrow> string \<Rightarrow> strbuf" where
  "strbuf_append b text =
     (let newlen = sb_length b + length text + 1;
          cap = (if newlen > sb_capacity b then round_block newlen else sb_capacity b);
          old = (case sb_string b of None \<Rightarrow> [] | Some s \<Rightarrow> s)
      in \<lparr>sb_string = Some (take (sb_length b) old @ text), sb_length = sb_length b + length text, sb_capacity = cap\<rparr>)"

section \<open>The scan context\<close>

definition MAX_INCLUDE_DEPTH :: nat where
  "MAX_INCLUDE_DEPTH = 10"

record 'b scan_context =
  sc_include_dir :: "string option"      \<comment> \<open>of the configuration\<close>
  sc_top :: "string option"
  sc_files :: "string list"
  sc_buffers :: "'b list"
  sc_string :: strbuf
  sc_filenames :: "string list"

definition sc_depth :: "'b scan_context \<Rightarrow> nat" where
  "sc_depth ctx = length (sc_files ctx)"

text \<open>The name is added unless it is there; the result is the name in the list.\<close>

definition scanctx_add_filename :: "'b scan_context \<Rightarrow> string \<Rightarrow> 'b scan_context \<times> string" where
  "scanctx_add_filename ctx filename =
     (case find (\<lambda>f. f = filename) (sc_filenames ctx) of
        Some f \<Rightarrow> (ctx, f)
      | None \<Rightarrow> (ctx\<lparr>sc_filenames := sc_filenames ctx @ [filename]\<rparr>, filename))"

definition scanctx_init :: "string option \<Rightarrow> string option \<Rightarrow> 'b scan_context" where
  "scanctx_init idir top_filename =
     (let ctx = \<lparr>sc_include_dir = idir, sc_top = None, sc_files = [], sc_buffers = [], sc_string = strbuf_zero,
                 sc_filenames = []\<rparr>
      in case top_filename of None \<Rightarrow> ctx
         | Some f \<Rightarrow> (case scanctx_add_filename ctx f of (ctx', g) \<Rightarrow> ctx'\<lparr>sc_top := Some g\<rparr>))"

definition scanctx_cleanup :: "'b scan_context \<Rightarrow> string list" where
  "scanctx_cleanup ctx = sc_filenames ctx"

definition scanctx_append_string :: "'b scan_context \<Rightarrow> string \<Rightarrow> 'b scan_context" where
  "scanctx_append_string ctx s = ctx\<lparr>sc_string := strbuf_append (sc_string ctx) s\<rparr>"

definition scanctx_take_string :: "'b scan_context \<Rightarrow> 'b scan_context \<times> string" where
  "scanctx_take_string ctx =
     (case strbuf_release (sc_string ctx) of
        (b, r) \<Rightarrow> (ctx\<lparr>sc_string := b\<rparr>, case r of None \<Rightarrow> [] | Some s \<Rightarrow> s))"

definition err_bad_include :: string where
  "err_bad_include = ''cannot open include file''"

definition err_include_too_deep :: string where
  "err_include_too_deep = ''include file nesting too deep''"

definition include_path :: "string option \<Rightarrow> string \<Rightarrow> string" where
  "include_path idir file = (case idir of None \<Rightarrow> file | Some d \<Rightarrow> d @ ''/'' @ file)"

text \<open>The included file's contents, or the error.\<close>

definition scanctx_push_include :: "(string \<Rightarrow> string option) \<Rightarrow> 'b scan_context \<Rightarrow> 'b \<Rightarrow>
    'b scan_context \<times> (string + string)" where
  "scanctx_push_include fopen ctx buffer =
     (if sc_depth ctx = MAX_INCLUDE_DEPTH then (ctx, Inl err_include_too_deep)
      else let (ctx1, file) = scanctx_take_string ctx
           in case fopen (include_path (sc_include_dir ctx1) file) of
                None \<Rightarrow> (ctx1, Inl err_bad_include)
              | Some fp \<Rightarrow>
                  (case scanctx_add_filename ctx1 file of
                     (ctx2, name) \<Rightarrow>
                       (ctx2\<lparr>sc_files := sc_files ctx2 @ [name], sc_buffers := sc_buffers ctx2 @ [buffer]\<rparr>, Inr fp)))"

definition scanctx_pop_include :: "'b scan_context \<Rightarrow> 'b scan_context \<times> 'b option" where
  "scanctx_pop_include ctx =
     (if sc_depth ctx = 0 then (ctx, None)
      else (ctx\<lparr>sc_files := butlast (sc_files ctx), sc_buffers := butlast (sc_buffers ctx)\<rparr>,
            Some (last (sc_buffers ctx))))"

definition scanctx_current_filename :: "'b scan_context \<Rightarrow> string option" where
  "scanctx_current_filename ctx = (if sc_depth ctx = 0 then sc_top ctx else Some (last (sc_files ctx)))"

section \<open>Facts\<close>

text \<open>The buffer holds its length and has room for the NUL.\<close>

definition strbuf_ok :: "strbuf \<Rightarrow> bool" where
  "strbuf_ok b \<longleftrightarrow>
     (case sb_string b of None \<Rightarrow> sb_length b = 0 \<and> sb_capacity b = 0
      | Some s \<Rightarrow> sb_length b = length s \<and> length s < sb_capacity b)"

definition contents :: "strbuf \<Rightarrow> string" where
  "contents b = (case sb_string b of None \<Rightarrow> [] | Some s \<Rightarrow> s)"

lemma round_block_ge: "n \<le> round_block n"
  using dividend_less_times_div [of 64 "n + 63"] by (simp add: round_block_def STRING_BLOCK_SIZE_def)

lemma strbuf_zero_ok [simp]: "strbuf_ok strbuf_zero" "contents strbuf_zero = []"
  by (simp_all add: strbuf_ok_def strbuf_zero_def contents_def)

lemma strbuf_append_ok:
  assumes "strbuf_ok b"
  shows "strbuf_ok (strbuf_append b t)" "contents (strbuf_append b t) = contents b @ t"
    "sb_string (strbuf_append b t) = Some (contents b @ t)"
  using assms round_block_ge [of "sb_length b + length t + 1"]
  by (auto simp: strbuf_ok_def strbuf_append_def Let_def contents_def split: option.splits)

lemma strbuf_appends:
  "strbuf_ok b \<Longrightarrow> strbuf_ok (foldl strbuf_append b ts) \<and> contents (foldl strbuf_append b ts) = contents b @ concat ts"
  by (induction ts arbitrary: b) (simp_all add: strbuf_append_ok)

text \<open>The stack of includes: as many buffers as files, at most the maximal depth, and all names recorded once.\<close>

definition scan_ok :: "'b scan_context \<Rightarrow> bool" where
  "scan_ok ctx \<longleftrightarrow> length (sc_buffers ctx) = length (sc_files ctx) \<and> sc_depth ctx \<le> MAX_INCLUDE_DEPTH
     \<and> distinct (sc_filenames ctx) \<and> set (sc_files ctx) \<subseteq> set (sc_filenames ctx)
     \<and> (case sc_top ctx of None \<Rightarrow> True | Some f \<Rightarrow> f \<in> set (sc_filenames ctx)) \<and> strbuf_ok (sc_string ctx)"

lemma scanctx_add_filename_ok:
  assumes "scan_ok ctx" "scanctx_add_filename ctx f = (ctx', g)"
  shows "scan_ok ctx'" "g = f" "f \<in> set (sc_filenames ctx')" "sc_files ctx' = sc_files ctx"
    "sc_buffers ctx' = sc_buffers ctx"
  using assms by (auto simp: scanctx_add_filename_def scan_ok_def sc_depth_def find_None_iff find_Some_iff
      split: option.splits)

lemma scanctx_push_include_ok:
  assumes "scan_ok ctx" "scanctx_push_include fo ctx b = (ctx', r)"
  shows "scan_ok ctx'"
proof (cases "sc_depth ctx = MAX_INCLUDE_DEPTH")
  case False
  have t: "scan_ok (fst (scanctx_take_string ctx))"
    using assms(1)
    by (simp add: scanctx_take_string_def strbuf_release_def scan_ok_def sc_depth_def split: option.splits)
  have d: "sc_files (fst (scanctx_take_string ctx)) = sc_files ctx"
    by (simp add: scanctx_take_string_def strbuf_release_def)
  show ?thesis
  proof (cases "fo (include_path (sc_include_dir (fst (scanctx_take_string ctx))) (snd (scanctx_take_string ctx)))")
    case None
    then show ?thesis
      using assms False t by (auto simp: scanctx_push_include_def Let_def split: prod.splits)
  next
    case (Some fp)
    obtain c2 g where a: "scanctx_add_filename (fst (scanctx_take_string ctx)) (snd (scanctx_take_string ctx)) = (c2, g)"
      by fastforce
    have "sc_depth ctx < MAX_INCLUDE_DEPTH" using False assms(1) by (simp add: scan_ok_def)
    then show ?thesis
      using assms False Some a scanctx_add_filename_ok [OF t a] d
      by (auto simp: scanctx_push_include_def Let_def scan_ok_def sc_depth_def split: prod.splits option.splits)
  qed
qed (use assms in \<open>auto simp: scanctx_push_include_def\<close>)

lemma scanctx_pop_include_ok: "scan_ok ctx \<Longrightarrow> scan_ok (fst (scanctx_pop_include ctx))"
  by (auto simp: scanctx_pop_include_def scan_ok_def sc_depth_def dest: in_set_butlastD split: option.splits)

lemma scanctx_push_pop:
  assumes "scanctx_push_include fo ctx b = (ctx', Inr fp)" "scan_ok ctx"
  shows "snd (scanctx_pop_include ctx') = Some b" "sc_files (fst (scanctx_pop_include ctx')) = sc_files ctx"
    "sc_buffers (fst (scanctx_pop_include ctx')) = sc_buffers ctx"
    "fp = the (fo (include_path (sc_include_dir ctx) (contents (sc_string ctx))))"
proof -
  note defs = scanctx_push_include_def scanctx_pop_include_def scanctx_take_string_def strbuf_release_def
    scanctx_add_filename_def contents_def sc_depth_def Let_def
  show "snd (scanctx_pop_include ctx') = Some b" "sc_files (fst (scanctx_pop_include ctx')) = sc_files ctx"
    "sc_buffers (fst (scanctx_pop_include ctx')) = sc_buffers ctx"
    "fp = the (fo (include_path (sc_include_dir ctx) (contents (sc_string ctx))))"
    using assms(1) by (auto simp: defs split: if_splits prod.splits option.splits)
qed

end
