(* ===== verification/Grammar.thy ===== *)
theory Grammar
  imports SettingCpp Scanctx
begin

text \<open>
  The parser of configuration files (\<open>lib/grammar.y\<close>, \<open>lib/grammar.c\<close>,
  \<open>lib/grammar.h\<close>, \<open>lib/parsectx.h\<close>): the tables and the driver loop of the
  generated LALR parser, with its stack that grows up to a limit, its error
  handling, and the semantic actions that build the setting tree.

  The scanner is a parameter: what a call of \<open>yylex\<close> delivers, and the line
  and the file it stands in.  A setting pointer is the list of indices from the
  root; \<open>None\<close> is NULL, and an access through NULL, or to a member of the
  value union that was not written, ends in \<open>Crash\<close>.
\<close>

section \<open>Tokens and values\<close>

definition TOK_BOOLEAN :: int where "TOK_BOOLEAN = 258"
definition TOK_INTEGER :: int where "TOK_INTEGER = 259"
definition TOK_HEX :: int where "TOK_HEX = 260"
definition TOK_INTEGER64 :: int where "TOK_INTEGER64 = 261"
definition TOK_HEX64 :: int where "TOK_HEX64 = 262"
definition TOK_FLOAT :: int where "TOK_FLOAT = 263"
definition TOK_STRING :: int where "TOK_STRING = 264"
definition TOK_NAME :: int where "TOK_NAME = 265"
definition TOK_EQUALS :: int where "TOK_EQUALS = 266"
definition TOK_NEWLINE :: int where "TOK_NEWLINE = 267"
definition TOK_ARRAY_START :: int where "TOK_ARRAY_START = 268"
definition TOK_ARRAY_END :: int where "TOK_ARRAY_END = 269"
definition TOK_LIST_START :: int where "TOK_LIST_START = 270"
definition TOK_LIST_END :: int where "TOK_LIST_END = 271"
definition TOK_COMMA :: int where "TOK_COMMA = 272"
definition TOK_GROUP_START :: int where "TOK_GROUP_START = 273"
definition TOK_GROUP_END :: int where "TOK_GROUP_END = 274"
definition TOK_SEMICOLON :: int where "TOK_SEMICOLON = 275"
definition TOK_GARBAGE :: int where "TOK_GARBAGE = 276"
definition TOK_ERROR :: int where "TOK_ERROR = 277"

datatype yystype = YUndef | YIval word32 | YLlval word64 | YFval cdouble | YSval string

text \<open>
  The result of \<open>yylex\<close>: the token code, what it stored in \<open>yylval\<close>, and the
  error text, file and line it stored in the configuration.
\<close>

record lexed =
  lx_token :: int
  lx_value :: "yystype option"
  lx_error :: "(string \<times> string option \<times> int) option"

record 'l lexer =
  yylex :: "'l \<Rightarrow> 'l \<times> lexed"
  yyget_lineno :: "'l \<Rightarrow> nat"
  lex_filename :: "'l \<Rightarrow> string option"      \<comment> \<open>\<open>scanctx_current_filename\<close>\<close>

section \<open>The tables\<close>

definition yytranslate :: "nat list" where
  "yytranslate =
     [0, 2, 2, 2, 2, 2, 2, 2, 2, 2, 2, 2, 2, 2, 2, 2,
      2, 2, 2, 2, 2, 2, 2, 2, 2, 2, 2, 2, 2, 2, 2, 2,
      2, 2, 2, 2, 2, 2, 2, 2, 2, 2, 2, 2, 2, 2, 2, 2,
      2, 2, 2, 2, 2, 2, 2, 2, 2, 2, 2, 2, 2, 2, 2, 2,
      2, 2, 2, 2, 2, 2, 2, 2, 2, 2, 2, 2, 2, 2, 2, 2,
      2, 2, 2, 2, 2, 2, 2, 2, 2, 2, 2, 2, 2, 2, 2, 2,
      2, 2, 2, 2, 2, 2, 2, 2, 2, 2, 2, 2, 2, 2, 2, 2,
      2, 2, 2, 2, 2, 2, 2, 2, 2, 2, 2, 2, 2, 2, 2, 2,
      2, 2, 2, 2, 2, 2, 2, 2, 2, 2, 2, 2, 2, 2, 2, 2,
      2, 2, 2, 2, 2, 2, 2, 2, 2, 2, 2, 2, 2, 2, 2, 2,
      2, 2, 2, 2, 2, 2, 2, 2, 2, 2, 2, 2, 2, 2, 2, 2,
      2, 2, 2, 2, 2, 2, 2, 2, 2, 2, 2, 2, 2, 2, 2, 2,
      2, 2, 2, 2, 2, 2, 2, 2, 2, 2, 2, 2, 2, 2, 2, 2,
      2, 2, 2, 2, 2, 2, 2, 2, 2, 2, 2, 2, 2, 2, 2, 2,
      2, 2, 2, 2, 2, 2, 2, 2, 2, 2, 2, 2, 2, 2, 2, 2,
      2, 2, 2, 2, 2, 2, 2, 2, 2, 2, 2, 2, 2, 2, 2, 2,
      1, 2, 3, 4, 5, 6, 7, 8, 9, 10, 11, 12, 13, 14, 15, 16,
      17, 18, 19, 20, 21, 22]"

definition yyr1 :: "nat list" where
  "yyr1 =
     [0, 23, 24, 24, 25, 25, 26, 26, 27, 27, 27, 29, 28, 31, 30, 33,
      32, 34, 34, 34, 34, 35, 35, 36, 36, 36, 36, 36, 36, 36, 37, 37,
      38, 38, 39, 39, 40, 40, 42, 41]"

definition yyr2 :: "nat list" where
  "yyr2 =
     [0, 2, 0, 1, 1, 2, 0, 1, 0, 1, 1, 0, 5, 0, 4, 0,
      4, 1, 1, 1, 1, 1, 2, 1, 1, 1, 1, 1, 1, 1, 1, 3,
      0, 1, 1, 3, 0, 1, 0, 4]"

definition yydefact :: "nat list" where
  "yydefact =
     [2, 11, 0, 3, 4, 0, 1, 5, 0, 23, 24, 26, 25, 27, 28, 21,
      13, 15, 38, 18, 19, 8, 29, 17, 20, 36, 32, 6, 10, 9, 12, 22,
      34, 37, 0, 30, 33, 0, 7, 0, 0, 14, 0, 16, 39, 35, 31]"

definition yydefgoto :: "int list" where
  "yydefgoto =
     [- 1, 2, 3, 39, 30, 4, 5, 19, 25, 20, 26, 21, 22, 23, 36, 37,
      33, 34, 24, 27]"

definition yypact :: "int list" where
  "yypact =
     [- 8, - 26, 12, - 8, - 26, 5, - 26, - 26, 0, - 26, - 26, - 26, - 26, - 26, - 26, - 26,
      - 26, - 26, - 26, - 26, - 26, - 6, 10, - 26, - 26, 23, 0, - 8, - 26, - 26, - 26, - 26,
      - 26, 3, 7, - 26, 6, 8, - 8, 14, 23, - 26, 0, - 26, - 26, - 26, - 26]"

definition yypgoto :: "int list" where
  "yypgoto =
     [- 26, - 26, - 5, - 26, - 26, - 3, - 26, - 26, - 26, - 26, - 26, - 25, - 26, - 15, - 26, - 26,
      - 26, - 26, - 26, - 26]"

definition yytable :: "nat list" where
  "yytable =
     [7, 35, 1, 9, 10, 11, 12, 13, 14, 15, 32, 28, 6, 16, 29, 17,
      8, 46, 18, 31, 40, 41, 38, 42, 43, 45, 9, 10, 11, 12, 13, 14,
      15, 44, 0, 7]"

definition yycheck :: "int list" where
  "yycheck =
     [3, 26, 10, 3, 4, 5, 6, 7, 8, 9, 25, 17, 0, 13, 20, 15,
      11, 42, 18, 9, 17, 14, 27, 17, 16, 40, 3, 4, 5, 6, 7, 8,
      9, 19, - 1, 38]"

definition YYPACT_NINF :: int where "YYPACT_NINF = - 26"
definition YYTABLE_NINF :: int where "YYTABLE_NINF = - 1"
definition YYFINAL :: nat where "YYFINAL = 6"
definition YYLAST :: int where "YYLAST = 35"
definition YYNTOKENS :: nat where "YYNTOKENS = 23"
definition YYMAXUTOK :: nat where "YYMAXUTOK = 277"
definition YYUNDEFTOK :: nat where "YYUNDEFTOK = 2"
definition YYEMPTY :: int where "YYEMPTY = - 2"
definition YYEOF :: int where "YYEOF = 0"
definition YYTERROR :: int where "YYTERROR = 1"
definition YYINITDEPTH :: nat where "YYINITDEPTH = 200"
definition YYMAXDEPTH :: nat where "YYMAXDEPTH = 10000"

definition YYTRANSLATE :: "int \<Rightarrow> nat" where
  "YYTRANSLATE c = (if 0 \<le> c \<and> nat c \<le> YYMAXUTOK then yytranslate ! nat c else YYUNDEFTOK)"

section \<open>The context of the parser\<close>

record parse_context =
  pc_config :: config
  pc_parent :: "nat list option"
  pc_setting :: "nat list option"
  pc_string :: strbuf

definition err_array_elem_type :: string where
  "err_array_elem_type = ''mismatched element type in array''"

definition err_duplicate_setting :: string where
  "err_duplicate_setting = ''duplicate setting name''"

text \<open>What a pointer points to.\<close>

definition deref :: "parse_context \<Rightarrow> nat list option \<Rightarrow> config_setting option" where
  "deref ctx ptr = (case ptr of None \<Rightarrow> None | Some ip \<Rightarrow> setting_at (root (pc_config ctx)) ip)"

definition store :: "nat list \<Rightarrow> config_setting \<Rightarrow> parse_context \<Rightarrow> parse_context" where
  "store ip s ctx = ctx\<lparr>pc_config := put_node ip s (pc_config ctx)\<rparr>"

definition parsectx_init :: "config \<Rightarrow> parse_context" where
  "parsectx_init cfg = \<lparr>pc_config = cfg, pc_parent = Some [], pc_setting = Some [], pc_string = strbuf_zero\<rparr>"

definition parsectx_append_string :: "string \<Rightarrow> parse_context \<Rightarrow> parse_context" where
  "parsectx_append_string s ctx = ctx\<lparr>pc_string := strbuf_append (pc_string ctx) s\<rparr>"

definition parsectx_take_string :: "parse_context \<Rightarrow> parse_context \<times> string option" where
  "parsectx_take_string ctx = (case strbuf_release (pc_string ctx) of (b, r) \<Rightarrow> (ctx\<lparr>pc_string := b\<rparr>, r))"

definition parent_has_type :: "ctype \<Rightarrow> parse_context \<Rightarrow> bool" where
  "parent_has_type t ctx \<longleftrightarrow> (case deref ctx (pc_parent ctx) of None \<Rightarrow> False | Some s \<Rightarrow> s_type s = t)"

definition in_array :: "parse_context \<Rightarrow> bool" where
  "in_array ctx \<longleftrightarrow> parent_has_type CONFIG_TYPE_ARRAY ctx"

definition in_list :: "parse_context \<Rightarrow> bool" where
  "in_list ctx \<longleftrightarrow> parent_has_type CONFIG_TYPE_LIST ctx"

definition capture_parse_pos :: "nat \<times> string option \<Rightarrow> nat list \<Rightarrow> parse_context \<Rightarrow> parse_context" where
  "capture_parse_pos pos ip ctx =
     store ip (set_source (fst pos) (snd pos) (node (pc_config ctx) ip)) ctx"

definition libconfig_yyerror :: "nat \<times> string option \<Rightarrow> string \<Rightarrow> parse_context \<Rightarrow> parse_context" where
  "libconfig_yyerror pos s ctx =
     (if error_text (pc_config ctx) \<noteq> None then ctx
      else ctx\<lparr>pc_config := (pc_config ctx)\<lparr>error_line := int (fst pos), error_text := Some s\<rparr>\<rparr>)"

section \<open>The semantic actions\<close>

text \<open>
  The result of an action: the context and whether the parser goes on
  (\<open>False\<close> is \<open>YYABORT\<close>), or \<open>None\<close>.
\<close>

type_synonym action = "(parse_context \<times> bool) option"

definition add_to_parent :: "string option \<Rightarrow> int \<Rightarrow> parse_context \<Rightarrow> (parse_context \<times> nat list option) option" where
  "add_to_parent nm typ ctx =
     (case pc_parent ctx of None \<Rightarrow> Some (ctx, None)
      | Some ip \<Rightarrow>
        (case setting_at (root (pc_config ctx)) ip of None \<Rightarrow> None
         | Some parent \<Rightarrow>
           (case config_setting_add (Some parent) nm typ of
              Some (Some parent', Some i) \<Rightarrow> Some (store ip parent' ctx, Some (ip @ [i]))
            | Some (_, _) \<Rightarrow> Some (ctx, None)
            | None \<Rightarrow> None)))"

definition add_setting :: "nat \<times> string option \<Rightarrow> yystype \<Rightarrow> parse_context \<Rightarrow> action" where
  "add_setting pos v ctx =
     (case v of
        YSval nm \<Rightarrow>
          (case add_to_parent (Some nm) 0 ctx of
             None \<Rightarrow> None
           | Some (ctx', r) \<Rightarrow>
               (let ctx2 = ctx'\<lparr>pc_setting := r\<rparr>
                in case r of
                     None \<Rightarrow> Some (libconfig_yyerror pos err_duplicate_setting ctx2, False)
                   | Some ip \<Rightarrow> Some (capture_parse_pos pos ip ctx2, True)))
      | _ \<Rightarrow> None)"

text \<open>The start of an array, a list or a group (codes 7, 8 and 1).\<close>

definition open_aggregate :: "nat \<times> string option \<Rightarrow> int \<Rightarrow> ctype \<Rightarrow> parse_context \<Rightarrow> action" where
  "open_aggregate pos tcode typ ctx =
     (if in_list ctx then
        (case add_to_parent None tcode ctx of
           Some (ctx', Some ip) \<Rightarrow> Some (capture_parse_pos pos ip (ctx'\<lparr>pc_parent := Some ip\<rparr>), True)
         | _ \<Rightarrow> None)
      else
        (case (pc_setting ctx, deref ctx (pc_setting ctx)) of
           (Some ip, Some s) \<Rightarrow>
             Some ((store ip (set_type typ s) ctx)\<lparr>pc_parent := Some ip, pc_setting := None\<rparr>, True)
         | _ \<Rightarrow> None))"

definition close_aggregate :: "parse_context \<Rightarrow> action" where
  "close_aggregate ctx =
     (case pc_parent ctx of
        None \<Rightarrow> Some (ctx, True)
      | Some [] \<Rightarrow> Some (ctx\<lparr>pc_parent := None\<rparr>, True)
      | Some ip \<Rightarrow> Some (ctx\<lparr>pc_parent := Some (butlast ip)\<rparr>, True))"

text \<open>
  A simple value: appended to the array or the list (\<open>set_elem\<close> is called with
  index -1), or set in the current setting; integers also get their format.
\<close>

definition with_format :: "int option \<Rightarrow> config_setting \<Rightarrow> config_setting" where
  "with_format fmt s = (case fmt of None \<Rightarrow> s | Some f \<Rightarrow> fst (config_setting_set_format s f))"

definition put_scalar :: "nat \<times> string option \<Rightarrow> (config_setting \<Rightarrow> config_setting \<times> nat option) \<Rightarrow>
    (config_setting \<Rightarrow> config_setting \<times> bool) \<Rightarrow> int option \<Rightarrow> parse_context \<Rightarrow> action" where
  "put_scalar pos set_elem set_plain fmt ctx =
     (if in_array ctx \<or> in_list ctx then
        (case (pc_parent ctx, deref ctx (pc_parent ctx)) of
           (Some ip, Some parent) \<Rightarrow>
             (case set_elem parent of
                (parent', None) \<Rightarrow> Some (libconfig_yyerror pos err_array_elem_type (store ip parent' ctx), False)
              | (parent', Some i) \<Rightarrow>
                  (let ctx1 = store ip parent' ctx; e = ip @ [i]
                   in Some (capture_parse_pos pos e
                              (store e (with_format fmt (node (pc_config ctx1) e)) ctx1), True)))
         | _ \<Rightarrow> None)
      else
        (case (pc_setting ctx, deref ctx (pc_setting ctx)) of
           (Some ip, Some s) \<Rightarrow> Some (store ip (with_format fmt (fst (set_plain s))) ctx, True)
         | _ \<Rightarrow> None))"

definition minus_one :: word32 where
  "minus_one = - 1"

definition bool_value :: "nat \<times> string option \<Rightarrow> yystype \<Rightarrow> parse_context \<Rightarrow> action" where
  "bool_value pos v ctx =
     (case v of YIval i \<Rightarrow>
        put_scalar pos (\<lambda>p. config_setting_set_bool_elem p minus_one i) (\<lambda>s. config_setting_set_bool s i) None ctx
      | _ \<Rightarrow> None)"

definition int_value :: "int \<Rightarrow> nat \<times> string option \<Rightarrow> yystype \<Rightarrow> parse_context \<Rightarrow> action" where
  "int_value fmt pos v ctx =
     (case v of YIval i \<Rightarrow>
        put_scalar pos (\<lambda>p. config_setting_set_int_elem (pc_config ctx) p minus_one i)
          (\<lambda>s. config_setting_set_int (pc_config ctx) s i) (Some fmt) ctx
      | _ \<Rightarrow> None)"

definition int64_value :: "int \<Rightarrow> nat \<times> string option \<Rightarrow> yystype \<Rightarrow> parse_context \<Rightarrow> action" where
  "int64_value fmt pos v ctx =
     (case v of YLlval i \<Rightarrow>
        put_scalar pos (\<lambda>p. config_setting_set_int64_elem (pc_config ctx) p minus_one i)
          (\<lambda>s. config_setting_set_int64 (pc_config ctx) s i) (Some fmt) ctx
      | _ \<Rightarrow> None)"

definition float_value :: "nat \<times> string option \<Rightarrow> yystype \<Rightarrow> parse_context \<Rightarrow> action" where
  "float_value pos v ctx =
     (case v of YFval d \<Rightarrow>
        put_scalar pos (\<lambda>p. config_setting_set_float_elem (pc_config ctx) p minus_one d)
          (\<lambda>s. config_setting_set_float (pc_config ctx) s d) None ctx
      | _ \<Rightarrow> None)"

definition string_action :: "nat \<times> string option \<Rightarrow> parse_context \<Rightarrow> action" where
  "string_action pos ctx =
     (case parsectx_take_string ctx of
        (ctx', s) \<Rightarrow>
          put_scalar pos (\<lambda>p. config_setting_set_string_elem p minus_one s)
            (\<lambda>t. config_setting_set_string t s) None ctx')"

definition append_action :: "yystype \<Rightarrow> parse_context \<Rightarrow> action" where
  "append_action v ctx = (case v of YSval s \<Rightarrow> Some (parsectx_append_string s ctx, True) | _ \<Rightarrow> None)"

text \<open>The action of a rule; \<open>v\<close> is the value on top of the stack, the last one of the right-hand side.\<close>

definition rule_action :: "nat \<times> string option \<Rightarrow> nat \<Rightarrow> yystype \<Rightarrow> parse_context \<Rightarrow> action" where
  "rule_action pos r v ctx =
     (if r = 11 then add_setting pos v ctx
      else if r = 13 then open_aggregate pos 7 CONFIG_TYPE_ARRAY ctx
      else if r = 14 then close_aggregate ctx
      else if r = 15 then open_aggregate pos 8 CONFIG_TYPE_LIST ctx
      else if r = 16 then close_aggregate ctx
      else if r = 21 \<or> r = 22 then append_action v ctx
      else if r = 23 then bool_value pos v ctx
      else if r = 24 then int_value CONFIG_FORMAT_DEFAULT pos v ctx
      else if r = 25 then int64_value CONFIG_FORMAT_DEFAULT pos v ctx
      else if r = 26 then int_value CONFIG_FORMAT_HEX pos v ctx
      else if r = 27 then int64_value CONFIG_FORMAT_HEX pos v ctx
      else if r = 28 then float_value pos v ctx
      else if r = 29 then string_action pos ctx
      else if r = 38 then open_aggregate pos 1 CONFIG_TYPE_GROUP ctx
      else if r = 39 then close_aggregate ctx
      else Some (ctx, True))"

section \<open>The driver\<close>

record 'l parser =
  ps_lex :: 'l
  ps_char :: int
  ps_lval :: yystype
  ps_stack :: "(nat \<times> yystype) list"      \<comment> \<open>states and values, the top first\<close>
  ps_size :: nat                            \<comment> \<open>\<open>yystacksize\<close>\<close>
  ps_errstatus :: nat
  ps_ctx :: parse_context

datatype 'l outcome = Run "'l parser" | Stop nat "'l parser" | Crash

definition ps_pos :: "'l lexer \<Rightarrow> 'l parser \<Rightarrow> nat \<times> string option" where
  "ps_pos lx p = (yyget_lineno lx (ps_lex p), lex_filename lx (ps_lex p))"

definition ps_error :: "'l lexer \<Rightarrow> string \<Rightarrow> 'l parser \<Rightarrow> 'l parser" where
  "ps_error lx s p = p\<lparr>ps_ctx := libconfig_yyerror (ps_pos lx p) s (ps_ctx p)\<rparr>"

definition yynewstate :: "'l lexer \<Rightarrow> nat \<Rightarrow> yystype \<Rightarrow> 'l parser \<Rightarrow> 'l outcome" where
  "yynewstate lx s v p =
     (let p1 = p\<lparr>ps_stack := (s, v) # ps_stack p\<rparr>
      in if ps_size p1 \<le> length (ps_stack p1) then
           (if YYMAXDEPTH \<le> ps_size p1 then Stop 2 (ps_error lx ''memory exhausted'' p1)
            else let p2 = p1\<lparr>ps_size := min (ps_size p1 * 2) YYMAXDEPTH\<rparr>
                 in if ps_size p2 \<le> length (ps_stack p2) then Stop 1 p2
                    else if s = YYFINAL then Stop 0 p2 else Run p2)
         else if s = YYFINAL then Stop 0 p1 else Run p1)"

definition read_token :: "'l lexer \<Rightarrow> 'l parser \<Rightarrow> 'l parser" where
  "read_token lx p =
     (let q = (if ps_char p = YYEMPTY
               then (case yylex lx (ps_lex p) of
                  (l', r) \<Rightarrow>
                    p\<lparr>ps_lex := l', ps_char := lx_token r,
                      ps_lval := (case lx_value r of None \<Rightarrow> ps_lval p | Some v \<Rightarrow> v),
                      ps_ctx := (case lx_error r of
                          None \<Rightarrow> ps_ctx p
                        | Some (t, f, n) \<Rightarrow>
                            (ps_ctx p)\<lparr>pc_config := (pc_config (ps_ctx p))\<lparr>error_text := Some t, error_file := f,
                               error_line := n\<rparr>\<rparr>)\<rparr>)
               else p)
      in if ps_char q \<le> YYEOF then q\<lparr>ps_char := YYEOF\<rparr> else q)"

definition goto_state :: "nat \<Rightarrow> nat \<Rightarrow> nat" where
  "goto_state r s =
     (let n = yyr1 ! r - YYNTOKENS; i = yypgoto ! n + int s
      in if 0 \<le> i \<and> i \<le> YYLAST \<and> yycheck ! nat i = int s then yytable ! nat i
         else nat (yydefgoto ! n))"

definition yyreduce :: "'l lexer \<Rightarrow> nat \<Rightarrow> 'l parser \<Rightarrow> 'l outcome" where
  "yyreduce lx r p =
     (let len = yyr2 ! r;
          yyval = (if len = 0 then YUndef else snd (ps_stack p ! (len - 1)))
      in case rule_action (ps_pos lx p) r (snd (hd (ps_stack p))) (ps_ctx p) of
           None \<Rightarrow> Crash
         | Some (ctx, go) \<Rightarrow>
             (let p1 = p\<lparr>ps_ctx := ctx\<rparr>
              in if \<not> go then Stop 1 p1
                 else (case drop len (ps_stack p) of
                     [] \<Rightarrow> Crash
                   | (s, v) # st \<Rightarrow> yynewstate lx (goto_state r s) yyval (p1\<lparr>ps_stack := (s, v) # st\<rparr>))))"

text \<open>The error token is looked for down the stack.\<close>

fun error_pop :: "(nat \<times> yystype) list \<Rightarrow> (nat \<times> (nat \<times> yystype) list) option" where
  "error_pop [] = None"
| "error_pop ((s, v) # st) =
     (let n = yypact ! s; i = n + YYTERROR
      in if n \<noteq> YYPACT_NINF \<and> 0 \<le> i \<and> i \<le> YYLAST \<and> yycheck ! nat i = YYTERROR \<and> 0 < yytable ! nat i
         then Some (yytable ! nat i, (s, v) # st)
         else error_pop st)"

definition yyerrlab1 :: "'l lexer \<Rightarrow> 'l parser \<Rightarrow> 'l outcome" where
  "yyerrlab1 lx p =
     (let p1 = p\<lparr>ps_errstatus := 3\<rparr>
      in case error_pop (ps_stack p1) of
           None \<Rightarrow> Stop 1 p1
         | Some (s, st) \<Rightarrow> yynewstate lx s (ps_lval p1) (p1\<lparr>ps_stack := st\<rparr>))"

definition yyerrlab :: "'l lexer \<Rightarrow> 'l parser \<Rightarrow> 'l outcome" where
  "yyerrlab lx p =
     (let p1 = (if ps_errstatus p = 0 then ps_error lx ''syntax error'' p else p)
      in if ps_errstatus p1 = 3 then
           (if ps_char p1 \<le> YYEOF then (if ps_char p1 = YYEOF then Stop 1 p1 else yyerrlab1 lx p1)
            else yyerrlab1 lx (p1\<lparr>ps_char := YYEMPTY\<rparr>))
         else yyerrlab1 lx p1)"

definition yydefault :: "'l lexer \<Rightarrow> 'l parser \<Rightarrow> 'l outcome" where
  "yydefault lx p =
     (let r = yydefact ! fst (hd (ps_stack p)) in if r = 0 then yyerrlab lx p else yyreduce lx r p)"

text \<open>From \<open>yybackup\<close> to the next state pushed.\<close>

definition yystep :: "'l lexer \<Rightarrow> 'l parser \<Rightarrow> 'l outcome" where
  "yystep lx p =
     (let n = yypact ! fst (hd (ps_stack p))
      in if n = YYPACT_NINF then yydefault lx p
         else let p1 = read_token lx p; tok = YYTRANSLATE (ps_char p1); i = n + int tok
              in if i < 0 \<or> YYLAST < i \<or> yycheck ! nat i \<noteq> int tok then yydefault lx p1
                 else let m = int (yytable ! nat i)
                      in if m \<le> 0
                         then (if m = 0 \<or> m = YYTABLE_NINF then yyerrlab lx p1 else yyreduce lx (nat (- m)) p1)
                         else yynewstate lx (nat m) (ps_lval p1)
                                (p1\<lparr>ps_errstatus := ps_errstatus p1 - 1, ps_char := YYEMPTY\<rparr>))"

fun yyrun :: "'l lexer \<Rightarrow> nat \<Rightarrow> 'l outcome \<Rightarrow> 'l outcome" where
  "yyrun lx 0 o1 = o1"
| "yyrun lx (Suc n) (Run p) = yyrun lx n (yystep lx p)"
| "yyrun lx (Suc n) (Stop r p) = Stop r p"
| "yyrun lx (Suc n) Crash = Crash"

definition yyinit :: "'l \<Rightarrow> parse_context \<Rightarrow> 'l parser" where
  "yyinit l ctx = \<lparr>ps_lex = l, ps_char = YYEMPTY, ps_lval = YUndef, ps_stack = [(0, YUndef)],
     ps_size = YYINITDEPTH, ps_errstatus = 0, ps_ctx = ctx\<rparr>"

text \<open>\<open>yyparse\<close> within a number of steps: the result, the scanner and the context, or none yet.\<close>

definition yyparse :: "'l lexer \<Rightarrow> nat \<Rightarrow> 'l \<Rightarrow> parse_context \<Rightarrow> 'l outcome" where
  "yyparse lx fuel l ctx = yyrun lx fuel (Run (yyinit l ctx))"

end
