(* ===== verification/Pushdown.thy ===== *)
theory Pushdown
  imports Grammar
begin

text \<open>
  A reference for the parser: a pushdown automaton that consumes one token at a
  time, with a mode that says what may come next and the stack of open
  brackets, and that calls the actions of the grammar.  The table-driven driver
  of \<open>grammar.c\<close> refines it: each token takes the driver at most a fixed number
  of steps and leads to the corresponding stack, or to the same result.
\<close>

section \<open>The reference\<close>

datatype bracket = B_array | B_list | B_group

datatype pmode = Settings | Equals | Value | First | After | Str

text \<open>\<open>Deep\<close> stands for a bracket nested deeper than \<open>MAX_NEST\<close>; up to there the driver's stack suffices.\<close>

datatype pstate = Go pmode "bracket list" parse_context | Ret nat parse_context | Undef | Deep

definition MAX_NEST :: nat where
  "MAX_NEST = 1600"

definition act_then :: "action \<Rightarrow> (parse_context \<Rightarrow> pstate) \<Rightarrow> pstate" where
  "act_then a k = (case a of None \<Rightarrow> Undef | Some (ctx, go) \<Rightarrow> if go then k ctx else Ret 1 ctx)"

definition syntax_error :: "nat \<times> string option \<Rightarrow> parse_context \<Rightarrow> pstate" where
  "syntax_error pos ctx = Ret 1 (libconfig_yyerror pos ''syntax error'' ctx)"

definition close_bracket :: "bracket list \<Rightarrow> parse_context \<Rightarrow> pstate" where
  "close_bracket bs ctx = act_then (close_aggregate ctx) (Go After (tl bs))"

fun innermost :: "bracket list \<Rightarrow> bracket" where
  "innermost [] = B_group"
| "innermost (b # bs) = b"

definition settings_token :: "nat \<times> string option \<Rightarrow> nat \<Rightarrow> yystype \<Rightarrow> bracket list \<Rightarrow> parse_context \<Rightarrow> pstate" where
  "settings_token pos tok v bs ctx =
     (if tok = 10 then act_then (add_setting pos v ctx) (Go Equals bs)
      else if tok = 0 \<and> bs = [] then Ret 0 ctx
      else if tok = 19 \<and> bs \<noteq> [] \<and> innermost bs = B_group then close_bracket bs ctx
      else syntax_error pos ctx)"

definition scalar_action :: "nat \<times> string option \<Rightarrow> nat \<Rightarrow> yystype \<Rightarrow> parse_context \<Rightarrow> action" where
  "scalar_action pos tok v ctx =
     (if tok = 3 then bool_value pos v ctx
      else if tok = 4 then int_value CONFIG_FORMAT_DEFAULT pos v ctx
      else if tok = 5 then int_value CONFIG_FORMAT_HEX pos v ctx
      else if tok = 6 then int64_value CONFIG_FORMAT_DEFAULT pos v ctx
      else if tok = 7 then int64_value CONFIG_FORMAT_HEX pos v ctx
      else float_value pos v ctx)"

definition open_bracket :: "bracket \<Rightarrow> int \<Rightarrow> ctype \<Rightarrow> pmode \<Rightarrow> nat \<times> string option \<Rightarrow> bracket list \<Rightarrow>
    parse_context \<Rightarrow> pstate" where
  "open_bracket b tcode typ m pos bs ctx =
     (if length bs = MAX_NEST then Deep
      else act_then (open_aggregate pos tcode typ ctx) (Go m (b # bs)))"

definition value_token :: "nat \<times> string option \<Rightarrow> nat \<Rightarrow> yystype \<Rightarrow> bracket list \<Rightarrow> parse_context \<Rightarrow> pstate" where
  "value_token pos tok v bs ctx =
     (if 3 \<le> tok \<and> tok \<le> 8 then act_then (scalar_action pos tok v ctx) (Go After bs)
      else if tok = 9 then act_then (append_action v ctx) (Go Str bs)
      else if innermost bs = B_array then syntax_error pos ctx
      else if tok = 13 then open_bracket B_array 7 CONFIG_TYPE_ARRAY First pos bs ctx
      else if tok = 15 then open_bracket B_list 8 CONFIG_TYPE_LIST First pos bs ctx
      else if tok = 18 then open_bracket B_group 1 CONFIG_TYPE_GROUP Settings pos bs ctx
      else syntax_error pos ctx)"

definition closer :: "bracket \<Rightarrow> nat" where
  "closer b = (case b of B_array \<Rightarrow> 14 | B_list \<Rightarrow> 16 | B_group \<Rightarrow> 19)"

definition after_token :: "nat \<times> string option \<Rightarrow> nat \<Rightarrow> yystype \<Rightarrow> bracket list \<Rightarrow> parse_context \<Rightarrow> pstate" where
  "after_token pos tok v bs ctx =
     (if innermost bs = B_group then
        (if tok = 17 \<or> tok = 20 then Go Settings bs ctx else settings_token pos tok v bs ctx)
      else if tok = 17 then Go Value bs ctx
      else if tok = closer (innermost bs) then close_bracket bs ctx
      else syntax_error pos ctx)"

definition token_step :: "nat \<times> string option \<Rightarrow> nat \<Rightarrow> yystype \<Rightarrow> pmode \<Rightarrow> bracket list \<Rightarrow> parse_context \<Rightarrow> pstate" where
  "token_step pos tok v m bs ctx =
     (case m of
        Settings \<Rightarrow> settings_token pos tok v bs ctx
      | Equals \<Rightarrow> if tok = 11 then Go Value bs ctx else syntax_error pos ctx
      | Value \<Rightarrow> value_token pos tok v bs ctx
      | First \<Rightarrow> if tok = closer (innermost bs) then close_bracket bs ctx else value_token pos tok v bs ctx
      | After \<Rightarrow> after_token pos tok v bs ctx
      | Str \<Rightarrow> if tok = 9 then act_then (append_action v ctx) (Go Str bs)
               else act_then (string_action pos ctx) (after_token pos tok v bs))"

text \<open>The parse within a number of tokens.\<close>

definition lex_token :: "lexed \<Rightarrow> nat" where
  "lex_token x = YYTRANSLATE (if lx_token x \<le> YYEOF then YYEOF else lx_token x)"

definition lex_errors :: "lexed \<Rightarrow> parse_context \<Rightarrow> parse_context" where
  "lex_errors x ctx =
     (case lx_error x of None \<Rightarrow> ctx
      | Some (t, f, n) \<Rightarrow>
          ctx\<lparr>pc_config := (pc_config ctx)\<lparr>error_text := Some t, error_file := f, error_line := n\<rparr>\<rparr>)"

fun ref_parse :: "'l lexer \<Rightarrow> nat \<Rightarrow> 'l \<Rightarrow> yystype \<Rightarrow> pstate \<Rightarrow> 'l \<times> pstate" where
  "ref_parse lx (Suc n) l v (Go m bs ctx) =
     (case yylex lx l of
        (l', x) \<Rightarrow>
          (let v' = (case lx_value x of None \<Rightarrow> v | Some w \<Rightarrow> w)
           in ref_parse lx n l' v'
                (token_step (yyget_lineno lx l', lex_filename lx l') (lex_token x) v' m bs (lex_errors x ctx))))"
| "ref_parse lx n l v st = (l, st)"

section \<open>The tables, read\<close>

datatype lr_action = LShift nat | LReduce nat | LError

definition lr :: "nat \<Rightarrow> nat \<Rightarrow> lr_action" where
  "lr s tok =
     (let i = yypact ! s + int tok
      in if i < 0 \<or> YYLAST < i \<or> yycheck ! nat i \<noteq> int tok
         then (if yydefact ! s = 0 then LError else LReduce (yydefact ! s))
         else if yytable ! nat i = 0 then LError else LShift (yytable ! nat i))"

lemmas tables = yypact_def yydefact_def yytable_def yycheck_def yyr1_def yyr2_def yydefgoto_def yypgoto_def
  YYPACT_NINF_def YYLAST_def YYNTOKENS_def

lemma tok_all: "(\<And>tok. tok \<in> set [0..<23] \<Longrightarrow> Q tok) \<Longrightarrow> tok < 23 \<Longrightarrow> Q tok"
  by simp

definition value_shift :: "nat \<Rightarrow> lr_action \<Rightarrow> lr_action" where
  "value_shift tok d = (if 3 \<le> tok \<and> tok \<le> 9 then LShift (tok + 6) else d)"

definition opener_shift :: "nat \<Rightarrow> lr_action \<Rightarrow> lr_action" where
  "opener_shift tok d = (if tok = 13 then LShift 16 else if tok = 15 then LShift 17 else if tok = 18 then LShift 18 else d)"

lemma lr_table:
  "list_all (\<lambda>tok.
      lr 0 tok = (if tok = 10 then LShift 1 else LReduce 2)
    \<and> lr 2 tok = (if tok = 0 then LShift 6 else LError)
    \<and> lr 3 tok = (if tok = 10 then LShift 1 else LReduce 3)
    \<and> lr 5 tok = (if tok = 11 then LShift 8 else LError)
    \<and> lr 8 tok = value_shift tok (opener_shift tok LError)
    \<and> lr 21 tok = (if tok = 17 then LShift 28 else if tok = 20 then LShift 29 else LReduce 8)
    \<and> lr 22 tok = (if tok = 9 then LShift 31 else LReduce 29)
    \<and> lr 25 tok = value_shift tok (LReduce 36)
    \<and> lr 26 tok = value_shift tok (opener_shift tok (LReduce 32))
    \<and> lr 27 tok = (if tok = 10 then LShift 1 else LReduce 6)
    \<and> lr 33 tok = (if tok = 17 then LShift 40 else LReduce 37)
    \<and> lr 34 tok = (if tok = 14 then LShift 41 else LError)
    \<and> lr 36 tok = (if tok = 17 then LShift 42 else LReduce 33)
    \<and> lr 37 tok = (if tok = 16 then LShift 43 else LError)
    \<and> lr 38 tok = (if tok = 10 then LShift 1 else LReduce 7)
    \<and> lr 39 tok = (if tok = 19 then LShift 44 else LError)
    \<and> lr 40 tok = value_shift tok LError
    \<and> lr 42 tok = value_shift tok (opener_shift tok LError)) [0..<23]"
  by code_simp

definition reading :: "nat list" where
  "reading = [0, 2, 3, 5, 8, 21, 22, 25, 26, 27, 33, 34, 36, 37, 38, 39, 40, 42]"

lemma reading_pact: "list_all (\<lambda>s. yypact ! s \<noteq> YYPACT_NINF) reading"
  by code_simp

text \<open>The states that reduce without a look at the next token, and the rules they reduce by.\<close>

definition reducing :: "(nat \<times> nat) list" where
  "reducing = [(1, 11), (4, 4), (7, 5), (9, 23), (10, 24), (11, 26), (12, 25), (13, 27), (14, 28), (15, 21), (16, 13),
     (17, 15), (18, 38), (19, 18), (20, 19), (23, 17), (24, 20), (28, 10), (29, 9), (30, 12), (31, 22), (32, 34),
     (35, 30), (41, 14), (43, 16), (44, 39), (45, 35), (46, 31)]"

lemma reducing_table: "list_all (\<lambda>(s, r). yypact ! s = YYPACT_NINF \<and> yydefact ! s = r) reducing"
  by code_simp

lemma gotos:
  "list_all (\<lambda>s. list_all (\<lambda>r. goto_state r s = 23) [23..<30] \<and> goto_state 18 s = goto_state 17 s
     \<and> goto_state 19 s = goto_state 17 s \<and> goto_state 20 s = goto_state 17 s \<and> goto_state 14 s = 19
     \<and> goto_state 16 s = 20 \<and> goto_state 39 s = 24) [8, 26, 42]"
  "list_all (\<lambda>s. list_all (\<lambda>r. goto_state r s = (if s = 25 then 32 else 45)) [23..<30]) [25, 40]"
  "goto_state 17 8 = 21" "goto_state 17 26 = 35" "goto_state 17 42 = 46" "goto_state 30 26 = 36" "goto_state 31 26 = 36"
  "goto_state 34 25 = 33" "goto_state 35 25 = 33" "goto_state 36 25 = 34" "goto_state 37 25 = 34" "goto_state 32 26 = 37"
  "goto_state 33 26 = 37" "goto_state 13 16 = 25" "goto_state 15 17 = 26" "goto_state 38 18 = 27" "goto_state 11 1 = 5"
  "goto_state 2 0 = 2" "goto_state 3 0 = 2" "goto_state 6 27 = 39" "goto_state 7 27 = 39" "goto_state 8 21 = 30"
  "goto_state 9 21 = 30" "goto_state 10 21 = 30" "goto_state 12 0 = 4" "goto_state 12 3 = 7" "goto_state 12 27 = 4"
  "goto_state 12 38 = 7" "goto_state 4 0 = 3" "goto_state 5 0 = 3" "goto_state 4 27 = 38" "goto_state 5 27 = 38"
  "list_all (\<lambda>s. goto_state 21 s = 22 \<and> goto_state 22 s = 22) [8, 25, 26, 40, 42]"
  by code_simp+

lemma token_range: "YYTRANSLATE c < 23"
proof -
  have a: "list_all (\<lambda>t. t < 23) yytranslate" by code_simp
  have b: "length yytranslate = Suc YYMAXUTOK" by code_simp
  show ?thesis
    using a b by (auto simp: YYTRANSLATE_def list_all_length YYUNDEFTOK_def)
qed

lemma no_error_token: "error_pop st = None"
proof -
  have a: "list_all (\<lambda>c. c \<noteq> YYTERROR) yycheck" "length yycheck = 36" by code_simp+
  then have "0 \<le> i \<Longrightarrow> i \<le> YYLAST \<Longrightarrow> yycheck ! nat i \<noteq> YYTERROR" for i
    by (simp add: list_all_length YYLAST_def nat_less_iff)
  then show ?thesis by (induction st rule: error_pop.induct) (auto simp: Let_def)
qed

section \<open>Steps of the driver\<close>

definition At :: "'l \<Rightarrow> int \<Rightarrow> yystype \<Rightarrow> nat list \<Rightarrow> parse_context \<Rightarrow> 'l parser \<Rightarrow> bool" where
  "At l c v ss ctx p \<longleftrightarrow> ps_lex p = l \<and> ps_char p = c \<and> ps_lval p = v \<and> map fst (ps_stack p) = ss
     \<and> ps_ctx p = ctx \<and> ps_errstatus p = 0 \<and> 200 \<le> ps_size p \<and> ps_size p \<le> YYMAXDEPTH \<and> length ss < ps_size p"

definition room :: "nat list \<Rightarrow> bool" where
  "room ss \<longleftrightarrow> length ss < 9990"

text \<open>Stacks that can stand below a value, and below a setting.\<close>

inductive settings_stack :: "bracket list \<Rightarrow> nat list \<Rightarrow> bool"
  and value_stack :: "bracket list \<Rightarrow> nat list \<Rightarrow> bool" where
  bottom_empty: "settings_stack [] [0]"
| bottom: "settings_stack [] [3, 0]"
| group_empty: "value_stack bs (s # ss) \<Longrightarrow> innermost bs \<noteq> B_array \<Longrightarrow> settings_stack (B_group # bs) (27 # 18 # s # ss)"
| group: "value_stack bs (s # ss) \<Longrightarrow> innermost bs \<noteq> B_array \<Longrightarrow> settings_stack (B_group # bs) (38 # 27 # 18 # s # ss)"
| setting: "settings_stack bs ss \<Longrightarrow> value_stack bs (8 # 5 # 1 # ss)"
| list_first: "value_stack bs (s # ss) \<Longrightarrow> innermost bs \<noteq> B_array \<Longrightarrow> value_stack (B_list # bs) (26 # 17 # s # ss)"
| list_next: "value_stack bs (s # ss) \<Longrightarrow> innermost bs \<noteq> B_array \<Longrightarrow> value_stack (B_list # bs) (42 # 36 # 26 # 17 # s # ss)"
| array_first: "value_stack bs (s # ss) \<Longrightarrow> innermost bs \<noteq> B_array \<Longrightarrow> value_stack (B_array # bs) (25 # 16 # s # ss)"
| array_next: "value_stack bs (s # ss) \<Longrightarrow> innermost bs \<noteq> B_array \<Longrightarrow> value_stack (B_array # bs) (40 # 33 # 25 # 16 # s # ss)"

lemma stack_length:
  "settings_stack bs ss \<Longrightarrow> length ss \<le> 6 * length bs + 2"
  "value_stack bs ss \<Longrightarrow> length ss \<le> 6 * length bs + 5"
  by (induction rule: settings_stack_value_stack.inducts) auto

lemma settings_bs: "settings_stack bs ss \<Longrightarrow> innermost bs = B_group"
  by (cases rule: settings_stack.cases) auto

text \<open>The stack after a complete value, and for each mode.\<close>

definition after_stack :: "bracket list \<Rightarrow> nat list \<Rightarrow> bool" where
  "after_stack bs ss \<longleftrightarrow>
     (case innermost bs of
        B_group \<Rightarrow> \<exists>t. ss = 21 # 8 # 5 # 1 # t \<and> settings_stack bs t
      | B_list \<Rightarrow> \<exists>r s t. bs = B_list # r \<and> ss = 36 # 26 # 17 # s # t \<and> value_stack r (s # t) \<and> innermost r \<noteq> B_array
      | B_array \<Rightarrow> \<exists>r s t. bs = B_array # r \<and> ss = 33 # 25 # 16 # s # t \<and> value_stack r (s # t) \<and> innermost r \<noteq> B_array)"

definition mode_stack :: "pmode \<Rightarrow> bracket list \<Rightarrow> nat list \<Rightarrow> bool" where
  "mode_stack m bs ss \<longleftrightarrow>
     length bs \<le> MAX_NEST \<and>
     (case m of
        Settings \<Rightarrow> settings_stack bs ss
      | Equals \<Rightarrow> \<exists>t. ss = 5 # 1 # t \<and> settings_stack bs t
      | Value \<Rightarrow> value_stack bs ss \<and> hd ss \<in> {8, 40, 42}
      | First \<Rightarrow> value_stack bs ss \<and> hd ss \<in> {25, 26}
      | After \<Rightarrow> after_stack bs ss
      | Str \<Rightarrow> \<exists>t. ss = 22 # t \<and> value_stack bs t)"

text \<open>An outcome that matches a state of the reference, and an outcome that leads to such a one.\<close>

definition matches :: "'l \<Rightarrow> yystype \<Rightarrow> 'l outcome \<Rightarrow> pstate \<Rightarrow> bool" where
  "matches l v o1 r \<longleftrightarrow>
     (case r of
        Go m bs ctx \<Rightarrow> \<exists>p ss. o1 = Run p \<and> At l YYEMPTY v ss ctx p \<and> mode_stack m bs ss
      | Ret n ctx \<Rightarrow> \<exists>p. o1 = Stop n p \<and> ps_lex p = l \<and> ps_ctx p = ctx
      | Undef \<Rightarrow> o1 = Crash
      | Deep \<Rightarrow> True)"

definition leads :: "'l lexer \<Rightarrow> nat \<Rightarrow> 'l \<Rightarrow> yystype \<Rightarrow> 'l outcome \<Rightarrow> pstate \<Rightarrow> bool" where
  "leads lx k l v o1 r \<longleftrightarrow> (\<exists>j\<le>k. matches l v (yyrun lx j o1) r)"

lemma leads_now: "matches l v o1 r \<Longrightarrow> leads lx k l v o1 r"
  by (auto simp: leads_def intro: exI [of _ 0])

lemma leads_step: "leads lx k l v (yystep lx p) r \<Longrightarrow> leads lx (Suc k) l v (Run p) r"
  unfolding leads_def by (metis Suc_le_mono yyrun.simps(2))

lemma leads_mono: "leads lx k l v o1 r \<Longrightarrow> k \<le> k' \<Longrightarrow> leads lx k' l v o1 r"
  by (auto simp: leads_def intro: order_trans)

lemma push_at:
  assumes "At l c v ss ctx p" "length ss < 9998" "s \<noteq> YYFINAL"
  shows "\<exists>q. yynewstate lx s w p = Run q \<and> At l c v (s # ss) ctx q"
proof -
  have n: "length (ps_stack p) = length ss" using assms(1) by (auto simp: At_def)
  define sz where "sz = (if ps_size p \<le> Suc (length ss) then min (ps_size p * 2) YYMAXDEPTH else ps_size p)"
  have sz: "Suc (length ss) < sz" "200 \<le> sz" "sz \<le> YYMAXDEPTH" "ps_size p \<le> Suc (length ss) \<Longrightarrow> ps_size p < YYMAXDEPTH"
    using assms(1,2) by (auto simp: sz_def At_def YYMAXDEPTH_def min_def)
  have "yynewstate lx s w p = Run (p\<lparr>ps_stack := (s, w) # ps_stack p, ps_size := sz\<rparr>)"
    using sz assms(3) n by (auto simp: yynewstate_def Let_def sz_def)
  moreover have "At l c v (s # ss) ctx (p\<lparr>ps_stack := (s, w) # ps_stack p, ps_size := sz\<rparr>)"
    using assms(1) sz by (simp add: At_def)
  ultimately show ?thesis by blast
qed

lemma At_drop: "At l c v ss ctx p \<Longrightarrow> At l c v (drop n ss) ctx' (p\<lparr>ps_ctx := ctx', ps_stack := drop n (ps_stack p)\<rparr>)"
  by (auto simp: At_def drop_map)

lemma default_step:
  assumes "At l c v (s # ss) ctx p" "(s, r) \<in> set reducing"
  shows "yystep lx p = yyreduce lx r p"
proof -
  have "list_all (\<lambda>(s, r). r \<noteq> 0) reducing" by code_simp
  then have a: "yypact ! s = YYPACT_NINF" "yydefact ! s = r" "r \<noteq> 0"
    using reducing_table assms(2) by (auto simp only: list_all_iff dest!: bspec)
  have "fst (hd (ps_stack p)) = s" using assms(1) by (cases "ps_stack p") (auto simp: At_def)
  then show ?thesis using a by (simp add: yystep_def yydefault_def)
qed

lemma read_again: "ps_char q \<noteq> YYEMPTY \<Longrightarrow> 0 \<le> ps_char q \<Longrightarrow> read_token lx q = q"
  by (cases q) (simp add: read_token_def YYEOF_def Let_def)

lemma shifted: "ps_errstatus p = 0 \<Longrightarrow> p\<lparr>ps_errstatus := 0, ps_char := YYEMPTY\<rparr> = p\<lparr>ps_char := YYEMPTY\<rparr>"
  by (cases p) simp

lemma token_step_lr:
  assumes "At l c v (s # ss) ctx p" "s \<in> set reading" "c \<noteq> YYEMPTY" "0 \<le> c"
  shows "yystep lx p = (case lr s (YYTRANSLATE c) of
     LShift t \<Rightarrow> yynewstate lx t v (p\<lparr>ps_char := YYEMPTY\<rparr>) | LReduce r \<Rightarrow> yyreduce lx r p | LError \<Rightarrow> yyerrlab lx p)"
proof -
  have a: "yypact ! s \<noteq> YYPACT_NINF"
    using reading_pact assms(2) by (auto simp only: list_all_iff dest!: bspec)
  have t: "fst (hd (ps_stack p)) = s" using assms(1) by (cases "ps_stack p") (auto simp: At_def)
  have r: "read_token lx p = p" using assms(1,3,4) by (intro read_again) (auto simp: At_def)
  have p: "ps_char p = c" "ps_lval p = v" "ps_errstatus p = 0" using assms(1) by (auto simp: At_def)
  show ?thesis
    by (simp add: yystep_def yydefault_def lr_def Let_def YYTABLE_NINF_def a t r p shifted [OF p(3)])
qed

lemma read_step:
  assumes "At l YYEMPTY v (s # ss) ctx p" "s \<in> set reading" "yylex lx l = (l', x)"
  shows "\<exists>q c w. yystep lx p = yystep lx q \<and> At l' c w (s # ss) (lex_errors x ctx) q \<and> c \<noteq> YYEMPTY \<and> 0 \<le> c
     \<and> YYTRANSLATE c = lex_token x \<and> w = (case lx_value x of None \<Rightarrow> v | Some u \<Rightarrow> u)"
proof -
  have a: "yypact ! s \<noteq> YYPACT_NINF"
    using reading_pact assms(2) by (auto simp only: list_all_iff dest!: bspec)
  have t: "fst (hd (ps_stack p)) = s" using assms(1) by (cases "ps_stack p") (auto simp: At_def)
  have at: "At l' (ps_char (read_token lx p)) (ps_lval (read_token lx p)) (s # ss) (lex_errors x ctx) (read_token lx p)"
    "ps_char (read_token lx p) = (if lx_token x \<le> YYEOF then YYEOF else lx_token x)"
    "ps_lval (read_token lx p) = (case lx_value x of None \<Rightarrow> v | Some u \<Rightarrow> u)"
    using assms(1,3) by (auto simp: At_def read_token_def lex_errors_def Let_def)
  have c: "ps_char (read_token lx p) \<noteq> YYEMPTY" "0 \<le> ps_char (read_token lx p)"
    using at(2) by (auto simp: YYEMPTY_def YYEOF_def)
  then have "read_token lx (read_token lx p) = read_token lx p" by (rule read_again)
  moreover have "fst (hd (ps_stack (read_token lx p))) = s"
    using at(1) by (cases "ps_stack (read_token lx p)") (auto simp: At_def)
  ultimately have "yystep lx p = yystep lx (read_token lx p)"
    using a t by (simp add: yystep_def)
  then show ?thesis using at c by (auto simp: lex_token_def intro!: exI [of _ "read_token lx p"])
qed

section \<open>Steps that lead to a state of the reference\<close>

lemma leads_mono_Suc: "leads lx k l v o1 r \<Longrightarrow> leads lx (Suc k) l v o1 r"
  by (erule leads_mono) simp

lemma yyreduce_leads:
  assumes p: "At l c v ss ctx p"
    and d: "drop (yyr2 ! r) ss = t # ts" "length (t # ts) < 9998" "goto_state r t \<noteq> YYFINAL"
    and a: "rule_action (yyget_lineno lx l, lex_filename lx l) r (snd (hd (ps_stack p))) ctx = a"
    and k: "\<And>ctx' q. At l c v (goto_state r t # t # ts) ctx' q \<Longrightarrow> leads lx k l v (Run q) (K ctx')"
  shows "leads lx k l v (yyreduce lx r p) (act_then a K)"
proof -
  have pos: "ps_pos lx p = (yyget_lineno lx l, lex_filename lx l)" "ps_ctx p = ctx"
    using p by (auto simp: At_def ps_pos_def)
  show ?thesis
  proof (cases a)
    case None
    then show ?thesis using a by (auto simp: yyreduce_def pos act_then_def matches_def Let_def intro!: leads_now)
  next
    case (Some b)
    then obtain ctx' go where b: "a = Some (ctx', go)" by (cases b) auto
    show ?thesis
    proof (cases go)
      case False
      then show ?thesis using a b p
        by (auto simp: yyreduce_def pos act_then_def matches_def Let_def At_def intro!: leads_now)
    next
      case True
      have q: "At l c v (t # ts) ctx' (p\<lparr>ps_ctx := ctx', ps_stack := drop (yyr2 ! r) (ps_stack p)\<rparr>)" (is "At _ _ _ _ _ ?q")
        using At_drop [OF p, of "yyr2 ! r" ctx'] d(1) by simp
      then obtain w st where st: "drop (yyr2 ! r) (ps_stack p) = (t, w) # st" by (auto simp: At_def)
      define yv where "yv = (if yyr2 ! r = 0 then YUndef else snd (ps_stack p ! (yyr2 ! r - 1)))"
      obtain q' where q': "yynewstate lx (goto_state r t) yv ?q = Run q'" "At l c v (goto_state r t # t # ts) ctx' q'"
        using push_at [OF q d(2,3)] by blast
      have "yyreduce lx r p = Run q'"
        using a b True q'(1) by (simp add: yyreduce_def pos Let_def st yv_def)
      then show ?thesis using k [OF q'(2)] b True by (simp add: act_then_def)
    qed
  qed
qed

definition silent :: "nat list" where
  "silent = [2, 3, 4, 5, 6, 7, 8, 9, 10, 12, 17, 18, 19, 20, 30, 31, 32, 33, 34, 35, 36, 37]"

definition acting :: "nat list" where
  "acting = [11, 13, 14, 15, 16, 21, 22, 23, 24, 25, 26, 27, 28, 29, 38, 39]"

lemma silent_action: "r \<in> set silent \<Longrightarrow> rule_action pos r v ctx = Some (ctx, True)"
proof -
  have "list_all (\<lambda>r. r \<notin> set acting) silent" by code_simp
  moreover assume "r \<in> set silent"
  ultimately have "r \<notin> set acting" unfolding list_all_iff by (rule bspec)
  then show ?thesis by (simp add: rule_action_def acting_def)
qed

lemma reduce_silent:
  assumes "At l c v ss ctx p" "r \<in> set silent" "drop (yyr2 ! r) ss = t # ts" "length (t # ts) < 9998"
    "goto_state r t = g" "g \<noteq> YYFINAL"
    "\<And>q. At l c v (g # t # ts) ctx q \<Longrightarrow> leads lx k l v (Run q) R"
  shows "leads lx k l v (yyreduce lx r p) R"
proof -
  have "leads lx k l v (yyreduce lx r p) (act_then (Some (ctx, True)) (\<lambda>ctx'. if ctx' = ctx then R else Deep))"
  proof (rule yyreduce_leads [OF assms(1,3,4)])
    fix ctx' q assume "At l c v (goto_state r t # t # ts) ctx' q"
    then show "leads lx k l v (Run q) (if ctx' = ctx then R else Deep)"
      using assms(5,7) by (cases "ctx' = ctx") (simp_all add: leads_now matches_def)
  qed (use assms(2,5,6) in \<open>simp_all add: silent_action\<close>)
  then show ?thesis by (simp add: act_then_def)
qed

lemma default_leads:
  assumes "At l c v (s # ss) ctx p" "(s, r) \<in> set reducing" "leads lx k l v (yyreduce lx r p) R"
  shows "leads lx (Suc k) l v (Run p) R"
  by (rule leads_step) (simp only: default_step [OF assms(1,2)] assms(3))

lemma default_silent:
  assumes "At l c v (s # ss) ctx p" "(s, r) \<in> set reducing" "r \<in> set silent" "drop (yyr2 ! r) (s # ss) = t # ts"
    "length (t # ts) < 9998" "goto_state r t = g" "g \<noteq> YYFINAL"
    "\<And>q. At l c v (g # t # ts) ctx q \<Longrightarrow> leads lx k l v (Run q) R"
  shows "leads lx (Suc k) l v (Run p) R"
  by (rule default_leads [OF assms(1,2)], rule reduce_silent [OF assms(1,3-7)], rule assms(8))

lemma lookahead_silent:
  assumes "At l c v (s # ss) ctx p" "s \<in> set reading" "c \<noteq> YYEMPTY" "0 \<le> c" "lr s (YYTRANSLATE c) = LReduce r"
    "r \<in> set silent" "drop (yyr2 ! r) (s # ss) = t # ts" "length (t # ts) < 9998" "goto_state r t = g" "g \<noteq> YYFINAL"
    "\<And>q. At l c v (g # t # ts) ctx q \<Longrightarrow> leads lx k l v (Run q) R"
  shows "leads lx (Suc k) l v (Run p) R"
proof -
  have "leads lx k l v (yyreduce lx r p) R" by (rule reduce_silent [OF assms(1,6-10)], rule assms(11))
  then show ?thesis using token_step_lr [OF assms(1-4), of lx] assms(5) by (intro leads_step) simp
qed

lemma error_leads:
  assumes "At l c v (s # ss) ctx p" "s \<in> set reading" "c \<noteq> YYEMPTY" "0 \<le> c" "lr s (YYTRANSLATE c) = LError"
  shows "leads lx (Suc k) l v (Run p) (syntax_error (yyget_lineno lx l, lex_filename lx l) ctx)"
proof -
  have "matches l v (yyerrlab lx p) (syntax_error (yyget_lineno lx l, lex_filename lx l) ctx)"
    using assms(1) by (auto simp: yyerrlab_def yyerrlab1_def no_error_token At_def syntax_error_def matches_def ps_error_def
        ps_pos_def Let_def)
  then show ?thesis using token_step_lr [OF assms(1-4), of lx] assms(5) by (intro leads_step leads_now) simp
qed

lemma shift_at:
  assumes "At l c v (s # ss) ctx p" "s \<in> set reading" "c \<noteq> YYEMPTY" "0 \<le> c" "lr s (YYTRANSLATE c) = LShift t"
    "t \<noteq> YYFINAL" "length (s # ss) < 9998"
    "\<And>q. At l YYEMPTY v (t # s # ss) ctx q \<Longrightarrow> snd (hd (ps_stack q)) = v \<Longrightarrow> leads lx k l v (Run q) R"
  shows "leads lx (Suc k) l v (Run p) R"
proof -
  have q: "At l YYEMPTY v (s # ss) ctx (p\<lparr>ps_char := YYEMPTY\<rparr>)" (is "At _ _ _ _ _ ?q")
    using assms(1) by (simp add: At_def)
  obtain q' where q': "yynewstate lx t v ?q = Run q'" "At l YYEMPTY v (t # s # ss) ctx q'"
    using push_at [OF q assms(7,6)] by blast
  have "snd (hd (ps_stack q')) = v"
    using q'(1) by (auto simp: yynewstate_def Let_def split: if_splits)
  then show ?thesis
    using token_step_lr [OF assms(1-4), of lx] assms(5) assms(8) [OF q'(2)] q'(1) by (intro leads_step) simp
qed

lemma shift_act:
  assumes "At l c v (s # ss) ctx p" "s \<in> set reading" "c \<noteq> YYEMPTY" "0 \<le> c" "lr s (YYTRANSLATE c) = LShift t"
    "t \<noteq> YYFINAL" "length (s # ss) < 9998" "(t, r) \<in> set reducing" "drop (yyr2 ! r) (t # s # ss) = u # us"
    "length (u # us) < 9998" "goto_state r u = g" "g \<noteq> YYFINAL"
    "rule_action (yyget_lineno lx l, lex_filename lx l) r v ctx = a"
    "\<And>ctx' q. At l YYEMPTY v (g # u # us) ctx' q \<Longrightarrow> leads lx k l v (Run q) (K ctx')"
  shows "leads lx (Suc (Suc k)) l v (Run p) (act_then a K)"
proof (rule shift_at [OF assms(1-7)])
  fix q assume q: "At l YYEMPTY v (t # s # ss) ctx q" "snd (hd (ps_stack q)) = v"
  have "leads lx k l v (yyreduce lx r q) (act_then a K)"
    by (rule yyreduce_leads [OF q(1) assms(9,10)]) (use assms(11-14) q(2) in auto)
  then show "leads lx (Suc k) l v (Run q) (act_then a K)" by (rule default_leads [OF q(1) assms(8)])
qed

section \<open>Every token is simulated\<close>

lemma lr_simps:
  assumes "tok < 23"
  shows "lr 0 tok = (if tok = 10 then LShift 1 else LReduce 2)"
    "lr 2 tok = (if tok = 0 then LShift 6 else LError)"
    "lr 3 tok = (if tok = 10 then LShift 1 else LReduce 3)"
    "lr 5 tok = (if tok = 11 then LShift 8 else LError)"
    "lr 8 tok = value_shift tok (opener_shift tok LError)"
    "lr 21 tok = (if tok = 17 then LShift 28 else if tok = 20 then LShift 29 else LReduce 8)"
    "lr 22 tok = (if tok = 9 then LShift 31 else LReduce 29)"
    "lr 25 tok = value_shift tok (LReduce 36)"
    "lr 26 tok = value_shift tok (opener_shift tok (LReduce 32))"
    "lr 27 tok = (if tok = 10 then LShift 1 else LReduce 6)"
    "lr 33 tok = (if tok = 17 then LShift 40 else LReduce 37)"
    "lr 34 tok = (if tok = 14 then LShift 41 else LError)"
    "lr 36 tok = (if tok = 17 then LShift 42 else LReduce 33)"
    "lr 37 tok = (if tok = 16 then LShift 43 else LError)"
    "lr 38 tok = (if tok = 10 then LShift 1 else LReduce 7)"
    "lr 39 tok = (if tok = 19 then LShift 44 else LError)"
    "lr 40 tok = value_shift tok LError"
    "lr 42 tok = value_shift tok (opener_shift tok LError)"
proof -
  have "tok \<in> set [0..<23]" using assms by simp
  note all = bspec [OF lr_table [unfolded list_all_iff] this]
  show "lr 0 tok = (if tok = 10 then LShift 1 else LReduce 2)"
    "lr 2 tok = (if tok = 0 then LShift 6 else LError)"
    "lr 3 tok = (if tok = 10 then LShift 1 else LReduce 3)"
    "lr 5 tok = (if tok = 11 then LShift 8 else LError)"
    "lr 8 tok = value_shift tok (opener_shift tok LError)"
    "lr 21 tok = (if tok = 17 then LShift 28 else if tok = 20 then LShift 29 else LReduce 8)"
    "lr 22 tok = (if tok = 9 then LShift 31 else LReduce 29)"
    "lr 25 tok = value_shift tok (LReduce 36)"
    "lr 26 tok = value_shift tok (opener_shift tok (LReduce 32))"
    "lr 27 tok = (if tok = 10 then LShift 1 else LReduce 6)"
    "lr 33 tok = (if tok = 17 then LShift 40 else LReduce 37)"
    "lr 34 tok = (if tok = 14 then LShift 41 else LError)"
    "lr 36 tok = (if tok = 17 then LShift 42 else LReduce 33)"
    "lr 37 tok = (if tok = 16 then LShift 43 else LError)"
    "lr 38 tok = (if tok = 10 then LShift 1 else LReduce 7)"
    "lr 39 tok = (if tok = 19 then LShift 44 else LError)"
    "lr 40 tok = value_shift tok LError"
    "lr 42 tok = value_shift tok (opener_shift tok LError)"
    using all by - (elim conjE, assumption)+
qed

lemma yyr2_simps:
  "yyr2 ! 2 = 0" "yyr2 ! 3 = 1" "yyr2 ! 4 = 1" "yyr2 ! 5 = 2" "yyr2 ! 6 = 0" "yyr2 ! 7 = 1" "yyr2 ! 8 = 0" "yyr2 ! 9 = 1"
  "yyr2 ! 10 = 1" "yyr2 ! 11 = 0" "yyr2 ! 12 = 5" "yyr2 ! 13 = 0" "yyr2 ! 14 = 4" "yyr2 ! 15 = 0" "yyr2 ! 16 = 4"
  "yyr2 ! 17 = 1" "yyr2 ! 18 = 1" "yyr2 ! 19 = 1" "yyr2 ! 20 = 1" "yyr2 ! 21 = 1" "yyr2 ! 22 = 2" "yyr2 ! 23 = 1"
  "yyr2 ! 24 = 1" "yyr2 ! 25 = 1" "yyr2 ! 26 = 1" "yyr2 ! 27 = 1" "yyr2 ! 28 = 1" "yyr2 ! 29 = 1" "yyr2 ! 30 = 1"
  "yyr2 ! 31 = 3" "yyr2 ! 32 = 0" "yyr2 ! 33 = 1" "yyr2 ! 34 = 1" "yyr2 ! 35 = 3" "yyr2 ! 36 = 0" "yyr2 ! 37 = 1"
  "yyr2 ! 38 = 0" "yyr2 ! 39 = 4"
  by code_simp+

lemma goto_name: "goto_state 11 (Suc 0) = 5"
  by code_simp

lemmas step_simps = goto_name yyr2_simps reducing_def silent_def reading_def YYFINAL_def gotos(3-)

text \<open>A value that is complete, with or without a token read, in a list, a setting or an array.\<close>

lemma value_done:
  assumes "value_stack bs (s # ss)" "innermost bs \<noteq> B_array" "At l c v (g # s # ss) ctx p"
    "g \<in> {19, 20, 23, 24}" "length (s # ss) < 9980"
    "\<And>ss' q. At l c v ss' ctx q \<Longrightarrow> after_stack bs ss' \<Longrightarrow> leads lx k l v (Run q) R"
  shows "leads lx (Suc (Suc k)) l v (Run p) R"
proof -
  obtain r where r: "(g, r) \<in> set reducing" "r \<in> set silent" "yyr2 ! r = 1" "r \<in> {17, 18, 19, 20}"
    using assms(4) that [of 18] that [of 19] that [of 17] that [of 20]
    by (elim insertE emptyE) (simp_all add: step_simps)
  show ?thesis
    using assms(1)
  proof (cases rule: value_stack.cases)
    case (setting t)
    then have b: "innermost bs = B_group" using settings_bs [of bs t] by simp
    have g: "goto_state r s = 21" using r(4) setting gotos(1,3) by (auto simp: list_all_iff)
    have "leads lx (Suc k) l v (Run p) R"
      by (rule default_silent [OF assms(3) r(1,2)])
        (use r(3) g assms(5,6) setting b in
          \<open>auto simp: step_simps after_stack_def\<close>)
    then show ?thesis by (rule leads_mono_Suc)
  next
    case (list_first r' t t')
    have g: "goto_state r s = 35" using r(4) list_first gotos(1,4) by (auto simp: list_all_iff)
    show ?thesis
    proof (rule default_silent [OF assms(3) r(1,2)])
      fix q assume q: "At l c v (35 # s # ss) ctx q"
      show "leads lx (Suc k) l v (Run q) R"
        by (rule default_silent [OF q]) (use assms(5,6) list_first in \<open>auto simp: step_simps after_stack_def\<close>)
    qed (use r(3) g assms(5) list_first in \<open>auto simp: step_simps\<close>)
  next
    case (list_next r' t t')
    have g: "goto_state r s = 46" using r(4) list_next gotos(1,5) by (auto simp: list_all_iff)
    show ?thesis
    proof (rule default_silent [OF assms(3) r(1,2)])
      fix q assume q: "At l c v (46 # s # ss) ctx q"
      show "leads lx (Suc k) l v (Run q) R"
        by (rule default_silent [OF q]) (use assms(5,6) list_next in \<open>auto simp: step_simps after_stack_def\<close>)
    qed (use r(3) g assms(5) list_next in \<open>auto simp: step_simps\<close>)
  qed (use assms(2) in auto)
qed

lemma simple_done:
  assumes "value_stack bs (s # ss)" "At l c v (goto_state r s # s # ss) ctx p" "r \<in> set [23..<30]" "length (s # ss) < 9980"
    "\<And>ss' q. At l c v ss' ctx q \<Longrightarrow> after_stack bs ss' \<Longrightarrow> leads lx k l v (Run q) R"
  shows "leads lx (Suc (Suc k)) l v (Run p) R"
proof (cases "innermost bs = B_array")
  case True
  with assms(1) show ?thesis
  proof (cases rule: value_stack.cases)
    case (setting t)
    then show ?thesis using True settings_bs [of bs t] by auto
  next
    case (array_first r' t t')
    then have g: "goto_state r s = 32" using gotos(2) assms(3) by (auto simp: list_all_iff)
    have "leads lx (Suc k) l v (Run p) R"
      by (rule default_silent [OF assms(2) [unfolded g]])
        (use assms(4,5) array_first in \<open>auto simp: step_simps after_stack_def\<close>)
    then show ?thesis by (rule leads_mono_Suc)
  next
    case (array_next r' t t')
    then have g: "goto_state r s = 45" using gotos(2) assms(3) by (auto simp: list_all_iff)
    have "leads lx (Suc k) l v (Run p) R"
      by (rule default_silent [OF assms(2) [unfolded g]])
        (use assms(4,5) array_next in \<open>auto simp: step_simps after_stack_def\<close>)
    then show ?thesis by (rule leads_mono_Suc)
  qed auto
next
  case False
  have "s \<in> {8, 26, 42}" using assms(1) False by (cases rule: value_stack.cases) auto
  then have "goto_state r s = 23" using gotos(1) assms(3) by (auto simp: list_all_iff)
  then show ?thesis using value_done [OF assms(1) False _ _ assms(4,5)] assms(2) by fastforce
qed

lemma setting_done:
  assumes "settings_stack bs t" "At l c v (30 # 21 # 8 # 5 # 1 # t) ctx p" "length t < 9970"
    "\<And>ss' q. At l c v ss' ctx q \<Longrightarrow> settings_stack bs ss' \<Longrightarrow> hd ss' \<in> {3, 38} \<Longrightarrow> leads lx k l v (Run q) R"
  shows "leads lx (Suc (Suc k)) l v (Run p) R"
  using assms(1)
proof (cases rule: settings_stack.cases)
  case bottom_empty
  show ?thesis
  proof (rule default_silent [OF assms(2)])
    fix q assume q: "At l c v (4 # 0 # []) ctx q"
    show "leads lx (Suc k) l v (Run q) R"
      by (rule default_silent [OF q])
        (use assms(3) bottom_empty in \<open>auto simp: step_simps intro!: assms(4) settings_stack_value_stack.intros\<close>)
  qed (use assms(3) bottom_empty in \<open>auto simp: step_simps\<close>)
next
  case bottom
  show ?thesis
  proof (rule default_silent [OF assms(2)])
    fix q assume q: "At l c v (7 # 3 # 0 # []) ctx q"
    show "leads lx (Suc k) l v (Run q) R"
      by (rule default_silent [OF q])
        (use assms(3) bottom in \<open>auto simp: step_simps intro!: assms(4) settings_stack_value_stack.intros\<close>)
  qed (use assms(3) bottom in \<open>auto simp: step_simps\<close>)
next
  case (group_empty r s ss)
  show ?thesis
  proof (rule default_silent [OF assms(2)])
    fix q assume q: "At l c v (4 # 27 # 18 # s # ss) ctx q"
    show "leads lx (Suc k) l v (Run q) R"
      by (rule default_silent [OF q])
        (use assms(3) group_empty in \<open>auto simp: step_simps intro!: assms(4) settings_stack_value_stack.intros\<close>)
  qed (use assms(3) group_empty in \<open>auto simp: step_simps\<close>)
next
  case (group r s ss)
  show ?thesis
  proof (rule default_silent [OF assms(2)])
    fix q assume q: "At l c v (7 # 38 # 27 # 18 # s # ss) ctx q"
    show "leads lx (Suc k) l v (Run q) R"
      by (rule default_silent [OF q])
        (use assms(3) group in \<open>auto simp: step_simps intro!: assms(4) settings_stack_value_stack.intros\<close>)
  qed (use assms(3) group in \<open>auto simp: step_simps\<close>)
qed

text \<open>A closed bracket is a value of the bracket around it.\<close>

lemma goto_aggregate:
  assumes "value_stack r (s # ss)" "innermost r \<noteq> B_array"
  shows "goto_state 14 s = 19" "goto_state 16 s = 20" "goto_state 39 s = 24"
proof -
  have "s \<in> {8, 26, 42}" using assms by (cases rule: value_stack.cases) auto
  then show "goto_state 14 s = 19" "goto_state 16 s = 20" "goto_state 39 s = 24"
    using gotos(1) by (auto simp: list_all_iff)
qed

lemma rule_action_simps:
  "rule_action pos 11 v ctx = add_setting pos v ctx"
  "rule_action pos 13 v ctx = open_aggregate pos 7 CONFIG_TYPE_ARRAY ctx"
  "rule_action pos 15 v ctx = open_aggregate pos 8 CONFIG_TYPE_LIST ctx"
  "rule_action pos 38 v ctx = open_aggregate pos 1 CONFIG_TYPE_GROUP ctx"
  "rule_action pos 14 v ctx = close_aggregate ctx" "rule_action pos 16 v ctx = close_aggregate ctx"
  "rule_action pos 39 v ctx = close_aggregate ctx" "rule_action pos 21 v ctx = append_action v ctx"
  "rule_action pos 22 v ctx = append_action v ctx" "rule_action pos 29 v ctx = string_action pos ctx"
  by (simp_all add: rule_action_def)

lemma after_leads:
  assumes "value_stack r (s # ss)" "innermost r \<noteq> B_array" "length r \<le> MAX_NEST"
    "At l YYEMPTY v (g # s # ss) ctx p" "g \<in> {19, 20, 23, 24}"
  shows "leads lx 2 l v (Run p) (Go After r ctx)"
proof -
  have "length (s # ss) < 9980" using stack_length(2) [OF assms(1)] assms(3) by (simp add: MAX_NEST_def)
  then show ?thesis
    using value_done [OF assms(1,2,4,5), of lx 0 "Go After r ctx"] assms(3)
    by (force simp: numeral_2_eq_2 matches_def mode_stack_def intro: leads_now)
qed

text \<open>The three brackets close alike: the closing token, its rule, the state before and after.\<close>

lemma close_leads:
  assumes "value_stack r (s # ss)" "innermost r \<noteq> B_array" "length r \<le> MAX_NEST"
    "At l c v (a # b # e # s # ss) ctx p" "c \<noteq> YYEMPTY" "0 \<le> c"
    "(a, YYTRANSLATE c) \<in> {(34, 14), (37, 16), (39, 19)}"
  shows "leads lx 4 l v (Run p) (act_then (close_aggregate ctx) (Go After r))"
proof -
  have len: "length (s # ss) < 9980" using stack_length(2) [OF assms(1)] assms(3) by (simp add: MAX_NEST_def)
  obtain t ru :: nat where t: "lr a (YYTRANSLATE c) = LShift t" "(t, ru) \<in> {(41, 14), (43, 16), (44, 39)}" "a \<in> set reading"
    using assms(7) lr_simps(12,14,16) [of "YYTRANSLATE c"] by (auto simp: reading_def)
  have g: "goto_state ru s \<in> {19, 20, 24}" using goto_aggregate [OF assms(1,2)] t(2) by auto
  have "leads lx (Suc (Suc 2)) l v (Run p) (act_then (close_aggregate ctx) (Go After r))"
  proof (rule shift_act [OF assms(4) t(3) assms(5,6) t(1)])
    show "(t, ru) \<in> set reducing" using t(2) by (auto simp: reducing_def)
    show "drop (yyr2 ! ru) (t # a # b # e # s # ss) = s # ss" using t(2) by (auto simp: yyr2_simps)
    show "rule_action (yyget_lineno lx l, lex_filename lx l) ru v ctx = close_aggregate ctx"
      using t(2) by (auto simp: rule_action_simps)
    fix ctx' q assume "At l YYEMPTY v (goto_state ru s # s # ss) ctx' q"
    then show "leads lx 2 l v (Run q) (Go After r ctx')"
      by (rule after_leads [OF assms(1-3)]) (use g in auto)
  qed (use t(2) g len in \<open>auto simp: YYFINAL_def\<close>)
  then show ?thesis by (simp add: eval_nat_numeral)
qed

lemma accept_leads:
  assumes "At l c v [2, 0] ctx p" "c \<noteq> YYEMPTY" "0 \<le> c" "YYTRANSLATE c = 0"
  shows "leads lx (Suc k) l v (Run p) (Ret 0 ctx)"
proof -
  have "yystep lx p = yynewstate lx 6 v (p\<lparr>ps_char := YYEMPTY\<rparr>)"
    using token_step_lr [OF assms(1) _ assms(2,3), of lx] assms(4) lr_simps(2) [of 0] by (simp add: reading_def)
  moreover have "length (ps_stack p) = 2" "200 \<le> ps_size p" "ps_lex p = l" "ps_ctx p = ctx"
    using assms(1) arg_cong [of "map fst (ps_stack p)" "[2, 0]" length] by (auto simp: At_def)
  ultimately have "matches l v (yystep lx p) (Ret 0 ctx)"
    by (auto simp: yynewstate_def Let_def YYFINAL_def matches_def)
  then show ?thesis by (intro leads_step leads_now)
qed

lemma go_leads: "At l YYEMPTY v ss ctx q \<Longrightarrow> mode_stack m bs ss \<Longrightarrow> leads lx k l v (Run q) (Go m bs ctx)"
  by (intro leads_now) (auto simp: matches_def)

lemma reading_mem:
  "0 \<in> set reading" "3 \<in> set reading" "5 \<in> set reading" "8 \<in> set reading" "21 \<in> set reading" "22 \<in> set reading"
  "25 \<in> set reading" "26 \<in> set reading" "27 \<in> set reading" "33 \<in> set reading" "36 \<in> set reading" "38 \<in> set reading"
  "40 \<in> set reading" "42 \<in> set reading"
  by (simp_all add: reading_def)

lemmas stack_intros = settings_stack_value_stack.intros

lemma settings_leads:
  assumes "settings_stack bs ss" "length bs \<le> MAX_NEST" "At l c v ss ctx p" "c \<noteq> YYEMPTY" "0 \<le> c"
  shows "leads lx 6 l v (Run p) (settings_token (yyget_lineno lx l, lex_filename lx l) (YYTRANSLATE c) v bs ctx)"
    (is "leads lx 6 l v (Run p) (settings_token ?pos ?tok v bs ctx)")
proof -
  have len: "length ss < 9980" using stack_length(1) [OF assms(1)] assms(2) by (simp add: MAX_NEST_def)
  note tok = token_range [of c]
  obtain s us where s: "ss = s # us" "s \<in> {0, 3, 27, 38}" using assms(1) by (cases rule: settings_stack.cases) auto
  show ?thesis
  proof (cases "?tok = 10")
    case True
    have lr: "lr s ?tok = LShift 1" "s \<in> set reading"
      using s(2) lr_simps [OF tok] True by (auto simp: reading_def)
    have "leads lx (Suc (Suc 4)) l v (Run p) (act_then (add_setting ?pos v ctx) (Go Equals bs))"
    proof (rule shift_act [OF assms(3) [unfolded s(1)] lr(2) assms(4,5) lr(1)])
      fix ctx' q assume "At l YYEMPTY v (5 # 1 # ss) ctx' q"
      then show "leads lx 4 l v (Run q) (Go Equals bs ctx')"
        using assms(1,2) by (intro leads_now) (auto simp: matches_def mode_stack_def)
    qed (use len s(1) in \<open>auto simp: step_simps rule_action_simps\<close>)
    then show ?thesis using True by (simp add: settings_token_def eval_nat_numeral)
  next
    case name: False
    have at_bottom: "leads lx 2 l v (Run q) (settings_token ?pos ?tok v [] ctx)" if q: "At l c v [2, 0] ctx q" for q
    proof (cases "?tok = 0")
      case True
      then show ?thesis using accept_leads [OF q assms(4,5), of lx 1]
        by (simp add: settings_token_def numeral_2_eq_2)
    next
      case False
      then show ?thesis using name error_leads [OF q _ assms(4,5), of lx 1] lr_simps(2) [OF tok]
        by (simp add: settings_token_def reading_def numeral_2_eq_2)
    qed
    have in_group: "leads lx 4 l v (Run q) (settings_token ?pos ?tok v (B_group # r) ctx)"
      if q: "At l c v (39 # 27 # 18 # u # t) ctx q" and r: "value_stack r (u # t)" "innermost r \<noteq> B_array"
        "length r \<le> MAX_NEST" for q r u t
    proof (cases "?tok = 19")
      case True
      then show ?thesis using name close_leads [OF r q assms(4,5), of lx]
        by (simp add: settings_token_def close_bracket_def)
    next
      case False
      then show ?thesis using name error_leads [OF q _ assms(4,5), of lx 3] lr_simps(16) [OF tok]
        by (simp add: settings_token_def reading_def eval_nat_numeral)
    qed
    show ?thesis
      using assms(1)
    proof (cases rule: settings_stack.cases)
      case bottom_empty
      then have "leads lx (Suc 2) l v (Run p) (settings_token ?pos ?tok v bs ctx)"
        using assms(3) name lr_simps(1) [OF tok]
        by (intro lookahead_silent [of l c v 0 "[]" ctx p 2 0 "[]" 2]) (auto simp: step_simps assms(4,5) intro: at_bottom)
      then show ?thesis by (rule leads_mono) simp
    next
      case bottom
      then have "leads lx (Suc 2) l v (Run p) (settings_token ?pos ?tok v bs ctx)"
        using assms(3) name lr_simps(3) [OF tok]
        by (intro lookahead_silent [of l c v 3 "[0]" ctx p 3 0 "[]" 2])
          (auto simp: step_simps assms(4,5) intro: at_bottom)
      then show ?thesis by (rule leads_mono) simp
    next
      case (group_empty r u t)
      then have "leads lx (Suc 4) l v (Run p) (settings_token ?pos ?tok v bs ctx)"
        using assms(2,3) name lr_simps(10) [OF tok] len
        by (intro lookahead_silent [of l c v 27 "18 # u # t" ctx p 6 27 "18 # u # t" 39])
          (auto simp: step_simps assms(4,5) intro: in_group)
      then show ?thesis by (rule leads_mono) simp
    next
      case (group r u t)
      then have "leads lx (Suc 4) l v (Run p) (settings_token ?pos ?tok v bs ctx)"
        using assms(2,3) name lr_simps(15) [OF tok] len
        by (intro lookahead_silent [of l c v 38 "27 # 18 # u # t" ctx p 7 27 "18 # u # t" 39])
          (auto simp: step_simps assms(4,5) intro: in_group)
      then show ?thesis by (rule leads_mono) simp
    qed
  qed
qed

lemma value_top:
  assumes "value_stack bs (s # ss)"
  shows "innermost bs = B_array \<Longrightarrow> s \<in> {25, 40}" "innermost bs \<noteq> B_array \<Longrightarrow> s \<in> {8, 26, 42}"
    "s = 25 \<Longrightarrow> \<exists>r u t. bs = B_array # r \<and> ss = 16 # u # t \<and> value_stack r (u # t) \<and> innermost r \<noteq> B_array"
    "s = 26 \<Longrightarrow> \<exists>r u t. bs = B_list # r \<and> ss = 17 # u # t \<and> value_stack r (u # t) \<and> innermost r \<noteq> B_array"
proof -
  show "innermost bs = B_array \<Longrightarrow> s \<in> {25, 40}"
    using assms by (cases rule: value_stack.cases) (simp_all add: settings_bs)
  show "innermost bs \<noteq> B_array \<Longrightarrow> s \<in> {8, 26, 42}"
    using assms by (cases rule: value_stack.cases) simp_all
  show "s = 25 \<Longrightarrow> \<exists>r u t. bs = B_array # r \<and> ss = 16 # u # t \<and> value_stack r (u # t) \<and> innermost r \<noteq> B_array"
    using assms by (cases rule: value_stack.cases) simp_all
  show "s = 26 \<Longrightarrow> \<exists>r u t. bs = B_list # r \<and> ss = 17 # u # t \<and> value_stack r (u # t) \<and> innermost r \<noteq> B_array"
    using assms by (cases rule: value_stack.cases) simp_all
qed

lemma value_reading: "s \<in> {8, 25, 26, 40, 42} \<Longrightarrow> s \<in> set reading"
  by (auto simp: reading_def)

lemma lr_value:
  assumes "s \<in> {8, 25, 26, 40, 42}" "tok < 23" "3 \<le> tok" "tok \<le> 9"
  shows "lr s tok = LShift (tok + 6)"
  using assms(1,3,4) lr_simps [OF assms(2)] by (auto simp: value_shift_def)

definition scalar_rule :: "nat \<Rightarrow> nat" where
  "scalar_rule tok = [23, 24, 26, 25, 27, 28, 21] ! (tok - 3)"

lemma scalar_rules:
  assumes "3 \<le> tok" "tok \<le> 8"
  shows "(tok + 6, scalar_rule tok) \<in> set reducing" "yyr2 ! scalar_rule tok = 1" "scalar_rule tok \<in> set [23..<30]"
    "rule_action pos (scalar_rule tok) v ctx = scalar_action pos tok v ctx"
proof -
  have "tok \<in> {3, 4, 5, 6, 7, 8}" using assms by auto
  then show "(tok + 6, scalar_rule tok) \<in> set reducing" "yyr2 ! scalar_rule tok = 1" "scalar_rule tok \<in> set [23..<30]"
    "rule_action pos (scalar_rule tok) v ctx = scalar_action pos tok v ctx"
    by (elim insertE emptyE; simp add: scalar_rule_def reducing_def yyr2_simps rule_action_def scalar_action_def)+
qed

lemma goto_simple: "s \<in> {8, 25, 26, 40, 42} \<Longrightarrow> r \<in> set [23..<30] \<Longrightarrow> goto_state r s \<noteq> YYFINAL"
  using gotos(1,2) by (auto simp: list_all_iff YYFINAL_def)

lemma simple_after:
  assumes "value_stack bs (s # ss)" "At l YYEMPTY v (goto_state r s # s # ss) ctx p" "r \<in> set [23..<30]" "length bs \<le> MAX_NEST"
  shows "leads lx 2 l v (Run p) (Go After bs ctx)"
proof -
  have "length (s # ss) < 9980" using stack_length(2) [OF assms(1)] assms(4) by (simp add: MAX_NEST_def)
  then show ?thesis
    using simple_done [OF assms(1-3), of lx 0 "Go After bs ctx"] assms(4)
    by (force simp: numeral_2_eq_2 matches_def mode_stack_def intro: leads_now)
qed

lemma scalar_leads:
  assumes "value_stack bs (s # ss)" "length bs \<le> MAX_NEST" "At l c v (s # ss) ctx p" "c \<noteq> YYEMPTY" "0 \<le> c"
    "3 \<le> YYTRANSLATE c" "YYTRANSLATE c \<le> 9"
  shows "leads lx 4 l v (Run p) (value_token (yyget_lineno lx l, lex_filename lx l) (YYTRANSLATE c) v bs ctx)"
    (is "leads lx 4 l v (Run p) (value_token ?pos ?tok v bs ctx)")
proof -
  have len: "length (s # ss) < 9980" using stack_length(2) [OF assms(1)] assms(2) by (simp add: MAX_NEST_def)
  have s: "s \<in> {8, 25, 26, 40, 42}" using value_top [OF assms(1)] by blast
  note lr = lr_value [OF s token_range assms(6,7)]
  show ?thesis
  proof (cases "?tok = 9")
    case False
    then have t: "3 \<le> ?tok" "?tok \<le> 8" using assms(6,7) by auto
    have "leads lx (Suc (Suc 2)) l v (Run p) (act_then (scalar_action ?pos ?tok v ctx) (Go After bs))"
    proof (rule shift_act [OF assms(3) value_reading [OF s] assms(4,5) lr])
      fix ctx' q assume "At l YYEMPTY v (goto_state (scalar_rule ?tok) s # s # ss) ctx' q"
      then show "leads lx 2 l v (Run q) (Go After bs ctx')"
        by (rule simple_after [OF assms(1) _ scalar_rules(3) [OF t] assms(2)])
    qed (use t s len scalar_rules [OF t] goto_simple in \<open>auto simp: YYFINAL_def\<close>)
    then show ?thesis using t by (simp add: value_token_def eval_nat_numeral)
  next
    case True
    have "leads lx (Suc (Suc 2)) l v (Run p) (act_then (append_action v ctx) (Go Str bs))"
    proof (rule shift_act [OF assms(3) value_reading [OF s] assms(4,5) lr])
      fix ctx' q assume "At l YYEMPTY v (22 # s # ss) ctx' q"
      then show "leads lx 2 l v (Run q) (Go Str bs ctx')"
        using assms(1,2) by (intro leads_now) (auto simp: matches_def mode_stack_def)
    qed (use True s len gotos(33) in \<open>auto simp: step_simps rule_action_simps list_all_iff\<close>)
    then show ?thesis using True by (simp add: value_token_def eval_nat_numeral)
  qed
qed

lemma innermost_cases:
  assumes "value_stack bs (s # ss)" "innermost bs \<noteq> B_array"
  shows "s \<in> {8, 42} \<or> s = 26 \<and> innermost bs = B_list"
  using value_top(2) [OF assms] value_top(4) [OF assms(1)] by auto

lemma open_leads:
  assumes "value_stack bs (s # ss)" "length bs < MAX_NEST" "innermost bs \<noteq> B_array" "At l c v (s # ss) ctx p"
    "c \<noteq> YYEMPTY" "0 \<le> c" "lr s (YYTRANSLATE c) = LShift t"
    "(t :: nat, r :: nat, g :: nat, b, m, tc :: int, typ) \<in> {(16, 13, 25, B_array, First, 7, CONFIG_TYPE_ARRAY),
       (17, 15, 26, B_list, First, 8, CONFIG_TYPE_LIST), (18, 38, 27, B_group, Settings, 1, CONFIG_TYPE_GROUP)}"
  shows "leads lx 2 l v (Run p) (open_bracket b tc typ m (yyget_lineno lx l, lex_filename lx l) bs ctx)"
proof -
  have len: "length (s # ss) < 9980" using stack_length(2) [OF assms(1)] assms(2) by (simp add: MAX_NEST_def)
  have s: "s \<in> set reading" using value_top(2) [OF assms(1,3)] by (auto simp: reading_def)
  have t: "(t, r) \<in> set reducing" "yyr2 ! r = 0" "goto_state r t = g" "t \<noteq> YYFINAL" "g \<noteq> YYFINAL"
    using assms(8) by (auto simp: step_simps)
  have a: "rule_action pos r v ctx = open_aggregate pos tc typ ctx" for pos
    using assms(8) by (auto simp: rule_action_simps)
  have "leads lx (Suc (Suc 0)) l v (Run p) (act_then (open_aggregate (yyget_lineno lx l, lex_filename lx l) tc typ ctx) (Go m (b # bs)))"
  proof (rule shift_act [OF assms(4) s assms(5,6,7) t(4)])
    fix ctx' q assume "At l YYEMPTY v (g # t # s # ss) ctx' q"
    then show "leads lx 0 l v (Run q) (Go m (b # bs) ctx')"
      using assms(1,2,3,8)
      by (intro leads_now) (auto simp: matches_def mode_stack_def intro!: settings_stack_value_stack.intros exI [of _ q])
  qed (use len t a in \<open>auto\<close>)
  then show ?thesis using assms(2) by (simp add: open_bracket_def numeral_2_eq_2)
qed

lemma value_leads:
  assumes "value_stack bs (s # ss)" "length bs \<le> MAX_NEST" "At l c v (s # ss) ctx p" "c \<noteq> YYEMPTY" "0 \<le> c"
    "s \<in> {25, 26} \<Longrightarrow> YYTRANSLATE c \<noteq> closer (innermost bs)"
  shows "leads lx 4 l v (Run p) (value_token (yyget_lineno lx l, lex_filename lx l) (YYTRANSLATE c) v bs ctx)"
    (is "leads lx 4 l v (Run p) (value_token ?pos ?tok v bs ctx)")
proof (cases "3 \<le> ?tok \<and> ?tok \<le> 9")
  case True
  then show ?thesis using scalar_leads [OF assms(1-5)] by simp
next
  case no: False
  have len: "length (s # ss) < 9980" using stack_length(2) [OF assms(1)] assms(2) by (simp add: MAX_NEST_def)
  note tok = token_range [of c]
  have vs: "value_shift ?tok d = d" for d using no by (auto simp: value_shift_def)
  have err: "leads lx 4 l v (Run q) (syntax_error ?pos ctx)" if "At l c v (a # t) ctx q" "a \<in> set reading" "lr a ?tok = LError" for a t q
    using error_leads [OF that(1,2) assms(4,5) that(3), of lx 3] by (simp add: eval_nat_numeral)
  have err2: "leads lx 4 l v (Run p) (syntax_error ?pos ctx)"
    if "lr s ?tok = LReduce r" "r \<in> set silent" "yyr2 ! r = 0" "goto_state r s = a" "a \<in> set reading" "lr a ?tok = LError" "s \<in> set reading" for r a
  proof -
    have "leads lx (Suc 3) l v (Run p) (syntax_error ?pos ctx)"
    proof (rule lookahead_silent [OF assms(3) that(7) assms(4,5) that(1,2)])
      fix q assume "At l c v (a # s # ss) ctx q"
      from error_leads [OF this that(5) assms(4,5) that(6), of lx 2]
      show "leads lx 3 l v (Run q) (syntax_error ?pos ctx)" by (simp add: eval_nat_numeral)
    qed (use that len in \<open>auto simp: YYFINAL_def reading_def\<close>)
    then show ?thesis by (simp add: eval_nat_numeral)
  qed
  show ?thesis
  proof (cases "innermost bs = B_array")
    case True
    have "leads lx 4 l v (Run p) (syntax_error ?pos ctx)"
    proof (cases "s = 40")
      case True
      then show ?thesis using err [OF assms(3)] lr_simps(17) [OF tok] by (simp add: vs reading_def)
    next
      case False
      then have "s = 25" using value_top(1) [OF assms(1) True] by auto
      then show ?thesis using err2 [of 36 34] lr_simps(8,12) [OF tok] assms(6) True
        by (simp add: vs step_simps closer_def)
    qed
    then show ?thesis using True no by (auto simp: value_token_def)
  next
    case False
    note s = innermost_cases [OF assms(1) False]
    have os: "lr s ?tok = LShift t" if "opener_shift ?tok d = LShift t" "?tok \<in> {13, 15, 18}" for t d
      using s that lr_simps(5,9,18) [OF tok] by (auto simp: vs opener_shift_def)
    show ?thesis
    proof (cases "?tok \<in> {13, 15, 18}")
      case True
      show ?thesis
      proof (cases "length bs = MAX_NEST")
        case True
        then show ?thesis using \<open>?tok \<in> {13, 15, 18}\<close> no False
          by (auto simp: value_token_def open_bracket_def matches_def intro!: leads_now)
      next
        case nest: False
        then have n: "length bs < MAX_NEST" using assms(2) by simp
        note o1 = open_leads [OF assms(1) n False assms(3-5), of _ _ _ _ _ _ _ lx]
        have "leads lx 2 l v (Run p) (value_token ?pos ?tok v bs ctx)"
          using True
        proof (elim insertE emptyE)
          assume t: "?tok = 13"
          then have "lr s ?tok = LShift 16" by (intro os) (auto simp: opener_shift_def)
          then show ?thesis using o1 [of 16 13 25 B_array First 7 CONFIG_TYPE_ARRAY] no False t by (simp add: value_token_def)
        next
          assume t: "?tok = 15"
          then have "lr s ?tok = LShift 17" by (intro os) (auto simp: opener_shift_def)
          then show ?thesis using o1 [of 17 15 26 B_list First 8 CONFIG_TYPE_LIST] no False t by (simp add: value_token_def)
        next
          assume t: "?tok = 18"
          then have "lr s ?tok = LShift 18" by (intro os) (auto simp: opener_shift_def)
          then show ?thesis using o1 [of 18 38 27 B_group Settings 1 CONFIG_TYPE_GROUP] no False t by (simp add: value_token_def)
        qed
        then show ?thesis by (rule leads_mono) simp
      qed
    next
      case nt: False
      then have op: "opener_shift ?tok d = d" for d by (simp add: opener_shift_def)
      have "leads lx 4 l v (Run p) (syntax_error ?pos ctx)"
        using s
      proof
        assume "s \<in> {8, 42}"
        then show ?thesis using err [OF assms(3)] lr_simps(5,18) [OF tok] by (auto simp: vs op reading_def)
      next
        assume "s = 26 \<and> innermost bs = B_list"
        then show ?thesis using err2 [of 32 37] lr_simps(9,14) [OF tok] assms(6)
          by (simp add: vs op step_simps closer_def)
      qed
      then show ?thesis using nt no False by (auto simp: value_token_def)
    qed
  qed
qed

lemma after_token_leads:
  assumes "after_stack bs ss" "length bs \<le> MAX_NEST" "At l c v ss ctx p" "c \<noteq> YYEMPTY" "0 \<le> c"
  shows "leads lx 9 l v (Run p) (after_token (yyget_lineno lx l, lex_filename lx l) (YYTRANSLATE c) v bs ctx)"
    (is "leads lx 9 l v (Run p) (after_token ?pos ?tok v bs ctx)")
proof (cases "innermost bs")
  case B_group
  then obtain t where t: "ss = 21 # 8 # 5 # 1 # t" "settings_stack bs t" using assms(1) by (auto simp: after_stack_def)
  have len: "length t < 9970" using stack_length(1) [OF t(2)] assms(2) by (simp add: MAX_NEST_def)
  note p = assms(3) [unfolded t(1)]
  have r21: "21 \<in> set reading" by (simp add: reading_def)
  have tm: "leads lx 4 l v (Run p) (Go Settings bs ctx)" if "lr 21 ?tok = LShift s" "(s, r) \<in> {(28, 10), (29, 9)}" for s r :: nat
  proof -
    have "leads lx (Suc 3) l v (Run p) (Go Settings bs ctx)"
    proof (rule shift_at [OF p r21 assms(4,5) that(1)])
      fix q assume q: "At l YYEMPTY v (s # 21 # 8 # 5 # 1 # t) ctx q"
      have "leads lx (Suc 2) l v (Run q) (Go Settings bs ctx)"
      proof (rule default_silent [OF q, of r])
        fix q assume q: "At l YYEMPTY v (30 # 21 # 8 # 5 # 1 # t) ctx q"
        have "leads lx (Suc (Suc 0)) l v (Run q) (Go Settings bs ctx)"
        proof (rule setting_done [OF t(2) q len])
          fix ss' q assume "At l YYEMPTY v ss' ctx q" "settings_stack bs ss'"
          then show "leads lx 0 l v (Run q) (Go Settings bs ctx)"
            using assms(2) by (intro leads_now) (auto simp: matches_def mode_stack_def)
        qed
        then show "leads lx 2 l v (Run q) (Go Settings bs ctx)" by (simp add: numeral_2_eq_2)
      qed (use that(2) len in \<open>auto simp: step_simps\<close>)
      then show "leads lx 3 l v (Run q) (Go Settings bs ctx)" by (simp add: eval_nat_numeral)
    qed (use that(2) len in \<open>auto simp: step_simps\<close>)
    then show ?thesis by (simp add: eval_nat_numeral)
  qed
  show ?thesis
  proof (cases "?tok = 17 \<or> ?tok = 20")
    case True
    have "leads lx 4 l v (Run p) (Go Settings bs ctx)"
      using True lr_simps(6) [OF token_range [of c]] tm [of 28 10] tm [of 29 9] by auto
    then have "leads lx 9 l v (Run p) (Go Settings bs ctx)" by (rule leads_mono) simp
    then show ?thesis using True B_group by (simp add: after_token_def)
  next
    case False
    have "leads lx (Suc 8) l v (Run p) (settings_token ?pos ?tok v bs ctx)"
    proof (rule lookahead_silent [OF p r21 assms(4,5)])
      show "lr 21 ?tok = LReduce 8" using False lr_simps(6) [OF token_range [of c]] by simp
      fix q assume q: "At l c v (30 # 21 # 8 # 5 # 1 # t) ctx q"
      have "leads lx (Suc (Suc 6)) l v (Run q) (settings_token ?pos ?tok v bs ctx)"
      proof (rule setting_done [OF t(2) q len])
        fix ss' q assume "At l c v ss' ctx q" "settings_stack bs ss'"
        then show "leads lx 6 l v (Run q) (settings_token ?pos ?tok v bs ctx)"
          by (intro settings_leads [OF _ assms(2) _ assms(4,5)])
      qed
      then show "leads lx 8 l v (Run q) (settings_token ?pos ?tok v bs ctx)" by (simp add: eval_nat_numeral)
    qed (use len in \<open>auto simp: step_simps\<close>)
    then show ?thesis using False B_group by (simp add: after_token_def eval_nat_numeral)
  qed
next
  case B_list
  then obtain r s t where t: "bs = B_list # r" "ss = 36 # 26 # 17 # s # t" "value_stack r (s # t)" "innermost r \<noteq> B_array"
    using assms(1) by (auto simp: after_stack_def)
  have nr: "length r \<le> MAX_NEST" and len: "length t < 9970"
    using stack_length(2) [OF t(3)] assms(2) t(1) by (simp_all add: MAX_NEST_def)
  note tok = token_range [of c]
  note p = assms(3) [unfolded t(2)]
  have r36: "36 \<in> set reading" by (simp add: reading_def)
  show ?thesis
  proof (cases "?tok = 17")
    case True
    have "leads lx (Suc 8) l v (Run p) (Go Value bs ctx)"
    proof (rule shift_at [OF p r36 assms(4,5)])
      show "lr 36 ?tok = LShift 42" using True lr_simps(13) [OF tok] by simp
      fix q assume "At l YYEMPTY v (42 # 36 # 26 # 17 # s # t) ctx q"
      then show "leads lx 8 l v (Run q) (Go Value bs ctx)"
        using assms(2) t by (intro leads_now) (auto simp: matches_def mode_stack_def intro: settings_stack_value_stack.intros)
    qed (use len in \<open>auto simp: YYFINAL_def\<close>)
    then show ?thesis using True B_list by (simp add: after_token_def eval_nat_numeral)
  next
    case False
    have "leads lx (Suc 4) l v (Run p) (after_token ?pos ?tok v bs ctx)"
    proof (rule lookahead_silent [OF p r36 assms(4,5)])
      show "lr 36 ?tok = LReduce 33" using False lr_simps(13) [OF tok] by simp
      fix q assume q: "At l c v (37 # 26 # 17 # s # t) ctx q"
      show "leads lx 4 l v (Run q) (after_token ?pos ?tok v bs ctx)"
      proof (cases "?tok = 16")
        case True
        then show ?thesis using close_leads [OF t(3,4) nr q assms(4,5), of lx] t(1) B_list
          by (simp add: after_token_def closer_def close_bracket_def)
      next
        case False
        then show ?thesis using error_leads [OF q _ assms(4,5), of lx 3] \<open>?tok \<noteq> 17\<close> lr_simps(14) [OF tok] B_list
          by (simp add: after_token_def closer_def reading_def eval_nat_numeral)
      qed
    qed (use len in \<open>auto simp: step_simps\<close>)
    then show ?thesis by (rule leads_mono) simp
  qed
next
  case B_array
  then obtain r s t where t: "bs = B_array # r" "ss = 33 # 25 # 16 # s # t" "value_stack r (s # t)" "innermost r \<noteq> B_array"
    using assms(1) by (auto simp: after_stack_def)
  have nr: "length r \<le> MAX_NEST" and len: "length t < 9970"
    using stack_length(2) [OF t(3)] assms(2) t(1) by (simp_all add: MAX_NEST_def)
  note tok = token_range [of c]
  note p = assms(3) [unfolded t(2)]
  have r33: "33 \<in> set reading" by (simp add: reading_def)
  show ?thesis
  proof (cases "?tok = 17")
    case True
    have "leads lx (Suc 8) l v (Run p) (Go Value bs ctx)"
    proof (rule shift_at [OF p r33 assms(4,5)])
      show "lr 33 ?tok = LShift 40" using True lr_simps(11) [OF tok] by simp
      fix q assume "At l YYEMPTY v (40 # 33 # 25 # 16 # s # t) ctx q"
      then show "leads lx 8 l v (Run q) (Go Value bs ctx)"
        using assms(2) t by (intro leads_now) (auto simp: matches_def mode_stack_def intro: settings_stack_value_stack.intros)
    qed (use len in \<open>auto simp: YYFINAL_def\<close>)
    then show ?thesis using True B_array by (simp add: after_token_def eval_nat_numeral)
  next
    case False
    have "leads lx (Suc 4) l v (Run p) (after_token ?pos ?tok v bs ctx)"
    proof (rule lookahead_silent [OF p r33 assms(4,5)])
      show "lr 33 ?tok = LReduce 37" using False lr_simps(11) [OF tok] by simp
      fix q assume q: "At l c v (34 # 25 # 16 # s # t) ctx q"
      show "leads lx 4 l v (Run q) (after_token ?pos ?tok v bs ctx)"
      proof (cases "?tok = 14")
        case True
        then show ?thesis using close_leads [OF t(3,4) nr q assms(4,5), of lx] t(1) B_array
          by (simp add: after_token_def closer_def close_bracket_def)
      next
        case False
        then show ?thesis using error_leads [OF q _ assms(4,5), of lx 3] \<open>?tok \<noteq> 17\<close> lr_simps(12) [OF tok] B_array
          by (simp add: after_token_def closer_def reading_def eval_nat_numeral)
      qed
    qed (use len in \<open>auto simp: step_simps\<close>)
    then show ?thesis by (rule leads_mono) simp
  qed
qed

lemma first_close:
  assumes "value_stack bs (s # ss)" "s \<in> {25, 26}" "length bs \<le> MAX_NEST" "At l c v (s # ss) ctx p" "c \<noteq> YYEMPTY" "0 \<le> c"
    "YYTRANSLATE c = closer (innermost bs)"
  shows "leads lx 5 l v (Run p) (close_bracket bs ctx)"
proof -
  have len: "length (s # ss) < 9980" using stack_length(2) [OF assms(1)] assms(3) by (simp add: MAX_NEST_def)
  obtain b r u t where b: "bs = b # r" "ss = (if s = 25 then 16 else 17) # u # t" "b = (if s = 25 then B_array else B_list)"
    "value_stack r (u # t)" "innermost r \<noteq> B_array"
    using value_top(3,4) [OF assms(1)] assms(2) by auto
  have tok: "YYTRANSLATE c = (if s = 25 then 14 else 16)" using assms(7) b by (simp add: closer_def)
  have "leads lx (Suc 4) l v (Run p) (act_then (close_aggregate ctx) (Go After r))"
  proof (rule lookahead_silent [OF assms(4) _ assms(5,6)])
    show "s \<in> set reading" using assms(2) by (auto simp: reading_def)
    show "lr s (YYTRANSLATE c) = LReduce (if s = 25 then 36 else 32)"
      using assms(2) tok lr_simps(8) [of 14] lr_simps(9) [of 16] by (auto simp: value_shift_def opener_shift_def)
    fix q assume q: "At l c v ((if s = 25 then 34 else 37) # s # ss) ctx q"
    show "leads lx 4 l v (Run q) (act_then (close_aggregate ctx) (Go After r))"
      by (rule close_leads [OF b(4,5) _ q [unfolded b(2)] assms(5,6)]) (use assms(2,3) b tok in auto)
  qed (use assms(2) len in \<open>auto simp: step_simps\<close>)
  then show ?thesis using b by (simp add: close_bracket_def eval_nat_numeral)
qed

lemma string_leads:
  assumes "value_stack bs (s # ss)" "length bs \<le> MAX_NEST" "At l c v (22 # s # ss) ctx p" "c \<noteq> YYEMPTY" "0 \<le> c"
  shows "leads lx 12 l v (Run p) (token_step (yyget_lineno lx l, lex_filename lx l) (YYTRANSLATE c) v Str bs ctx)"
    (is "leads lx 12 l v (Run p) (token_step ?pos ?tok v Str bs ctx)")
proof -
  have len: "length (s # ss) < 9980" using stack_length(2) [OF assms(1)] assms(2) by (simp add: MAX_NEST_def)
  have s: "s \<in> {8, 25, 26, 40, 42}" using value_top [OF assms(1)] by blast
  have r22: "22 \<in> set reading" by (simp add: reading_def)
  note tok = token_range [of c]
  show ?thesis
  proof (cases "?tok = 9")
    case True
    have "leads lx (Suc (Suc 0)) l v (Run p) (act_then (append_action v ctx) (Go Str bs))"
    proof (rule shift_act [OF assms(3) r22 assms(4,5)])
      show "lr 22 ?tok = LShift 31" using True lr_simps(7) [OF tok] by simp
      show "goto_state 22 s = 22" using s gotos(33) by (auto simp: list_all_iff)
      fix ctx' q assume "At l YYEMPTY v (22 # s # ss) ctx' q"
      then show "leads lx 0 l v (Run q) (Go Str bs ctx')"
        using assms(1,2) by (intro leads_now) (auto simp: matches_def mode_stack_def)
    qed (use s len in \<open>auto simp: step_simps rule_action_simps\<close>)
    then have "leads lx 12 l v (Run p) (act_then (append_action v ctx) (Go Str bs))" by (rule leads_mono) simp
    then show ?thesis using True by (simp add: token_step_def)
  next
    case False
    have "leads lx 11 l v (yyreduce lx 29 p) (act_then (string_action ?pos ctx) (after_token ?pos ?tok v bs))"
    proof (rule yyreduce_leads [OF assms(3)])
      fix ctx' q assume q: "At l c v (goto_state 29 s # s # ss) ctx' q"
      have "leads lx (Suc (Suc 9)) l v (Run q) (after_token ?pos ?tok v bs ctx')"
      proof (rule simple_done [OF assms(1) q _ len])
        fix ss' q assume "At l c v ss' ctx' q" "after_stack bs ss'"
        then show "leads lx 9 l v (Run q) (after_token ?pos ?tok v bs ctx')"
          by (intro after_token_leads [OF _ assms(2) _ assms(4,5)])
      qed simp
      then show "leads lx 11 l v (Run q) (after_token ?pos ?tok v bs ctx')" by (simp add: eval_nat_numeral)
    qed (use len goto_simple [OF s, of 29] in \<open>auto simp: yyr2_simps rule_action_simps\<close>)
    then have "leads lx (Suc 11) l v (Run p) (act_then (string_action ?pos ctx) (after_token ?pos ?tok v bs))"
      using token_step_lr [OF assms(3) r22 assms(4,5), of lx] False lr_simps(7) [OF tok] by (intro leads_step) simp
    then show ?thesis using False by (simp add: token_step_def eval_nat_numeral)
  qed
qed

lemma token_leads:
  assumes "mode_stack m bs ss" "At l c v ss ctx p" "c \<noteq> YYEMPTY" "0 \<le> c"
  shows "leads lx 12 l v (Run p) (token_step (yyget_lineno lx l, lex_filename lx l) (YYTRANSLATE c) v m bs ctx)"
    (is "leads lx 12 l v (Run p) (token_step ?pos ?tok v m bs ctx)")
proof -
  have n: "length bs \<le> MAX_NEST" using assms(1) by (simp add: mode_stack_def)
  show ?thesis
  proof (cases m)
    case Settings
    then have "leads lx 6 l v (Run p) (token_step ?pos ?tok v m bs ctx)"
      using settings_leads [OF _ n assms(2-4)] assms(1) by (simp add: mode_stack_def token_step_def)
    then show ?thesis by (rule leads_mono) simp
  next
    case Equals
    then obtain t where t: "ss = 5 # 1 # t" "settings_stack bs t" using assms(1) by (auto simp: mode_stack_def)
    have len: "length t < 9970" using stack_length(1) [OF t(2)] n by (simp add: MAX_NEST_def)
    note p = assms(2) [unfolded t(1)]
    have r5: "5 \<in> set reading" by (simp add: reading_def)
    have lr5: "lr 5 ?tok = (if ?tok = 11 then LShift 8 else LError)" by (rule lr_simps(4) [OF token_range])
    show ?thesis
    proof (cases "?tok = 11")
      case True
      have "leads lx (Suc 11) l v (Run p) (Go Value bs ctx)"
      proof (rule shift_at [OF p r5 assms(3,4)])
        show "lr 5 ?tok = LShift 8" using lr5 True by simp
        fix q assume q: "At l YYEMPTY v (8 # 5 # 1 # t) ctx q"
        show "leads lx 11 l v (Run q) (Go Value bs ctx)"
          by (rule go_leads [OF q]) (use n setting [OF t(2)] in \<open>simp add: mode_stack_def\<close>)
      qed (use len in \<open>auto simp: YYFINAL_def\<close>)
      then show ?thesis using Equals True by (simp add: token_step_def eval_nat_numeral)
    next
      case False
      then show ?thesis using error_leads [OF p r5 assms(3,4), of lx 11] lr5 Equals
        by (simp add: token_step_def eval_nat_numeral)
    qed
  next
    case Value
    then obtain s t where s: "ss = s # t" "value_stack bs (s # t)" "s \<in> {8, 40, 42}"
      using assms(1) by (cases ss) (auto simp: mode_stack_def elim: value_stack.cases)
    then have "s \<in> {25, 26} \<Longrightarrow> ?tok \<noteq> closer (innermost bs)" by auto
    then have "leads lx 4 l v (Run p) (token_step ?pos ?tok v m bs ctx)"
      using value_leads [OF s(2) n assms(2) [unfolded s(1)] assms(3,4)] Value by (simp add: token_step_def)
    then show ?thesis by (rule leads_mono) simp
  next
    case First
    then obtain s t where s: "ss = s # t" "value_stack bs (s # t)" "s \<in> {25, 26}"
      using assms(1) by (cases ss) (auto simp: mode_stack_def elim: value_stack.cases)
    show ?thesis
    proof (cases "?tok = closer (innermost bs)")
      case True
      have "leads lx 5 l v (Run p) (token_step ?pos ?tok v m bs ctx)"
        using first_close [OF s(2,3) n _ assms(3,4) True] assms(2) First True s(1) by (simp add: token_step_def)
      then show ?thesis by (rule leads_mono) simp
    next
      case False
      have "leads lx 4 l v (Run p) (token_step ?pos ?tok v m bs ctx)"
        using value_leads [OF s(2) n _ assms(3,4)] assms(2) First False s(1) by (simp add: token_step_def)
      then show ?thesis by (rule leads_mono) simp
    qed
  next
    case After
    then have "leads lx 9 l v (Run p) (token_step ?pos ?tok v m bs ctx)"
      using after_token_leads [OF _ n assms(2-4)] assms(1) by (simp add: mode_stack_def token_step_def)
    then show ?thesis by (rule leads_mono) simp
  next
    case Str
    then obtain u where u: "ss = 22 # u" "value_stack bs u" using assms(1) by (auto simp: mode_stack_def)
    then obtain s t where s: "ss = 22 # s # t" "value_stack bs (s # t)" by (cases u) (auto elim: value_stack.cases)
    then show ?thesis using string_leads [OF s(2) n _ assms(3,4)] assms(2) Str by simp
  qed
qed

section \<open>The driver refines the reference\<close>

lemma mode_stack_reading:
  assumes "mode_stack m bs ss"
  shows "\<exists>s t. ss = s # t \<and> s \<in> set reading"
proof -
  have settings: "\<exists>s t. ss = s # t \<and> s \<in> set reading" if "settings_stack bs ss" for bs ss
    using that by (cases rule: settings_stack.cases) (simp_all add: reading_mem)
  have val: "\<exists>s t. ss = s # t \<and> s \<in> set reading" if "value_stack bs ss" for bs ss
    using that by (cases rule: value_stack.cases) (simp_all add: reading_mem)
  show ?thesis
    using assms settings val
    by (auto simp: mode_stack_def after_stack_def reading_mem split: pmode.splits bracket.splits)
qed

lemma token_simulated:
  assumes "mode_stack m bs ss" "At l YYEMPTY v ss ctx p" "yylex lx l = (l', x)"
    "v' = (case lx_value x of None \<Rightarrow> v | Some u \<Rightarrow> u)"
  shows "leads lx 12 l' v' (Run p) (token_step (yyget_lineno lx l', lex_filename lx l') (lex_token x) v' m bs (lex_errors x ctx))"
    (is "leads lx 12 l' v' (Run p) ?R")
proof -
  obtain s t where s: "ss = s # t" "s \<in> set reading" using mode_stack_reading [OF assms(1)] by blast
  obtain q c w where q: "yystep lx p = yystep lx q" "At l' c w (s # t) (lex_errors x ctx) q" "c \<noteq> YYEMPTY" "0 \<le> c"
    "YYTRANSLATE c = lex_token x" "w = v'"
    using read_step [OF assms(2) [unfolded s(1)] s(2) assms(3)] assms(4) by metis
  have "leads lx 12 l' v' (Run q) ?R"
    using token_leads [OF assms(1) [unfolded s(1)] q(2-4), of lx] q(5,6) by simp
  then obtain j where j: "j \<le> 12" "matches l' v' (yyrun lx j (Run q)) ?R" by (auto simp: leads_def)
  have "matches l' v' (yyrun lx j (Run p)) ?R"
  proof (cases j)
    case 0
    then show ?thesis using j(2) q(2,3) by (cases ?R) (auto simp: matches_def At_def)
  next
    case (Suc i)
    then show ?thesis using j(2) q(1) by simp
  qed
  then show ?thesis using j(1) by (auto simp: leads_def)
qed

lemma yyrun_Stop [simp]: "yyrun lx k (Stop r p) = Stop r p" "yyrun lx k Crash = Crash"
  by (cases k; simp)+

lemma yyrun_add: "yyrun lx (i + j) o1 = yyrun lx j (yyrun lx i o1)"
proof (induction i arbitrary: o1)
  case (Suc i)
  then show ?case by (cases o1) simp_all
qed simp

text \<open>
  What the reference computes within \<open>n\<close> tokens the driver computes within
  \<open>12 n\<close> steps, unless brackets are nested too deep.
\<close>

lemma ref_parse_simulated:
  assumes "matches l v o1 r" "ref_parse lx n l v r = (l', r')" "r' \<noteq> Deep"
  shows "\<exists>j\<le>12 * n. \<exists>v'. matches l' v' (yyrun lx j o1) r'"
  using assms
proof (induction lx n l v r arbitrary: o1 rule: ref_parse.induct)
  case (1 lx n l v m bs ctx)
  obtain l1 x where x: "yylex lx l = (l1, x)" by fastforce
  define v1 where "v1 = (case lx_value x of None \<Rightarrow> v | Some w \<Rightarrow> w)"
  define r1 where "r1 = token_step (yyget_lineno lx l1, lex_filename lx l1) (lex_token x) v1 m bs (lex_errors x ctx)"
  obtain p ss where p: "o1 = Run p" "At l YYEMPTY v ss ctx p" "mode_stack m bs ss"
    using "1.prems"(1) by (auto simp: matches_def)
  obtain j where j: "j \<le> 12" "matches l1 v1 (yyrun lx j o1) r1"
    using token_simulated [OF p(3,2) x v1_def] unfolding p(1) r1_def leads_def by blast
  have "ref_parse lx n l1 v1 r1 = (l', r')"
    using "1.prems"(2) x by (simp add: Let_def v1_def r1_def)
  then obtain k v' where "k \<le> 12 * n" "matches l' v' (yyrun lx k (yyrun lx j o1)) r'"
    using "1.IH" [OF x [symmetric] v1_def j(2) [unfolded r1_def]] "1.prems"(3) unfolding r1_def by blast
  then show ?case using j(1) by (intro exI [of _ "j + k"]) (auto simp: yyrun_add)
qed (auto intro!: exI [of _ 0])

lemma driver_refines:
  assumes "ref_parse lx n l YUndef (Go Settings [] ctx) = (l', Ret r ctx')"
  shows "\<exists>p. yyparse lx (12 * n) l ctx = Stop r p \<and> ps_ctx p = ctx' \<and> ps_lex p = l'"
proof -
  have "At l YYEMPTY YUndef [0] ctx (yyinit l ctx)" by (simp add: At_def yyinit_def YYINITDEPTH_def YYMAXDEPTH_def)
  moreover have "mode_stack Settings [] [0]" by (simp add: mode_stack_def bottom_empty)
  ultimately have "matches l YUndef (Run (yyinit l ctx)) (Go Settings [] ctx)" by (auto simp: matches_def)
  from ref_parse_simulated [OF this assms] obtain j v' where j: "j \<le> 12 * n"
    "matches l' v' (yyrun lx j (Run (yyinit l ctx))) (Ret r ctx')" by auto
  then have "yyrun lx (12 * n) (Run (yyinit l ctx)) = yyrun lx j (Run (yyinit l ctx))"
    using yyrun_add [of lx j "12 * n - j" "Run (yyinit l ctx)"] by (auto simp: matches_def)
  then show ?thesis using j(2) by (auto simp: yyparse_def matches_def)
qed

end
