(* ===== verification/ParseTree.thy ===== *)
theory ParseTree
  imports Pushdown
begin

text \<open>
  What the parser builds.  The actions of the grammar as edits of the setting
  tree; an invariant of the parser's context under which no action goes wrong
  and the tree stays well-typed, so that every token sequence of at most
  \<open>MAX_NEST\<close> brackets is parsed to an end without a crash; and the tree that is
  built from the tokens of a setting.
\<close>

section \<open>Writing below a setting\<close>

lemma put_at_elems [simp]: "elems (put_at s (i # ip) t) = (if i < length (elems s) then (elems s)[i := put_at (elems s ! i) ip t] else elems s)"
  by simp

lemma setting_at_put_prefix:
  "setting_at s p = Some u \<Longrightarrow> setting_at (put_at s (p @ q) t) p = Some (put_at u q t)"
  by (induction s p arbitrary: u rule: setting_at.induct) (auto split: if_splits)

lemma put_at_append:
  "setting_at s p = Some u \<Longrightarrow> put_at s (p @ q) t = put_at s p (put_at u q t)"
  by (induction s p arbitrary: u rule: setting_at.induct) (auto split: if_splits)

lemma put_at_put: "put_at (put_at s p u) p t = put_at s p t"
  by (induction s p u rule: put_at.induct) (auto simp: set_value_same)

lemma put_at_id: "setting_at s p = Some u \<Longrightarrow> put_at s p u = s"
proof (induction s p arbitrary: u rule: setting_at.induct)
  case (2 s i ip)
  then have i: "i < length (elems s)" "put_at (elems s ! i) ip u = elems s ! i" by (auto split: if_splits)
  then have "elems s \<noteq> []" by auto
  then show ?case using i by (cases s) (auto simp: set_value_def elems_def list_ptr_def split: config_value.splits)
qed simp

lemma put_last:
  assumes "setting_at s p = Some u" "elems u = xs @ [x]"
  shows "put_at s (p @ [length xs]) t = put_at s p (set_value (VList (xs @ [t])) u)"
  using put_at_append [OF assms(1), of "[length xs]" t] assms(2) by simp

lemma setting_at_snoc:
  "setting_at s (p @ [i]) = (case setting_at s p of None \<Rightarrow> None | Some u \<Rightarrow> if i < length (elems u) then Some (elems u ! i) else None)"
  by (simp add: setting_at_append split: option.split)

section \<open>The actions as edits of the tree\<close>

definition with_root :: "config_setting \<Rightarrow> parse_context \<Rightarrow> parse_context" where
  "with_root r ctx = ctx\<lparr>pc_config := (pc_config ctx)\<lparr>root := r\<rparr>\<rparr>"

definition tree :: "parse_context \<Rightarrow> config_setting" where
  "tree ctx = root (pc_config ctx)"

lemma with_root_simps [simp]:
  "tree (with_root r ctx) = r" "pc_parent (with_root r ctx) = pc_parent ctx" "pc_setting (with_root r ctx) = pc_setting ctx"
  "pc_string (with_root r ctx) = pc_string ctx" "with_root r (with_root r' ctx) = with_root r ctx"
  "root (pc_config (with_root r ctx)) = r"
  by (simp_all add: with_root_def tree_def)

lemma tree_update [simp]:
  "tree (ctx\<lparr>pc_parent := x\<rparr>) = tree ctx" "tree (ctx\<lparr>pc_setting := y\<rparr>) = tree ctx" "tree (ctx\<lparr>pc_string := z\<rparr>) = tree ctx"
  by (simp_all add: tree_def)

lemma store_tree: "store ip s ctx = with_root (put_at (tree ctx) ip s) ctx"
  by (simp add: store_def with_root_def put_node_def tree_def)

text \<open>The setting a scalar becomes.\<close>

definition scalar_setting :: "nat \<times> string option \<Rightarrow> ctype \<Rightarrow> config_setting config_value \<Rightarrow> int option \<Rightarrow> config_setting" where
  "scalar_setting pos t w fmt =
     set_source (fst pos) (snd pos) (with_format fmt (set_value w (new_setting None t)))"

text \<open>The setters the parser calls, on what it calls them with.\<close>

definition sets :: "ctype \<Rightarrow> config_setting config_value \<Rightarrow> (config_setting \<Rightarrow> config_setting \<times> nat option) \<Rightarrow>
    (config_setting \<Rightarrow> config_setting \<times> bool) \<Rightarrow> bool" where
  "sets t w set_elem set_plain \<longleftrightarrow>
     (\<forall>p. s_type p = CONFIG_TYPE_ARRAY \<or> s_type p = CONFIG_TYPE_LIST \<longrightarrow>
        set_elem p = (if config_vector_checktype p t
          then (set_value (VList (elems p @ [set_value w (new_setting None t)])) p, Some (length (elems p))) else (p, None)))
     \<and> (\<forall>s. s_type s = CONFIG_TYPE_NONE \<longrightarrow> set_plain s = (set_value w (set_type t s), True))"

lemma minus_one_neg [simp]: "sint minus_one < 0"
  by (simp add: minus_one_def)

lemma create_vector:
  "s_type p = CONFIG_TYPE_ARRAY \<or> s_type p = CONFIG_TYPE_LIST \<Longrightarrow>
   config_setting_create p None t = (set_value (VList (elems p @ [new_setting None t])) p, Some (length (elems p)))"
  by (auto simp: config_setting_create_def config_list_add_def)

lemma s_type_new [simp]: "s_type (new_setting n t) = t" "s_value (new_setting n t) = VZero"
  by (simp_all add: new_setting_def)

lemma parser_setters:
  "sets CONFIG_TYPE_BOOL (VIval i) (\<lambda>p. config_setting_set_bool_elem p minus_one i) (\<lambda>s. config_setting_set_bool s i)"
  "sets CONFIG_TYPE_INT (VIval i) (\<lambda>p. config_setting_set_int_elem cfg p minus_one i) (\<lambda>s. config_setting_set_int cfg s i)"
  "sets CONFIG_TYPE_INT64 (VLlval l) (\<lambda>p. config_setting_set_int64_elem cfg p minus_one l) (\<lambda>s. config_setting_set_int64 cfg s l)"
  "sets CONFIG_TYPE_FLOAT (VFval d) (\<lambda>p. config_setting_set_float_elem cfg p minus_one d) (\<lambda>s. config_setting_set_float cfg s d)"
  "sets CONFIG_TYPE_STRING (string_value u) (\<lambda>p. config_setting_set_string_elem p minus_one u) (\<lambda>s. config_setting_set_string s u)"
  by (auto simp: sets_def config_setting_set_bool_elem_def config_setting_set_int_elem_def config_setting_set_int64_elem_def
      config_setting_set_float_elem_def config_setting_set_string_elem_def config_setting_set_bool_def
      config_setting_set_int_def config_setting_set_int64_def config_setting_set_float_def config_setting_set_string_def
      create_vector put_elem_def set_value_same)

lemma put_scalar_vector:
  assumes "sets t w se sp" "pc_parent ctx = Some ip" "setting_at (tree ctx) ip = Some p"
    "s_type p = CONFIG_TYPE_ARRAY \<or> s_type p = CONFIG_TYPE_LIST"
  shows "put_scalar pos se sp fmt ctx =
     (if config_vector_checktype p t
      then Some (with_root (put_at (tree ctx) ip (set_value (VList (elems p @ [scalar_setting pos t w fmt])) p)) ctx, True)
      else Some (libconfig_yyerror pos err_array_elem_type ctx, False))"
proof -
  have v: "in_array ctx \<or> in_list ctx" "deref ctx (pc_parent ctx) = Some p"
    using assms(2-4) by (auto simp: in_array_def in_list_def parent_has_type_def deref_def tree_def)
  have se: "se p = (if config_vector_checktype p t
          then (set_value (VList (elems p @ [set_value w (new_setting None t)])) p, Some (length (elems p))) else (p, None))"
    using assms(1,4) unfolding sets_def by blast
  show ?thesis
  proof (cases "config_vector_checktype p t")
    case False
    then show ?thesis using v assms(2) se put_at_id [OF assms(3)]
      by (simp add: put_scalar_def store_tree) (simp add: with_root_def tree_def)
  next
    case True
    define q where "q = set_value (VList (elems p @ [set_value w (new_setting None t)])) p"
    have q: "setting_at (put_at (tree ctx) ip q) ip = Some q" by (rule put_at_same [OF assms(3)])
    have e: "elems q = elems p @ [set_value w (new_setting None t)]" by (simp add: q_def)
    have n: "setting_at (put_at (tree ctx) ip q) (ip @ [length (elems p)]) = Some (set_value w (new_setting None t))"
      using q e by (simp add: setting_at_snoc)
    have c: "put_at (put_at (tree ctx) ip q) (ip @ [length (elems p)]) x = put_at (tree ctx) ip (set_value (VList (elems p @ [x])) p)" for x
      using put_last [OF q e, of x] by (simp add: put_at_put q_def set_value_same)
    have q2: "setting_at (put_at (tree ctx) ip (set_value (VList (elems p @ [x])) p)) (ip @ [length (elems p)]) = Some x" for x
      using put_at_same [OF assms(3)] by (simp add: setting_at_snoc)
    have d: "put_at (put_at (tree ctx) ip (set_value (VList (elems p @ [x])) p)) (ip @ [length (elems p)]) y
        = put_at (tree ctx) ip (set_value (VList (elems p @ [y])) p)" for x y
      using put_last [OF put_at_same [OF assms(3), of "set_value (VList (elems p @ [x])) p"], of "elems p" x y]
      by (simp add: put_at_put set_value_same)
    show ?thesis
      using v assms(2) se True
      by (simp add: put_scalar_def store_tree capture_parse_pos_def q_def [symmetric] n c d scalar_setting_def node_def q2)
  qed
qed

lemma put_scalar_plain:
  assumes "sets t w se sp" "pc_parent ctx = Some ip" "setting_at (tree ctx) ip = Some p" "s_type p = CONFIG_TYPE_GROUP"
    "pc_setting ctx = Some jp" "setting_at (tree ctx) jp = Some s" "s_type s = CONFIG_TYPE_NONE"
  shows "put_scalar pos se sp fmt ctx = Some (with_root (put_at (tree ctx) jp (with_format fmt (set_value w (set_type t s)))) ctx, True)"
  using assms by (simp add: put_scalar_def in_array_def in_list_def parent_has_type_def deref_def tree_def sets_def store_tree)

lemma add_setting_effect:
  assumes "pc_parent ctx = Some ip" "setting_at (tree ctx) ip = Some p" "s_type p = CONFIG_TYPE_GROUP"
  shows "add_setting pos (YSval nm) ctx =
     (if config_validate_name nm \<and> config_setting_get_member p nm = None
      then Some (with_root (put_at (tree ctx) ip
             (set_value (VList (elems p @ [set_source (fst pos) (snd pos) (new_setting (Some nm) CONFIG_TYPE_NONE)])) p))
             (ctx\<lparr>pc_setting := Some (ip @ [length (elems p)])\<rparr>), True)
      else Some (libconfig_yyerror pos err_duplicate_setting (ctx\<lparr>pc_setting := None\<rparr>), False))"
proof -
  have c: "type_of_code 0 = Some CONFIG_TYPE_NONE" by (simp add: type_of_code_def)
  have p: "setting_at (root (pc_config ctx)) ip = Some p" using assms(2) by (simp add: tree_def)
  show ?thesis
  proof (cases "config_validate_name nm \<and> config_setting_get_member p nm = None")
    case False
    then show ?thesis using assms(1,3) p
      by (auto simp: add_setting_def add_to_parent_def config_setting_add_def c Let_def)
  next
    case True
    define q where "q = set_value (VList (elems p @ [new_setting (Some nm) CONFIG_TYPE_NONE])) p"
    have a: "config_setting_add (Some p) (Some nm) 0 = Some (Some q, Some (length (elems p)))"
      using True assms(3) by (simp add: config_setting_add_def c config_setting_create_def config_list_add_def q_def)
    have q: "setting_at (put_at (tree ctx) ip q) ip = Some q" "elems q = elems p @ [new_setting (Some nm) CONFIG_TYPE_NONE]"
      using put_at_same [OF assms(2)] by (simp_all add: q_def)
    have n: "setting_at (put_at (tree ctx) ip q) (ip @ [length (elems p)]) = Some (new_setting (Some nm) CONFIG_TYPE_NONE)"
      using q by (simp add: setting_at_snoc)
    have "put_at (put_at (tree ctx) ip q) (ip @ [length (elems p)]) x = put_at (tree ctx) ip (set_value (VList (elems p @ [x])) p)" for x
      using put_last [OF q, of x] by (simp add: put_at_put q_def set_value_same)
    then show ?thesis using True assms(1) p a n
      by (simp add: add_setting_def add_to_parent_def capture_parse_pos_def store_tree node_def) (simp add: with_root_def tree_def)
  qed
qed

text \<open>A new array, list or group: in a list it is appended, else the current setting becomes one.\<close>

lemma open_list_effect:
  assumes "pc_parent ctx = Some ip" "setting_at (tree ctx) ip = Some p" "s_type p = CONFIG_TYPE_LIST"
    "type_of_code tc = Some t"
  shows "open_aggregate pos tc t ctx =
     Some (with_root (put_at (tree ctx) ip (set_value (VList (elems p @ [set_source (fst pos) (snd pos) (new_setting None t)])) p))
        (ctx\<lparr>pc_parent := Some (ip @ [length (elems p)])\<rparr>), True)"
proof -
  have p: "setting_at (root (pc_config ctx)) ip = Some p" using assms(2) by (simp add: tree_def)
  define q where "q = set_value (VList (elems p @ [new_setting None t])) p"
  have a: "config_setting_add (Some p) None tc = Some (Some q, Some (length (elems p)))"
    using assms(3,4) by (simp add: config_setting_add_def config_setting_create_def config_list_add_def q_def)
  have q: "setting_at (put_at (tree ctx) ip q) ip = Some q" "elems q = elems p @ [new_setting None t]"
    using put_at_same [OF assms(2)] by (simp_all add: q_def)
  have n: "setting_at (put_at (tree ctx) ip q) (ip @ [length (elems p)]) = Some (new_setting None t)"
    using q by (simp add: setting_at_snoc)
  have "put_at (put_at (tree ctx) ip q) (ip @ [length (elems p)]) x = put_at (tree ctx) ip (set_value (VList (elems p @ [x])) p)" for x
    using put_last [OF q, of x] by (simp add: put_at_put q_def set_value_same)
  moreover have "in_list ctx" using assms(1,3) p by (simp add: in_list_def parent_has_type_def deref_def)
  ultimately show ?thesis using assms(1) p a n
    by (simp add: open_aggregate_def add_to_parent_def capture_parse_pos_def store_tree node_def) (simp add: with_root_def tree_def)
qed

lemma open_plain_effect:
  assumes "pc_parent ctx = Some ip" "setting_at (tree ctx) ip = Some p" "s_type p = CONFIG_TYPE_GROUP"
    "pc_setting ctx = Some jp" "setting_at (tree ctx) jp = Some s"
  shows "open_aggregate pos tc t ctx =
     Some ((with_root (put_at (tree ctx) jp (set_type t s)) ctx)\<lparr>pc_parent := Some jp, pc_setting := None\<rparr>, True)"
  using assms by (simp add: open_aggregate_def in_list_def parent_has_type_def deref_def tree_def store_tree)

lemma close_effect:
  "pc_parent ctx = Some (ip @ [i]) \<Longrightarrow> close_aggregate ctx = Some (ctx\<lparr>pc_parent := Some ip\<rparr>, True)"
  by (cases ip) (simp_all add: close_aggregate_def)

section \<open>The parser's context stays in order\<close>

definition bracket_type :: "bracket \<Rightarrow> ctype" where
  "bracket_type b = (case b of B_array \<Rightarrow> CONFIG_TYPE_ARRAY | B_list \<Rightarrow> CONFIG_TYPE_LIST | B_group \<Rightarrow> CONFIG_TYPE_GROUP)"

definition parents_ok :: "config_setting \<Rightarrow> bracket list \<Rightarrow> nat list \<Rightarrow> bool" where
  "parents_ok s bs p \<longleftrightarrow> length p = length bs \<and>
     (\<forall>k\<le>length bs. \<exists>u. setting_at s (take k p) = Some u \<and> s_type u = bracket_type (innermost (drop (length bs - k) bs)))"

lemma parents_top:
  assumes "parents_ok s bs p"
  obtains u where "setting_at s p = Some u" "s_type u = bracket_type (innermost bs)"
proof -
  have "length p = length bs" using assms by (simp add: parents_ok_def)
  moreover obtain u where "setting_at s (take (length bs) p) = Some u" "s_type u = bracket_type (innermost bs)"
    using assms by (auto simp: parents_ok_def)
  ultimately show ?thesis using that by simp
qed

lemma parents_put:
  assumes "parents_ok s bs p" "q = [] \<Longrightarrow> \<exists>u. setting_at s p = Some u \<and> s_type t = s_type u"
  shows "parents_ok (put_at s (p @ q) t) bs p"
proof -
  have "\<exists>v. setting_at (put_at s (p @ q) t) (take k p) = Some v \<and> s_type v = bracket_type (innermost (drop (length bs - k) bs))"
    if k: "k \<le> length bs" for k
  proof -
    obtain u where u: "setting_at s (take k p) = Some u" "s_type u = bracket_type (innermost (drop (length bs - k) bs))"
      using assms(1) k by (auto simp: parents_ok_def)
    have v: "setting_at (put_at s (p @ q) t) (take k p) = Some (put_at u (drop k p @ q) t)"
      using setting_at_put_prefix [OF u(1), of "drop k p @ q" t] by (simp add: append_assoc [symmetric])
    have "s_type (put_at u (drop k p @ q) t) = s_type u"
    proof (cases "drop k p @ q = []")
      case True
      then show ?thesis using assms(2) u(1) by auto
    qed (simp add: put_at_sels)
    then show ?thesis using u v by auto
  qed
  then show ?thesis using assms(1) by (simp add: parents_ok_def)
qed

lemma parents_open:
  assumes "parents_ok s bs p" "setting_at s (p @ [i]) = Some u" "s_type u = bracket_type b"
  shows "parents_ok s (b # bs) (p @ [i])"
proof -
  have len: "length p = length bs" using assms(1) by (simp add: parents_ok_def)
  have "\<exists>v. setting_at s (take k (p @ [i])) = Some v \<and> s_type v = bracket_type (innermost (drop (length (b # bs) - k) (b # bs)))"
    if "k \<le> length (b # bs)" for k
  proof (cases "k = Suc (length bs)")
    case True
    then show ?thesis using assms len by simp
  next
    case False
    then have k: "k \<le> length bs" using that by simp
    then have "drop (length (b # bs) - k) (b # bs) = drop (length bs - k) bs" by (simp add: Suc_diff_le)
    then show ?thesis using assms(1) k len by (simp add: parents_ok_def)
  qed
  then show ?thesis using len by (simp add: parents_ok_def)
qed

lemma parents_close:
  assumes "parents_ok s (b # bs) q"
  obtains p i where "q = p @ [i]" "parents_ok s bs p"
proof -
  have len: "length q = Suc (length bs)" using assms by (simp add: parents_ok_def)
  then obtain p i where q: "q = p @ [i]" by (cases q rule: rev_cases) auto
  have "\<exists>v. setting_at s (take k p) = Some v \<and> s_type v = bracket_type (innermost (drop (length bs - k) bs))"
    if k: "k \<le> length bs" for k
  proof -
    have "drop (length (b # bs) - k) (b # bs) = drop (length bs - k) bs" "take k q = take k p"
      using k q len by (simp_all add: Suc_diff_le)
    then show ?thesis using assms k unfolding parents_ok_def by (metis le_SucI length_Cons)
  qed
  then show ?thesis using that [OF q] q len by (simp add: parents_ok_def)
qed

definition ctx_ok :: "pmode \<Rightarrow> bracket list \<Rightarrow> parse_context \<Rightarrow> bool" where
  "ctx_ok m bs ctx \<longleftrightarrow> well_typed (tree ctx) \<and> (m = First \<longrightarrow> innermost bs \<noteq> B_group)
     \<and> (m \<in> {Settings, Equals} \<longrightarrow> innermost bs = B_group) \<and>
     (\<exists>p. pc_parent ctx = Some p \<and> parents_ok (tree ctx) bs p \<and>
       (m \<in> {Equals, Value, Str} \<and> innermost bs = B_group \<longrightarrow>
         (\<exists>i s. pc_setting ctx = Some (p @ [i]) \<and> setting_at (tree ctx) (p @ [i]) = Some s \<and> s_type s = CONFIG_TYPE_NONE)))"

definition has_error :: "parse_context \<Rightarrow> bool" where
  "has_error ctx \<longleftrightarrow> error_text (pc_config ctx) \<noteq> None"

definition action_ok :: "(parse_context \<Rightarrow> bool) \<Rightarrow> action \<Rightarrow> bool" where
  "action_ok Q a \<longleftrightarrow>
     (case a of None \<Rightarrow> False
      | Some (ctx, go) \<Rightarrow> if go then Q ctx else well_typed (tree ctx) \<and> has_error ctx)"

definition state_ok :: "pstate \<Rightarrow> bool" where
  "state_ok r \<longleftrightarrow>
     (case r of Go m bs ctx \<Rightarrow> ctx_ok m bs ctx
      | Ret n ctx \<Rightarrow> n \<le> 1 \<and> well_typed (tree ctx) \<and> (n = 1 \<longrightarrow> has_error ctx)
      | Undef \<Rightarrow> False | Deep \<Rightarrow> True)"

definition typed_token :: "nat \<Rightarrow> yystype \<Rightarrow> bool" where
  "typed_token tok v \<longleftrightarrow>
     (if tok = 3 \<or> tok = 4 \<or> tok = 5 then (case v of YIval _ \<Rightarrow> True | _ \<Rightarrow> False)
      else if tok = 6 \<or> tok = 7 then (case v of YLlval _ \<Rightarrow> True | _ \<Rightarrow> False)
      else if tok = 8 then (case v of YFval _ \<Rightarrow> True | _ \<Rightarrow> False)
      else if tok = 9 \<or> tok = 10 then (case v of YSval _ \<Rightarrow> True | _ \<Rightarrow> False)
      else True)"

lemma yyerror_simps [simp]:
  "tree (libconfig_yyerror pos s ctx) = tree ctx" "has_error (libconfig_yyerror pos s ctx)"
  by (auto simp: libconfig_yyerror_def tree_def has_error_def)

lemma syntax_error_ok: "well_typed (tree ctx) \<Longrightarrow> state_ok (syntax_error pos ctx)"
  by (simp add: syntax_error_def state_ok_def)

lemma close_bracket_ok:
  assumes "ctx_ok m (b # bs) ctx"
  shows "state_ok (close_bracket (b # bs) ctx)"
proof -
  obtain p where p: "pc_parent ctx = Some p" "parents_ok (tree ctx) (b # bs) p" "well_typed (tree ctx)"
    using assms by (auto simp: ctx_ok_def)
  from p(2) obtain q i where q: "p = q @ [i]" "parents_ok (tree ctx) bs q" by (rule parents_close)
  then show ?thesis using p
    by (simp add: close_bracket_def close_effect [of ctx q i] act_then_def state_ok_def ctx_ok_def)
qed

text \<open>Editing the parent, or the current setting below it.\<close>

lemma well_typed_source: "well_typed s \<Longrightarrow> well_typed (set_source l f s)"
  by (simp add: well_typed_iff [of "set_source l f s"] well_typed_iff [of s])

lemma parent_edit:
  assumes "well_typed (tree ctx)" "setting_at (tree ctx) p = Some u" "parents_ok (tree ctx) bs p" "well_typed v"
    "s_name v = s_name u" "s_type v = s_type u"
  shows "well_typed (put_at (tree ctx) p v)" "parents_ok (put_at (tree ctx) p v) bs p"
    "setting_at (put_at (tree ctx) p v) p = Some v"
  using assms put_at_well_typed [OF assms(1,2,4)] parents_put [OF assms(3), of "[]" v] put_at_same [OF assms(2)] by auto

lemma setting_edit:
  assumes "well_typed (tree ctx)" "setting_at (tree ctx) (p @ [i]) = Some u" "parents_ok (tree ctx) bs p"
    "innermost bs = B_group" "well_typed v" "s_name v = s_name u"
  shows "well_typed (put_at (tree ctx) (p @ [i]) v)" "parents_ok (put_at (tree ctx) (p @ [i]) v) bs p"
    "setting_at (put_at (tree ctx) (p @ [i]) v) (p @ [i]) = Some v"
proof -
  obtain g where g: "setting_at (tree ctx) p = Some g" "s_type g = CONFIG_TYPE_GROUP"
    using parents_top [OF assms(3)] assms(4) by (auto simp: bracket_type_def)
  show "well_typed (put_at (tree ctx) (p @ [i]) v)"
    by (rule put_at_well_typed [OF assms(1,2,5,6)]) (use g in auto)
  show "parents_ok (put_at (tree ctx) (p @ [i]) v) bs p" by (rule parents_put [OF assms(3)]) simp
  show "setting_at (put_at (tree ctx) (p @ [i]) v) (p @ [i]) = Some v" by (rule put_at_same [OF assms(2)])
qed

lemma none_value: "well_typed s \<Longrightarrow> s_type s = CONFIG_TYPE_NONE \<Longrightarrow> s_value s = VZero \<and> elems s = []"
  using well_typed_iff [of s] by (cases "s_value s") (auto simp: elems_def list_ptr_def)

lemma scalar_well_typed:
  assumes "tag_ok t w" "elems (set_value w s) = []" "t \<noteq> CONFIG_TYPE_NONE"
  shows "well_typed (with_format fmt (set_value w (set_type t s)))" "s_name (with_format fmt (set_value w (set_type t s))) = s_name s"
    "s_type (with_format fmt (set_value w (set_type t s))) = t"
proof -
  have e: "elems (set_value w (set_type t s)) = []" using assms(2) by (simp add: elems_def list_ptr_def)
  then have wt: "well_typed (set_value w (set_type t s))"
    using assms(1) by (auto simp: well_typed_iff [of "set_value w (set_type t s)"])
  then show "well_typed (with_format fmt (set_value w (set_type t s)))"
    using setter_well_typed(6) [OF wt] assms(3) by (simp add: with_format_def split: option.split)
  show "s_name (with_format fmt (set_value w (set_type t s))) = s_name s" "s_type (with_format fmt (set_value w (set_type t s))) = t"
    by (simp_all add: with_format_def config_setting_set_format_def split: option.split)
qed

lemma well_typed_append:
  assumes "well_typed p" "s_type p \<noteq> CONFIG_TYPE_GROUP" "is_aggregate p" "well_typed x" "s_name x = None"
    "s_type p = CONFIG_TYPE_ARRAY \<Longrightarrow> is_scalar (s_type x) \<and> config_vector_checktype p (s_type x)"
  shows "well_typed (set_value (VList (elems p @ [x])) p)"
proof (rule well_typed_set_list [OF assms(3)])
  show "names_ok (s_type p) (elems p @ [x])"
    using assms(1,2,5) well_typed_iff [of p] by (simp add: names_ok_def)
  show "\<forall>y\<in>set (elems p @ [x]). well_typed y" using assms(1,4) well_typed_iff [of p] by auto
  show "s_type p = CONFIG_TYPE_ARRAY \<longrightarrow> scalars (elems p @ [x])"
  proof
    assume a: "s_type p = CONFIG_TYPE_ARRAY"
    have "elems p \<noteq> [] \<longrightarrow> s_type (elems p ! 0) = s_type x"
      using assms(6) [OF a] a by (auto simp: config_vector_checktype_def elems_def split: option.splits if_splits)
    then show "scalars (elems p @ [x])"
      using assms(6) [OF a] assms(1) a well_typed_iff [of p] by (cases "elems p") (auto simp: scalars_def)
  qed
qed

lemma new_list_scalar: "tag_ok t w \<Longrightarrow> is_scalar t \<Longrightarrow> elems (set_value w s) = []"
  by (cases w) (auto simp: elems_def list_ptr_def is_scalar_def)

text \<open>A scalar is stored, or refused by an array of another type.\<close>

lemma put_scalar_ok:
  assumes "ctx_ok m bs ctx" "m \<in> {Value, First, Str}" "sets t w se sp" "tag_ok t w" "is_scalar t"
  shows "action_ok (ctx_ok After bs) (put_scalar pos se sp fmt ctx)"
proof -
  obtain p where p: "pc_parent ctx = Some p" "parents_ok (tree ctx) bs p" "well_typed (tree ctx)"
    using assms(1) by (auto simp: ctx_ok_def)
  obtain u where u: "setting_at (tree ctx) p = Some u" "s_type u = bracket_type (innermost bs)"
    using parents_top [OF p(2)] .
  have wu: "well_typed u" using well_typed_at [OF p(3) u(1)] .
  have t: "t \<noteq> CONFIG_TYPE_NONE" using assms(5) by (auto simp: is_scalar_def)
  show ?thesis
  proof (cases "innermost bs = B_group")
    case True
    then have "m \<in> {Equals, Value, Str}" using assms(1,2) by (auto simp: ctx_ok_def)
    then obtain i s where s: "pc_setting ctx = Some (p @ [i])" "setting_at (tree ctx) (p @ [i]) = Some s"
      "s_type s = CONFIG_TYPE_NONE"
      using assms(1) True p(1) by (auto simp: ctx_ok_def)
    have g: "s_type u = CONFIG_TYPE_GROUP" using u(2) True by (simp add: bracket_type_def)
    note e = scalar_well_typed [OF assms(4) new_list_scalar [OF assms(4,5)] t, of fmt s]
    note ed = setting_edit [OF p(3) s(2) p(2) True e(1,2)]
    show ?thesis
      using put_scalar_plain [OF assms(3) p(1) u(1) g s, of pos fmt] ed p(1) True
      by (auto simp: ctx_ok_def action_ok_def)
  next
    case False
    then have v: "s_type u = CONFIG_TYPE_ARRAY \<or> s_type u = CONFIG_TYPE_LIST"
      using u(2) by (cases "innermost bs") (auto simp: bracket_type_def)
    define x where "x = scalar_setting pos t w fmt"
    have "set_type t (new_setting None t) = new_setting None t" by (simp add: set_type_def new_setting_def)
    then have x: "well_typed x" "s_name x = None" "s_type x = t"
      using scalar_well_typed [OF assms(4) new_list_scalar [OF assms(4,5)] t, of fmt "new_setting None t"]
      by (simp_all add: x_def scalar_setting_def well_typed_source)
    show ?thesis
    proof (cases "config_vector_checktype u t")
      case True
      have "well_typed (set_value (VList (elems u @ [x])) u)"
        by (rule well_typed_append [OF wu]) (use v x True assms(5) in \<open>auto simp: is_aggregate_def\<close>)
      then have "well_typed (put_at (tree ctx) p (set_value (VList (elems u @ [x])) u))"
        "parents_ok (put_at (tree ctx) p (set_value (VList (elems u @ [x])) u)) bs p"
        using parent_edit [OF p(3) u(1) p(2)] by simp_all
      then show ?thesis
        using put_scalar_vector [OF assms(3) p(1) u(1) v, of pos fmt] True p(1) False
        by (simp add: ctx_ok_def action_ok_def x_def)
    next
      case bad: False
      show ?thesis
        using put_scalar_vector [OF assms(3) p(1) u(1) v, of pos fmt] bad p(3) by (simp add: action_ok_def)
    qed
  qed
qed

lemma act_then_ok: "action_ok Q a \<Longrightarrow> (\<And>ctx'. Q ctx' \<Longrightarrow> state_ok (k ctx')) \<Longrightarrow> state_ok (act_then a k)"
  by (auto simp: action_ok_def act_then_def state_ok_def split: option.splits prod.splits if_splits)

lemma scalar_action_ok:
  assumes "ctx_ok m bs ctx" "m \<in> {Value, First}" "3 \<le> tok" "tok \<le> 8" "typed_token tok v"
  shows "action_ok (ctx_ok After bs) (scalar_action pos tok v ctx)"
proof -
  have m: "m \<in> {Value, First, Str}" using assms(2) by auto
  note ok = put_scalar_ok [OF assms(1) m]
  have "tok \<in> {3, 4, 5, 6, 7, 8}" using assms(3,4) by auto
  then show ?thesis
    using assms(5)
    by (elim insertE emptyE)
      (simp_all add: scalar_action_def typed_token_def bool_value_def int_value_def int64_value_def float_value_def
        is_scalar_def ok [OF parser_setters(1)] ok [OF parser_setters(2)] ok [OF parser_setters(3)]
        ok [OF parser_setters(4)] split: yystype.splits)
qed

lemma string_action_ok:
  assumes "ctx_ok Str bs ctx"
  shows "action_ok (ctx_ok After bs) (string_action pos ctx)"
proof -
  obtain c s where c: "parsectx_take_string ctx = (c, s)" by fastforce
  have "ctx_ok Str bs c"
    using assms c by (auto simp: parsectx_take_string_def strbuf_release_def ctx_ok_def)
  moreover have "tag_ok CONFIG_TYPE_STRING (string_value s)" by (simp add: string_value_def split: option.split)
  ultimately show ?thesis
    using put_scalar_ok [OF _ _ parser_setters(5), of Str bs c s pos None] by (simp add: string_action_def c is_scalar_def)
qed

lemma append_action_ok:
  assumes "ctx_ok m bs ctx" "m \<in> {Value, First, Str}" "typed_token 9 v"
  shows "action_ok (ctx_ok Str bs) (append_action v ctx)"
proof -
  obtain s where s: "v = YSval s" using assms(3) by (cases v) (simp_all add: typed_token_def)
  have "m = First \<Longrightarrow> innermost bs \<noteq> B_group" using assms(1) by (simp add: ctx_ok_def)
  then show ?thesis using assms(1,2) s
    by (auto simp: append_action_def action_ok_def parsectx_append_string_def ctx_ok_def)
qed

lemma add_setting_ok:
  assumes "ctx_ok Settings bs ctx" "innermost bs = B_group" "typed_token 10 v"
  shows "action_ok (ctx_ok Equals bs) (add_setting pos v ctx)"
proof -
  obtain nm where v: "v = YSval nm" using assms(3) by (cases v) (simp_all add: typed_token_def)
  obtain p where p: "pc_parent ctx = Some p" "parents_ok (tree ctx) bs p" "well_typed (tree ctx)"
    using assms(1) by (auto simp: ctx_ok_def)
  obtain u where u: "setting_at (tree ctx) p = Some u" "s_type u = bracket_type (innermost bs)"
    using parents_top [OF p(2)] .
  have g: "s_type u = CONFIG_TYPE_GROUP" using u(2) assms(2) by (simp add: bracket_type_def)
  define x where "x = set_source (fst pos) (snd pos) (new_setting (Some nm) CONFIG_TYPE_NONE)"
  show ?thesis
  proof (cases "config_validate_name nm \<and> config_setting_get_member u nm = None")
    case True
    have wu: "well_typed u" using well_typed_at [OF p(3) u(1)] .
    have wg: "wf_group u" using wu g by (simp add: wf_group_def well_typed_def)
    have "member_of u nm = None" using True by (simp add: member_of_def)
    then have "members u nm = None" using member_of_members [OF wg, of nm] True by simp
    from names_ok_add_member [OF wf_groupD(1) [OF wg] conjunct1 [OF True] this]
    have "names_ok CONFIG_TYPE_GROUP (elems u @ [x])"
      by (simp add: names_ok_map x_def set_source_def)
    then have "well_typed (set_value (VList (elems u @ [x])) u)"
      using wu g well_typed_iff [of u] well_typed_source [of "new_setting (Some nm) CONFIG_TYPE_NONE"]
      by (intro well_typed_set_list) (auto simp: is_aggregate_def x_def)
    then have "ctx_ok Equals bs (with_root (put_at (tree ctx) p (set_value (VList (elems u @ [x])) u))
        (ctx\<lparr>pc_setting := Some (p @ [length (elems u)])\<rparr>))"
      using parent_edit [OF p(3) u(1) p(2), of "set_value (VList (elems u @ [x])) u"] p(1) assms(2)
      by (auto simp: ctx_ok_def setting_at_snoc x_def set_source_def)
    then show ?thesis
      using True add_setting_effect [OF p(1) u(1) g, of pos nm] by (simp add: v action_ok_def x_def)
  next
    case False
    then show ?thesis using add_setting_effect [OF p(1) u(1) g, of pos nm] p(3) by (auto simp: v action_ok_def)
  qed
qed

lemma open_bracket_ok:
  assumes "ctx_ok m bs ctx" "m \<in> {Value, First}" "innermost bs \<noteq> B_array" "type_of_code tc = Some t"
    "t = bracket_type b" "m' = (if b = B_group then Settings else First)"
  shows "state_ok (open_bracket b tc t m' pos bs ctx)"
proof -
  obtain p where p: "pc_parent ctx = Some p" "parents_ok (tree ctx) bs p" "well_typed (tree ctx)"
    using assms(1) by (auto simp: ctx_ok_def)
  obtain u where u: "setting_at (tree ctx) p = Some u" "s_type u = bracket_type (innermost bs)"
    using parents_top [OF p(2)] .
  have "action_ok (ctx_ok m' (b # bs)) (open_aggregate pos tc t ctx)"
  proof (cases "innermost bs = B_list")
    case True
    then have l: "s_type u = CONFIG_TYPE_LIST" using u(2) by (simp add: bracket_type_def)
    define x where "x = set_source (fst pos) (snd pos) (new_setting None t)"
    have x: "well_typed x" "s_name x = None" "s_type x = t" by (simp_all add: x_def well_typed_source)
    define q where "q = set_value (VList (elems u @ [x])) u"
    have "well_typed q" unfolding q_def
      by (rule well_typed_append [OF well_typed_at [OF p(3) u(1)]]) (use l x in \<open>simp_all add: is_aggregate_def\<close>)
    note ed = parent_edit [OF p(3) u(1) p(2) this]
    have c: "setting_at (put_at (tree ctx) p q) (p @ [length (elems u)]) = Some x"
      using ed(3) by (simp add: setting_at_snoc q_def)
    have "parents_ok (put_at (tree ctx) p q) (b # bs) (p @ [length (elems u)])"
      by (rule parents_open [OF ed(2) c]) (use x assms(5) in \<open>simp_all add: q_def\<close>)
    then show ?thesis
      using open_list_effect [OF p(1) u(1) l assms(4), of pos] ed(1) assms(6)
      by (auto simp: action_ok_def ctx_ok_def q_def x_def)
  next
    case False
    then have g: "innermost bs = B_group" using assms(3) by (cases "innermost bs") auto
    then have gu: "s_type u = CONFIG_TYPE_GROUP" using u(2) by (simp add: bracket_type_def)
    have "m \<in> {Equals, Value, Str}" using assms(1,2) g by (auto simp: ctx_ok_def)
    then obtain i s where s: "pc_setting ctx = Some (p @ [i])" "setting_at (tree ctx) (p @ [i]) = Some s"
      "s_type s = CONFIG_TYPE_NONE"
      using assms(1) g p(1) by (auto simp: ctx_ok_def)
    have n: "s_value s = VZero" "elems s = []" using none_value [OF well_typed_at [OF p(3) s(2)] s(3)] by auto
    have "well_typed (set_type t s)" using n by (auto simp: well_typed_iff [of "set_type t s"])
    note ed = setting_edit [OF p(3) s(2) p(2) g this]
    have "parents_ok (put_at (tree ctx) (p @ [i]) (set_type t s)) (b # bs) (p @ [i])"
      by (rule parents_open [OF ed(2) ed(3)]) (use assms(5) in simp_all)
    then show ?thesis
      using open_plain_effect [OF p(1) u(1) gu s(1,2), of pos tc t] ed(1) assms(6)
      by (auto simp: action_ok_def ctx_ok_def)
  qed
  then have "state_ok (act_then (open_aggregate pos tc t ctx) (Go m' (b # bs)))"
    by (rule act_then_ok) (simp add: state_ok_def)
  then show ?thesis by (simp add: open_bracket_def state_ok_def)
qed

lemma settings_token_ok:
  assumes "ctx_ok m bs ctx" "m \<in> {Settings, After}" "innermost bs = B_group" "typed_token tok v"
  shows "state_ok (settings_token pos tok v bs ctx)"
proof -
  have c: "ctx_ok Settings bs ctx" using assms(1,3) by (auto simp: ctx_ok_def)
  have wt: "well_typed (tree ctx)" using c by (simp add: ctx_ok_def)
  have cl: "state_ok (close_bracket bs ctx)" if "bs \<noteq> []"
    using that close_bracket_ok [of m "hd bs" "tl bs" ctx] assms(1) by simp
  have ad: "state_ok (act_then (add_setting pos v ctx) (Go Equals bs))" if "tok = 10"
    by (rule act_then_ok [OF add_setting_ok [OF c assms(3)]]) (use assms(4) that in \<open>simp_all add: state_ok_def\<close>)
  show ?thesis using cl ad wt by (simp add: settings_token_def syntax_error_ok) (simp add: state_ok_def)
qed

lemma value_token_ok:
  assumes "ctx_ok m bs ctx" "m \<in> {Value, First}" "typed_token tok v"
  shows "state_ok (value_token pos tok v bs ctx)"
proof -
  have wt: "well_typed (tree ctx)" using assms(1) by (simp add: ctx_ok_def)
  have sc: "state_ok (act_then (scalar_action pos tok v ctx) (Go After bs))" if "3 \<le> tok" "tok \<le> 8"
    by (rule act_then_ok [OF scalar_action_ok [OF assms(1,2) that assms(3)]]) (simp add: state_ok_def)
  have st: "state_ok (act_then (append_action v ctx) (Go Str bs))" if "tok = 9"
    by (rule act_then_ok [OF append_action_ok [OF assms(1)]]) (use assms(2,3) that in \<open>auto simp: state_ok_def\<close>)
  have op: "state_ok (open_bracket b tc t m' pos bs ctx)"
    if "(b, tc, t, m') \<in> {(B_array, 7, CONFIG_TYPE_ARRAY, First), (B_list, 8, CONFIG_TYPE_LIST, First), (B_group, 1, CONFIG_TYPE_GROUP, Settings)}"
      "innermost bs \<noteq> B_array" for b tc t m'
    by (rule open_bracket_ok [OF assms(1,2) that(2)]) (use that(1) in \<open>auto simp: type_of_code_def bracket_type_def\<close>)
  show ?thesis using sc st op wt by (simp add: value_token_def syntax_error_ok)
qed

lemma token_step_ok:
  assumes "ctx_ok m bs ctx" "typed_token tok v"
  shows "state_ok (token_step pos tok v m bs ctx)"
proof -
  have wt: "well_typed (tree ctx)" using assms(1) by (simp add: ctx_ok_def)
  have after: "state_ok (after_token pos tok v bs c)" if c: "ctx_ok After bs c" for c
  proof -
    have w: "well_typed (tree c)" using c by (simp add: ctx_ok_def)
    have g: "ctx_ok Settings bs c" if "innermost bs = B_group" using c that by (auto simp: ctx_ok_def)
    have v: "ctx_ok Value bs c" if "innermost bs \<noteq> B_group" using c that by (auto simp: ctx_ok_def)
    have cl: "state_ok (close_bracket bs c)" if "innermost bs \<noteq> B_group"
      using that close_bracket_ok [of After "hd bs" "tl bs" c] c by (cases bs) simp_all
    show ?thesis
      using settings_token_ok [OF c _ _ assms(2), of pos] g v cl w
      by (auto simp: after_token_def syntax_error_ok state_ok_def [of "Go _ _ _"])
  qed
  show ?thesis
  proof (cases m)
    case Settings
    then have "innermost bs = B_group" using assms(1) by (simp add: ctx_ok_def)
    then show ?thesis using settings_token_ok [OF assms(1) _ _ assms(2)] Settings by (simp add: token_step_def)
  next
    case Equals
    then have "ctx_ok Value bs ctx" using assms(1) by (auto simp: ctx_ok_def)
    then show ?thesis using Equals wt by (simp add: token_step_def syntax_error_ok) (simp add: state_ok_def)
  next
    case Value
    then show ?thesis using value_token_ok [OF assms(1) _ assms(2)] by (simp add: token_step_def)
  next
    case First
    then have "innermost bs \<noteq> B_group" using assms(1) by (simp add: ctx_ok_def)
    then have "state_ok (close_bracket bs ctx)" using close_bracket_ok [of m "hd bs" "tl bs" ctx] assms(1) by (cases bs) simp_all
    then show ?thesis using value_token_ok [OF assms(1) _ assms(2)] First by (simp add: token_step_def)
  next
    case After
    then show ?thesis using after assms(1) by (simp add: token_step_def)
  next
    case Str
    have s: "state_ok (act_then (string_action pos ctx) (after_token pos tok v bs))"
      by (rule act_then_ok [OF string_action_ok after]) (use assms(1) Str in simp_all)
    have "state_ok (act_then (append_action v ctx) (Go Str bs))" if "tok = 9"
      by (rule act_then_ok [OF append_action_ok [OF assms(1)]]) (use assms(2) Str that in \<open>simp_all add: state_ok_def\<close>)
    then show ?thesis using s Str by (simp add: token_step_def)
  qed
qed

section \<open>Every parse ends\<close>

definition typed_lexed :: "lexed \<Rightarrow> bool" where
  "typed_lexed x \<longleftrightarrow>
     (case lx_value x of Some v \<Rightarrow> typed_token (lex_token x) v | None \<Rightarrow> lex_token x < 3 \<or> 10 < lex_token x)"

text \<open>The tokens that will be read, and how many of them open a bracket.\<close>

fun token_at :: "'l lexer \<Rightarrow> nat \<Rightarrow> 'l \<Rightarrow> lexed" where
  "token_at lx 0 l = snd (yylex lx l)"
| "token_at lx (Suc k) l = token_at lx k (fst (yylex lx l))"

definition opener :: "nat \<Rightarrow> bool" where
  "opener tok \<longleftrightarrow> tok = 13 \<or> tok = 15 \<or> tok = 18"

definition openers :: "'l lexer \<Rightarrow> nat \<Rightarrow> 'l \<Rightarrow> nat" where
  "openers lx k l = length (filter opener (map (\<lambda>i. lex_token (token_at lx i l)) [0..<k]))"

lemma openers_Suc:
  "openers lx (Suc k) l = (if opener (lex_token (token_at lx 0 l)) then 1 else 0) + openers lx k (fst (yylex lx l))"
proof -
  have "[0..<Suc k] = 0 # map Suc [0..<k]" by (simp add: map_Suc_upt upt_conv_Cons)
  then show ?thesis by (simp add: openers_def comp_def)
qed

lemma act_then_Go: "act_then a k = Go m bs ctx \<Longrightarrow> \<exists>c. k c = Go m bs ctx"
  "act_then a k = Deep \<Longrightarrow> \<exists>c. k c = Deep"
  by (auto simp: act_then_def split: option.splits prod.splits if_splits)

lemma token_step_depth:
  "token_step pos tok v m bs ctx = Go m' bs' ctx' \<Longrightarrow> length bs' \<le> length bs + (if opener tok then 1 else 0) \<and> tok \<noteq> 0"
  "token_step pos tok v m bs ctx = Deep \<Longrightarrow> opener tok \<and> length bs = MAX_NEST"
  by (auto simp: token_step_def settings_token_def value_token_def after_token_def close_bracket_def open_bracket_def
      syntax_error_def opener_def closer_def split: pmode.splits if_splits bracket.splits dest!: act_then_Go)

lemma ctx_ok_lex_errors: "ctx_ok m bs ctx \<Longrightarrow> ctx_ok m bs (lex_errors x ctx)"
  by (auto simp: ctx_ok_def lex_errors_def tree_def split: option.splits)

lemma ref_parse_ends:
  assumes "ctx_ok m bs ctx" "lex_token (token_at lx k l) = 0" "\<forall>i\<le>k. typed_lexed (token_at lx i l)"
    "length bs + openers lx k l \<le> MAX_NEST"
  shows "\<exists>l' n ctx'. ref_parse lx (Suc k) l v (Go m bs ctx) = (l', Ret n ctx') \<and> state_ok (Ret n ctx')"
  using assms
proof (induction k arbitrary: l v m bs ctx)
  case (0 l v m bs ctx)
  obtain l' x where x: "yylex lx l = (l', x)" by fastforce
  define v' where "v' = (case lx_value x of None \<Rightarrow> v | Some w \<Rightarrow> w)"
  define r where "r = token_step (yyget_lineno lx l', lex_filename lx l') (lex_token x) v' m bs (lex_errors x ctx)"
  have t: "lex_token x = 0" using "0.prems"(2) x by simp
  have "state_ok r" unfolding r_def
    by (rule token_step_ok [OF ctx_ok_lex_errors [OF "0.prems"(1)]]) (simp add: t typed_token_def)
  moreover have "r \<noteq> Go m' bs' c" "r \<noteq> Deep" for m' bs' c
    using token_step_depth t unfolding r_def by (fastforce simp: opener_def)+
  ultimately obtain n c where "r = Ret n c" "state_ok (Ret n c)" by (cases r) (auto simp: state_ok_def)
  then show ?case using x by (simp add: Let_def v'_def r_def)
next
  case (Suc k l v m bs ctx)
  obtain l' x where x: "yylex lx l = (l', x)" by fastforce
  define v' where "v' = (case lx_value x of None \<Rightarrow> v | Some w \<Rightarrow> w)"
  define r where "r = token_step (yyget_lineno lx l', lex_filename lx l') (lex_token x) v' m bs (lex_errors x ctx)"
  have ty: "typed_lexed x" using Suc.prems(3) x by (metis le0 snd_conv token_at.simps(1))
  have "typed_token (lex_token x) v'"
    using ty by (auto simp: v'_def typed_lexed_def typed_token_def split: option.splits)
  then have ok: "state_ok r" unfolding r_def
    by (rule token_step_ok [OF ctx_ok_lex_errors [OF Suc.prems(1)]])
  have o1: "length bs + (if opener (lex_token x) then 1 else 0) + openers lx k l' \<le> MAX_NEST"
    using Suc.prems(4) x by (simp add: openers_Suc)
  have step: "ref_parse lx (Suc (Suc k)) l v (Go m bs ctx) = ref_parse lx (Suc k) l' v' r"
    using x by (simp add: Let_def v'_def r_def)
  show ?case
  proof (cases r)
    case (Go m' bs' c)
    have "length bs' \<le> length bs + (if opener (lex_token x) then 1 else 0)"
      using token_step_depth(1) Go unfolding r_def by blast
    then have "length bs' + openers lx k l' \<le> MAX_NEST" using o1 by simp
    moreover have "\<forall>i\<le>k. typed_lexed (token_at lx i l')" using Suc.prems(3) x by (metis Suc_le_mono fst_conv token_at.simps(2))
    ultimately show ?thesis
      using Suc.IH [of m' bs' c l' v'] Suc.prems(2) x ok Go step by (simp add: state_ok_def [of "Go _ _ _"])
  next
    case (Ret n c)
    then show ?thesis using step ok by simp
  next
    case Undef
    then show ?thesis using ok by (simp add: state_ok_def)
  next
    case Deep
    then show ?thesis using token_step_depth(2) o1 unfolding r_def by fastforce
  qed
qed

end
