(* ===== verification/Ast.thy ===== *)
theory Ast
  imports ParseTree
begin

text \<open>
  The language of configuration files: abstract syntax, the tokens that spell
  it, the setting tree it denotes, and the proof that the parser's reference
  builds this tree, positions apart, from these tokens.
\<close>

section \<open>Abstract syntax\<close>

datatype separator = Sep_none | Sep_semicolon | Sep_comma

text \<open>Integers carry whether they are hexadecimal; a string is a sequence of adjacent literals.\<close>

datatype ast =
    ABool word32 | AInt bool word32 | AInt64 bool word64 | AFloat cdouble | AString "string list"
  | AArray "ast list" | AList "ast list" | AGroup "member list"
  and member = Member string ast separator

type_synonym token = "nat \<times> yystype option"

fun commas :: "token list list \<Rightarrow> token list" where
  "commas [] = []"
| "commas [ts] = ts"
| "commas (ts # us # r) = ts @ (17, None) # commas (us # r)"

definition sep_toks :: "separator \<Rightarrow> token list" where
  "sep_toks s = (case s of Sep_none \<Rightarrow> [] | Sep_semicolon \<Rightarrow> [(20, None)] | Sep_comma \<Rightarrow> [(17, None)])"

fun value_toks :: "ast \<Rightarrow> token list" and member_toks :: "member \<Rightarrow> token list" where
  "value_toks (ABool i) = [(3, Some (YIval i))]"
| "value_toks (AInt hex i) = [(if hex then 5 else 4, Some (YIval i))]"
| "value_toks (AInt64 hex i) = [(if hex then 7 else 6, Some (YLlval i))]"
| "value_toks (AFloat d) = [(8, Some (YFval d))]"
| "value_toks (AString ps) = map (\<lambda>p. (9, Some (YSval p))) ps"
| "value_toks (AArray xs) = (13, None) # commas (map value_toks xs) @ [(14, None)]"
| "value_toks (AList xs) = (15, None) # commas (map value_toks xs) @ [(16, None)]"
| "value_toks (AGroup ms) = (18, None) # concat (map member_toks ms) @ [(19, None)]"
| "member_toks (Member nm a s) = (10, Some (YSval nm)) # (11, None) # value_toks a @ sep_toks s"

section \<open>The tree it denotes\<close>

definition list_value :: "config_setting list \<Rightarrow> config_setting config_value" where
  "list_value xs = (if xs = [] then VZero else VList xs)"

fun denote :: "string option \<Rightarrow> ast \<Rightarrow> config_setting" and denote_member :: "member \<Rightarrow> config_setting" where
  "denote nm (ABool i) = Setting nm CONFIG_TYPE_BOOL 0 (VIval i) None 0 None"
| "denote nm (AInt hex i) = Setting nm CONFIG_TYPE_INT (if hex then CONFIG_FORMAT_HEX else CONFIG_FORMAT_DEFAULT) (VIval i) None 0 None"
| "denote nm (AInt64 hex i) = Setting nm CONFIG_TYPE_INT64 (if hex then CONFIG_FORMAT_HEX else CONFIG_FORMAT_DEFAULT) (VLlval i) None 0 None"
| "denote nm (AFloat d) = Setting nm CONFIG_TYPE_FLOAT 0 (VFval d) None 0 None"
| "denote nm (AString ps) = Setting nm CONFIG_TYPE_STRING 0 (VSval (concat ps)) None 0 None"
| "denote nm (AArray xs) = Setting nm CONFIG_TYPE_ARRAY 0 (list_value (map (denote None) xs)) None 0 None"
| "denote nm (AList xs) = Setting nm CONFIG_TYPE_LIST 0 (list_value (map (denote None) xs)) None 0 None"
| "denote nm (AGroup ms) = Setting nm CONFIG_TYPE_GROUP 0 (list_value (map denote_member ms)) None 0 None"
| "denote_member (Member nm a s) = denote (Some nm) a"

text \<open>A tree without its positions in the source.\<close>

fun erase :: "config_setting \<Rightarrow> config_setting" where
  "erase (Setting n t f v h l fl) =
     Setting n t f
       (case v of VZero \<Rightarrow> VZero | VIval i \<Rightarrow> VIval i | VLlval i \<Rightarrow> VLlval i | VFval d \<Rightarrow> VFval d | VSval s \<Rightarrow> VSval s
        | VList xs \<Rightarrow> VList (map erase xs)) h 0 None"

section \<open>Well-formed syntax\<close>

definition ast_type :: "ast \<Rightarrow> ctype" where
  "ast_type a =
     (case a of ABool _ \<Rightarrow> CONFIG_TYPE_BOOL | AInt _ _ \<Rightarrow> CONFIG_TYPE_INT | AInt64 _ _ \<Rightarrow> CONFIG_TYPE_INT64
      | AFloat _ \<Rightarrow> CONFIG_TYPE_FLOAT | AString _ \<Rightarrow> CONFIG_TYPE_STRING | AArray _ \<Rightarrow> CONFIG_TYPE_ARRAY
      | AList _ \<Rightarrow> CONFIG_TYPE_LIST | AGroup _ \<Rightarrow> CONFIG_TYPE_GROUP)"

fun member_name :: "member \<Rightarrow> string" where
  "member_name (Member nm a s) = nm"

definition good_names :: "string list \<Rightarrow> bool" where
  "good_names ns \<longleftrightarrow> distinct ns \<and> list_all config_validate_name ns"

fun wf_ast :: "ast \<Rightarrow> bool" and wf_member :: "member \<Rightarrow> bool" where
  "wf_ast (ABool i) = True"
| "wf_ast (AInt hex i) = True"
| "wf_ast (AInt64 hex i) = True"
| "wf_ast (AFloat d) = True"
| "wf_ast (AString ps) = (ps \<noteq> [])"
| "wf_ast (AArray xs) =
     (list_all wf_ast xs \<and> list_all (\<lambda>a. is_scalar (ast_type a) \<and> ast_type a = ast_type (hd xs)) xs)"
| "wf_ast (AList xs) = list_all wf_ast xs"
| "wf_ast (AGroup ms) = (list_all wf_member ms \<and> good_names (map member_name ms))"
| "wf_member (Member nm a s) = wf_ast a"

text \<open>How deep brackets are nested.\<close>

definition max_list :: "nat list \<Rightarrow> nat" where
  "max_list xs = foldr max xs 0"

fun ast_depth :: "ast \<Rightarrow> nat" and member_depth :: "member \<Rightarrow> nat" where
  "ast_depth (AArray xs) = Suc (max_list (map ast_depth xs))"
| "ast_depth (AList xs) = Suc (max_list (map ast_depth xs))"
| "ast_depth (AGroup ms) = Suc (max_list (map member_depth ms))"
| "ast_depth _ = 0"
| "member_depth (Member nm a s) = ast_depth a"

lemma max_list_ge: "x \<in> set xs \<Longrightarrow> x \<le> max_list xs"
  by (induction xs) (auto simp: max_list_def)

section \<open>Feeding tokens to the reference\<close>

type_synonym pos_token = "(nat \<times> string option) \<times> nat \<times> yystype"

fun feed :: "pos_token list \<Rightarrow> pstate \<Rightarrow> pstate" where
  "feed ((pos, tok, v) # ts) (Go m bs ctx) = feed ts (token_step pos tok v m bs ctx)"
| "feed ts r = r"

definition spells :: "pos_token list \<Rightarrow> token list \<Rightarrow> bool" where
  "spells pts ts \<longleftrightarrow> list_all2 (\<lambda>(pos, tok, v) (t, w). tok = t \<and> (case w of None \<Rightarrow> True | Some u \<Rightarrow> v = u)) pts ts"

lemma spells_simps [simp]:
  "spells pts [] \<longleftrightarrow> pts = []"
  "spells pts ((t, w) # ts) \<longleftrightarrow> (\<exists>pos v r. pts = (pos, t, v) # r \<and> (case w of None \<Rightarrow> True | Some u \<Rightarrow> v = u) \<and> spells r ts)"
  "spells pts (us @ ts) \<longleftrightarrow> (\<exists>p q. pts = p @ q \<and> spells p us \<and> spells q ts)"
  by (auto simp: spells_def list_all2_Cons2 list_all2_append2 dest: list_all2_lengthD)

section \<open>A place for a value\<close>

text \<open>
  \<open>f\<close> is the whole tree as a function of the value to come, which will stand at
  \<open>q\<close>.
\<close>

definition hole :: "(config_setting \<Rightarrow> config_setting) \<Rightarrow> nat list \<Rightarrow> bool" where
  "hole f q \<longleftrightarrow> (\<forall>y. setting_at (f y) q = Some y \<and> (\<forall>z. put_at (f y) q z = f z))"

definition append_hole :: "config_setting \<Rightarrow> nat list \<Rightarrow> config_setting \<Rightarrow> config_setting \<Rightarrow> config_setting" where
  "append_hole r p u x = put_at r p (set_value (VList (elems u @ [x])) u)"

definition blank :: "string option \<Rightarrow> ctype \<Rightarrow> config_setting \<Rightarrow> bool" where
  "blank nm t s \<longleftrightarrow> erase s = Setting nm t 0 VZero None 0 None"

definition slot :: "bracket list \<Rightarrow> parse_context \<Rightarrow> nat list \<Rightarrow> nat \<Rightarrow> string option \<Rightarrow> (config_setting \<Rightarrow> config_setting) \<Rightarrow> bool" where
  "slot bs ctx p i nm f \<longleftrightarrow> pc_parent ctx = Some p \<and> hole f (p @ [i]) \<and>
     (\<exists>u. setting_at (tree ctx) p = Some u \<and> s_type u = bracket_type (innermost bs) \<and>
       (if innermost bs = B_group
        then \<exists>s. pc_setting ctx = Some (p @ [i]) \<and> tree ctx = f s \<and> blank nm CONFIG_TYPE_NONE s
        else nm = None \<and> i = length (elems u) \<and> f = append_hole (tree ctx) p u))"

lemma append_hole_is_hole:
  assumes "setting_at r p = Some u"
  shows "hole (append_hole r p u) (p @ [length (elems u)])"
proof -
  have "put_at (append_hole r p u y) (p @ [length (elems u)]) z = append_hole r p u z" for y z
    using put_last [OF put_at_same [OF assms, of "set_value (VList (elems u @ [y])) u"], of "elems u" y z]
    by (simp add: append_hole_def put_at_put set_value_same)
  moreover have "setting_at (append_hole r p u y) (p @ [length (elems u)]) = Some y" for y
    using put_at_same [OF assms] by (simp add: append_hole_def setting_at_snoc)
  ultimately show ?thesis by (simp add: hole_def)
qed

lemma blank_sels:
  "blank nm t s \<Longrightarrow> s_type s = t \<and> s_name s = nm \<and> s_format s = 0 \<and> s_hook s = None \<and> s_value s = VZero \<and> elems s = []"
  by (cases s) (auto simp: blank_def elems_def list_ptr_def split: config_value.splits)

lemma with_root_setting [simp]:
  "with_root r (ctx\<lparr>pc_setting := y\<rparr>) = (with_root r ctx)\<lparr>pc_setting := y\<rparr>"
  "with_root r (ctx\<lparr>pc_parent := z\<rparr>) = (with_root r ctx)\<lparr>pc_parent := z\<rparr>"
  "with_root r (ctx\<lparr>pc_string := w\<rparr>) = (with_root r ctx)\<lparr>pc_string := w\<rparr>"
  by (simp_all add: with_root_def)

section \<open>Scalars\<close>

definition fmt_of :: "int option \<Rightarrow> int" where
  "fmt_of fmt = (case fmt of None \<Rightarrow> 0 | Some f \<Rightarrow> f)"

definition good_format :: "ctype \<Rightarrow> int option \<Rightarrow> bool" where
  "good_format t fmt \<longleftrightarrow>
     (case fmt of None \<Rightarrow> True
      | Some f \<Rightarrow> t \<in> {CONFIG_TYPE_INT, CONFIG_TYPE_INT64} \<and> f \<in> {CONFIG_FORMAT_DEFAULT, CONFIG_FORMAT_HEX})"

lemma with_format_eq:
  "good_format (s_type s) fmt \<Longrightarrow> with_format fmt s = (case fmt of None \<Rightarrow> s | Some f \<Rightarrow> set_format f s)"
  by (auto simp: with_format_def good_format_def config_setting_set_format_def CONFIG_FORMAT_DEFAULT_def CONFIG_FORMAT_HEX_def
      split: option.split)

lemma erase_scalar:
  assumes "tag_ok t w" "is_scalar t" "good_format t fmt" "blank nm t' s"
  shows "erase (set_source l fl (with_format fmt (set_value w (set_type t s)))) = Setting nm t (fmt_of fmt) w None 0 None"
    "erase (with_format fmt (set_value w (set_type t s))) = Setting nm t (fmt_of fmt) w None 0 None"
proof -
  have w: "(case w of VZero \<Rightarrow> VZero | VIval i \<Rightarrow> VIval i | VLlval i \<Rightarrow> VLlval i | VFval d \<Rightarrow> VFval d | VSval s \<Rightarrow> VSval s
        | VList xs \<Rightarrow> VList (map erase xs)) = w"
    using assms(1,2) by (cases w) (auto simp: is_scalar_def)
  have f: "with_format fmt (set_value w (set_type t s)) =
      (case fmt of None \<Rightarrow> set_value w (set_type t s) | Some f \<Rightarrow> set_format f (set_value w (set_type t s)))"
    by (rule with_format_eq) (use assms(3) in simp)
  show "erase (set_source l fl (with_format fmt (set_value w (set_type t s)))) = Setting nm t (fmt_of fmt) w None 0 None"
    "erase (with_format fmt (set_value w (set_type t s))) = Setting nm t (fmt_of fmt) w None 0 None"
    unfolding f using blank_sels [OF assms(4)] w
    by (simp_all add: fmt_of_def set_field_defs split: option.split)
qed

lemma blank_new: "blank nm t (new_setting nm t)" "blank nm t (set_source l fl (new_setting nm t))"
  by (simp_all add: blank_def new_setting_def set_source_def)

lemma new_set_type: "set_type t (new_setting nm t) = new_setting nm t"
  by (simp add: set_type_def new_setting_def)

definition admits :: "bracket list \<Rightarrow> parse_context \<Rightarrow> nat list \<Rightarrow> ctype \<Rightarrow> bool" where
  "admits bs ctx p t \<longleftrightarrow>
     (innermost bs = B_array \<longrightarrow> is_scalar t \<and> (\<exists>u. setting_at (tree ctx) p = Some u \<and> config_vector_checktype u t))"

lemma put_scalar_slot:
  assumes "slot bs ctx p i nm f" "admits bs ctx p t" "sets t w se sp" "tag_ok t w" "is_scalar t" "good_format t fmt"
  shows "\<exists>x. put_scalar pos se sp fmt ctx = Some (with_root (f x) ctx, True) \<and> erase x = Setting nm t (fmt_of fmt) w None 0 None"
proof -
  obtain u where u: "pc_parent ctx = Some p" "setting_at (tree ctx) p = Some u" "s_type u = bracket_type (innermost bs)"
    "hole f (p @ [i])"
    using assms(1) by (auto simp: slot_def)
  show ?thesis
  proof (cases "innermost bs = B_group")
    case True
    then obtain s where s: "pc_setting ctx = Some (p @ [i])" "tree ctx = f s" "blank nm CONFIG_TYPE_NONE s"
      using assms(1) by (auto simp: slot_def)
    have s2: "setting_at (tree ctx) (p @ [i]) = Some s" "s_type s = CONFIG_TYPE_NONE"
      "\<And>z. put_at (tree ctx) (p @ [i]) z = f z"
      using u(4) s(2) blank_sels [OF s(3)] by (auto simp: hole_def)
    have "s_type u = CONFIG_TYPE_GROUP" using u(3) True by (simp add: bracket_type_def)
    from put_scalar_plain [OF assms(3) u(1,2) this s(1) s2(1,2), of pos fmt] show ?thesis
      using erase_scalar(2) [OF assms(4,5,6) s(3)] s2(3) by auto
  next
    case False
    then have v: "s_type u = CONFIG_TYPE_ARRAY \<or> s_type u = CONFIG_TYPE_LIST"
      using u(3) by (cases "innermost bs") (auto simp: bracket_type_def)
    have f: "nm = None" "f = append_hole (tree ctx) p u"
      using assms(1) False u(2) by (auto simp: slot_def)
    have c: "config_vector_checktype u t"
    proof (cases "innermost bs = B_array")
      case True
      then show ?thesis using assms(2) u(2) by (auto simp: admits_def)
    next
      case no: False
      then have "s_type u = CONFIG_TYPE_LIST" using u(3) False by (cases "innermost bs") (auto simp: bracket_type_def)
      then show ?thesis by (simp add: config_vector_checktype_def split: option.split)
    qed
    have "erase (scalar_setting pos t w fmt) = Setting None t (fmt_of fmt) w None 0 None"
      using erase_scalar(1) [OF assms(4,5,6) blank_new(1) [of None t], of "fst pos" "snd pos"]
      by (simp add: scalar_setting_def new_set_type)
    then show ?thesis
      using put_scalar_vector [OF assms(3) u(1,2) v, of pos fmt] c f
      by (auto simp: append_hole_def)
  qed
qed

text \<open>A place does not depend on the string buffer.\<close>

lemma slot_string [simp]: "slot bs (ctx\<lparr>pc_string := b\<rparr>) p i nm f = slot bs ctx p i nm f"
  "admits bs (ctx\<lparr>pc_string := b\<rparr>) p t = admits bs ctx p t"
  by (simp_all add: slot_def admits_def)

lemma feed_strings:
  assumes "spells pts (map (\<lambda>s. (9, Some (YSval s))) ps)" "strbuf_ok (pc_string ctx)"
  shows "\<exists>b. feed (pts @ rest) (Go Str bs ctx) = feed rest (Go Str bs (ctx\<lparr>pc_string := b\<rparr>)) \<and> strbuf_ok b
    \<and> contents b = contents (pc_string ctx) @ concat ps \<and> (sb_string (pc_string ctx) \<noteq> None \<longrightarrow> sb_string b \<noteq> None)"
  using assms
proof (induction ps arbitrary: pts ctx)
  case Nil
  then show ?case by (auto intro!: exI [of _ "pc_string ctx"])
next
  case (Cons s ps)
  obtain pos r where r: "pts = (pos, 9, YSval s) # r" "spells r (map (\<lambda>s. (9, Some (YSval s))) ps)"
    using Cons.prems(1) by auto
  define c where "c = ctx\<lparr>pc_string := strbuf_append (pc_string ctx) s\<rparr>"
  note ok = strbuf_append_ok [OF Cons.prems(2), of s]
  have "token_step pos 9 (YSval s) Str bs ctx = Go Str bs c"
    by (simp add: token_step_def append_action_def act_then_def parsectx_append_string_def c_def)
  moreover obtain b where "feed (r @ rest) (Go Str bs c) = feed rest (Go Str bs (c\<lparr>pc_string := b\<rparr>))" "strbuf_ok b"
    "contents b = contents (pc_string c) @ concat ps" "sb_string (pc_string c) \<noteq> None \<longrightarrow> sb_string b \<noteq> None"
    using Cons.IH [OF r(2), of c] ok by (auto simp: c_def)
  ultimately show ?case using ok r(1) by (auto simp: c_def intro!: exI [of _ b])
qed

section \<open>Values and settings\<close>

lemma act_then_go [simp]: "act_then (Some (ctx, True)) k = k ctx"
  by (simp add: act_then_def)

lemma same_updates [simp]:
  "(with_root r ctx)\<lparr>pc_setting := pc_setting ctx\<rparr> = with_root r ctx"
  "pc_string ctx = b \<Longrightarrow> ctx\<lparr>pc_string := b\<rparr> = ctx"
  by (cases ctx; simp add: with_root_def)+

text \<open>
  The run of the tokens of a value: the next token, which is no string, finds
  the value in its place.
\<close>

definition runs_to :: "pos_token list \<Rightarrow> pmode \<Rightarrow> bracket list \<Rightarrow> parse_context \<Rightarrow> string option \<Rightarrow> ast \<Rightarrow>
    (config_setting \<Rightarrow> config_setting) \<Rightarrow> bool" where
  "runs_to pts m bs ctx nm a f \<longleftrightarrow>
     (\<forall>pos tok v rest. tok \<noteq> 9 \<longrightarrow>
        (\<exists>x y. feed (pts @ (pos, tok, v) # rest) (Go m bs ctx)
             = feed ((pos, tok, v) # rest) (Go After bs ((with_root (f x) ctx)\<lparr>pc_setting := y\<rparr>))
           \<and> erase x = denote nm a))"

lemma runs_toD:
  assumes "runs_to pts m bs ctx nm a f" "tok \<noteq> 9"
  shows "\<exists>x y. feed (pts @ (pos, tok, v) # rest) (Go m bs ctx)
             = feed ((pos, tok, v) # rest) (Go After bs ((with_root (f x) ctx)\<lparr>pc_setting := y\<rparr>))
           \<and> erase x = denote nm a"
  using assms unfolding runs_to_def by blast

lemma scalar_run:
  assumes "slot bs ctx p i nm f" "admits bs ctx p (ast_type a)" "spells pts (value_toks a)" "is_scalar (ast_type a)"
    "\<forall>ps. a \<noteq> AString ps" "m \<in> {Value, First}"
  shows "runs_to pts m bs ctx nm a f"
proof -
  have fmts: "good_format CONFIG_TYPE_INT (Some CONFIG_FORMAT_HEX)" "good_format CONFIG_TYPE_INT (Some CONFIG_FORMAT_DEFAULT)"
    "good_format CONFIG_TYPE_INT64 (Some CONFIG_FORMAT_HEX)" "good_format CONFIG_TYPE_INT64 (Some CONFIG_FORMAT_DEFAULT)"
    "good_format t None" for t
    by (simp_all add: good_format_def)
  obtain pos t v where t: "pts = [(pos, t, v)]" "value_toks a = [(t, Some v)]" "3 \<le> t" "t \<le> 8"
    using assms(3,4,5) by (cases a) (auto simp: ast_type_def is_scalar_def)
  have "\<exists>x. scalar_action pos t v ctx = Some (with_root (f x) ctx, True) \<and> erase x = denote nm a"
  proof (cases a)
    case (ABool b)
    then have "admits bs ctx p CONFIG_TYPE_BOOL" using assms(2) by (simp add: ast_type_def)
    from put_scalar_slot [OF assms(1) this parser_setters(1), of b None pos] ABool t(2) fmts
    show ?thesis by (auto simp: scalar_action_def bool_value_def is_scalar_def fmt_of_def)
  next
    case (AInt h b)
    then have "admits bs ctx p CONFIG_TYPE_INT" using assms(2) by (simp add: ast_type_def)
    from put_scalar_slot [OF assms(1) this parser_setters(2), of b "Some (if h then CONFIG_FORMAT_HEX else CONFIG_FORMAT_DEFAULT)" pos] AInt t(2) fmts
    show ?thesis by (cases h) (auto simp: scalar_action_def int_value_def is_scalar_def fmt_of_def)
  next
    case (AInt64 h b)
    then have "admits bs ctx p CONFIG_TYPE_INT64" using assms(2) by (simp add: ast_type_def)
    from put_scalar_slot [OF assms(1) this parser_setters(3), of b "Some (if h then CONFIG_FORMAT_HEX else CONFIG_FORMAT_DEFAULT)" pos] AInt64 t(2) fmts
    show ?thesis by (cases h) (auto simp: scalar_action_def int64_value_def is_scalar_def fmt_of_def)
  next
    case (AFloat b)
    then have "admits bs ctx p CONFIG_TYPE_FLOAT" using assms(2) by (simp add: ast_type_def)
    from put_scalar_slot [OF assms(1) this parser_setters(4), of b None pos] AFloat t(2) fmts
    show ?thesis by (auto simp: scalar_action_def float_value_def is_scalar_def fmt_of_def)
  qed (use assms(4,5) in \<open>auto simp: ast_type_def is_scalar_def\<close>)
  then obtain x where x: "scalar_action pos t v ctx = Some (with_root (f x) ctx, True)" "erase x = denote nm a" by blast
  have "m = First \<Longrightarrow> t \<noteq> closer (innermost bs)" using t(4) by (simp add: closer_def split: bracket.split)
  then have "token_step pos t v m bs ctx = Go After bs (with_root (f x) ctx)"
    using assms(6) t(3,4) x(1) by (auto simp: token_step_def value_token_def)
  then show ?thesis
    unfolding runs_to_def t(1) using x(2) by (auto intro!: exI [of _ x] exI [of _ "pc_setting ctx"])
qed

lemma string_run:
  assumes "slot bs ctx p i nm f" "admits bs ctx p CONFIG_TYPE_STRING" "spells pts (value_toks (AString ps))" "ps \<noteq> []"
    "m \<in> {Value, First}" "pc_string ctx = strbuf_zero"
  shows "runs_to pts m bs ctx nm (AString ps) f"
  unfolding runs_to_def
proof (intro allI impI)
  fix pos tok v rest assume tok: "tok \<noteq> (9 :: nat)"
  obtain s qs where ps: "ps = s # qs" using assms(4) by (cases ps) auto
  obtain pos1 r where r: "pts = (pos1, 9, YSval s) # r" "spells r (map (\<lambda>s. (9, Some (YSval s))) qs)"
    using assms(3) ps by auto
  define c where "c = ctx\<lparr>pc_string := strbuf_append strbuf_zero s\<rparr>"
  have m: "m = First \<Longrightarrow> 9 \<noteq> closer (innermost bs)" by (simp add: closer_def split: bracket.split)
  have first: "token_step pos1 9 (YSval s) m bs ctx = Go Str bs c"
    using assms(5,6) m by (auto simp: token_step_def value_token_def append_action_def parsectx_append_string_def c_def)
  have ok: "strbuf_ok (pc_string c)" "contents (pc_string c) = s" "sb_string (pc_string c) \<noteq> None"
    using strbuf_append_ok [of strbuf_zero s] by (simp_all add: c_def)
  obtain b where b: "feed (r @ (pos, tok, v) # rest) (Go Str bs c) = feed ((pos, tok, v) # rest) (Go Str bs (c\<lparr>pc_string := b\<rparr>))"
    "strbuf_ok b" "contents b = concat ps" "sb_string b \<noteq> None"
    using feed_strings [OF r(2) ok(1), of "(pos, tok, v) # rest" bs] ok ps by auto
  have sb: "sb_string b = Some (concat ps)" using b(3,4) by (auto simp: contents_def)
  have slot: "slot bs (c\<lparr>pc_string := strbuf_zero\<rparr>) p i nm f" "admits bs (c\<lparr>pc_string := strbuf_zero\<rparr>) p CONFIG_TYPE_STRING"
    using assms(1,2) by (simp_all add: c_def)
  obtain x where x: "string_action pos (c\<lparr>pc_string := b\<rparr>) = Some (with_root (f x) ctx, True)"
      "erase x = Setting nm CONFIG_TYPE_STRING 0 (VSval (concat ps)) None 0 None"
    using put_scalar_slot [OF assms(1,2) parser_setters(5), of "Some (concat ps)" None pos] sb assms(6)
    by (auto simp: string_action_def parsectx_take_string_def strbuf_release_def is_scalar_def good_format_def fmt_of_def
        string_value_def c_def)
  have "token_step pos tok v Str bs (c\<lparr>pc_string := b\<rparr>) = token_step pos tok v After bs (with_root (f x) ctx)"
    using tok x(1) by (simp add: token_step_def)
  then have "feed (pts @ (pos, tok, v) # rest) (Go m bs ctx) = feed ((pos, tok, v) # rest) (Go After bs (with_root (f x) ctx))"
    using first b(1) r(1) by simp
  then show "\<exists>x y. feed (pts @ (pos, tok, v) # rest) (Go m bs ctx)
             = feed ((pos, tok, v) # rest) (Go After bs ((with_root (f x) ctx)\<lparr>pc_setting := y\<rparr>))
           \<and> erase x = denote nm (AString ps)"
    using x(2) by (intro exI [of _ x] exI [of _ "pc_setting ctx"]) simp
qed

section \<open>Arrays, lists and groups\<close>

lemma s_type_erase [simp]: "s_type (erase x) = s_type x" "s_name (erase x) = s_name x"
  by (cases x; simp)+

lemma denote_sels: "s_type (denote nm a) = ast_type a" "s_name (denote nm a) = nm"
  by (cases a; simp add: ast_type_def)+

definition extend_by :: "config_setting \<Rightarrow> config_setting list \<Rightarrow> config_setting" where
  "extend_by z xs = (if xs = [] then z else set_value (VList (elems z @ xs)) z)"

lemma extend_simps [simp]:
  "elems (extend_by z xs) = elems z @ xs" "extend_by z [] = z" "s_type (extend_by z xs) = s_type z"
  "extend_by (extend_by z xs) ys = extend_by z (xs @ ys)"
  by (auto simp: extend_by_def set_value_same)

lemma extend_by_single: "extend_by z [x] = set_value (VList (elems z @ [x])) z"
  by (simp add: extend_by_def)

lemma erase_extend:
  "blank nm t z \<Longrightarrow> erase (extend_by z xs) = Setting nm t 0 (list_value (map erase xs)) None 0 None"
  using blank_sels [of nm t z] by (cases z) (auto simp: extend_by_def list_value_def set_value_def blank_def)

text \<open>Inside a bracket: its parent pointer and what stands in it so far.\<close>

definition inside :: "parse_context \<Rightarrow> nat list \<Rightarrow> (config_setting \<Rightarrow> config_setting) \<Rightarrow> config_setting \<Rightarrow> bool" where
  "inside ctx q f z \<longleftrightarrow> pc_parent ctx = Some q \<and> tree ctx = f z \<and> hole f q \<and> pc_string ctx = strbuf_zero"

lemma inside_slot:
  assumes "inside ctx q f z" "s_type z = bracket_type (innermost bs)" "innermost bs \<noteq> B_group"
  shows "slot bs ctx q (length (elems z)) None (\<lambda>x. f (extend_by z [x]))"
proof -
  have h: "setting_at (f z) q = Some z" "\<And>y. put_at (f z) q y = f y" using assms(1) by (auto simp: inside_def hole_def)
  have "append_hole (tree ctx) q z = (\<lambda>x. f (extend_by z [x]))"
    using h assms(1) by (auto simp: append_hole_def extend_by_single inside_def)
  then show ?thesis
    using assms h append_hole_is_hole [of "tree ctx" q z] by (auto simp: slot_def inside_def)
qed

lemma inside_next:
  assumes "inside ctx q f z"
  shows "inside ((with_root (f z') ctx)\<lparr>pc_setting := y\<rparr>) q f z'"
  using assms by (simp add: inside_def)

definition value_runs :: "ast \<Rightarrow> bool" where
  "value_runs a \<longleftrightarrow>
     (\<forall>bs ctx p i nm f pts m. slot bs ctx p i nm f \<longrightarrow> admits bs ctx p (ast_type a) \<longrightarrow> spells pts (value_toks a) \<longrightarrow> wf_ast a
        \<longrightarrow> pc_string ctx = strbuf_zero \<longrightarrow> length bs + ast_depth a \<le> MAX_NEST \<longrightarrow> m \<in> {Value, First}
        \<longrightarrow> runs_to pts m bs ctx nm a f)"

lemma value_runsD:
  assumes "value_runs a" "slot bs ctx p i nm f" "admits bs ctx p (ast_type a)" "spells pts (value_toks a)" "wf_ast a"
    "pc_string ctx = strbuf_zero" "length bs + ast_depth a \<le> MAX_NEST" "m \<in> {Value, First}"
  shows "runs_to pts m bs ctx nm a f"
  using assms unfolding value_runs_def by blast

lemma elements_run:
  assumes "as \<noteq> []" "\<forall>a\<in>set as. value_runs a \<and> wf_ast a \<and> length bs + ast_depth a \<le> MAX_NEST" "inside ctx q f z"
    "s_type z = bracket_type (innermost bs)" "innermost bs \<noteq> B_group" "spells pts (commas (map value_toks as))" "m \<in> {Value, First}"
    "innermost bs = B_array \<longrightarrow> (\<forall>a\<in>set as. is_scalar (ast_type a) \<and> ast_type a = t) \<and> (\<forall>e\<in>set (elems z). s_type e = t)"
    "tok \<noteq> 9"
  shows "\<exists>xs y. feed (pts @ (pos, tok, v) # rest) (Go m bs ctx)
      = feed ((pos, tok, v) # rest) (Go After bs ((with_root (f (extend_by z xs)) ctx)\<lparr>pc_setting := y\<rparr>))
    \<and> map erase xs = map (denote None) as"
  using assms
proof (induction as arbitrary: pts ctx z m)
  case (Cons a as)
  have adm: "admits bs ctx q (ast_type a)"
  proof -
    have "setting_at (tree ctx) q = Some z" using Cons.prems(3) by (auto simp: inside_def hole_def)
    moreover have "innermost bs = B_array \<Longrightarrow> config_vector_checktype z (ast_type a)"
      using Cons.prems(8) by (cases "elems z") (auto simp: config_vector_checktype_def elems_def split: option.splits)
    ultimately show ?thesis using Cons.prems(8) by (auto simp: admits_def)
  qed
  have val: "runs_to p m bs ctx None a (\<lambda>x. f (extend_by z [x]))" if "spells p (value_toks a)" for p
    by (rule value_runsD [OF _ inside_slot [OF Cons.prems(3-5)] adm that])
      (use Cons.prems(2,3,7) in \<open>simp_all add: inside_def\<close>)
  show ?case
  proof (cases "as = []")
    case True
    then have "runs_to pts m bs ctx None a (\<lambda>x. f (extend_by z [x]))" using val Cons.prems(6) by simp
    then obtain x y where "feed (pts @ (pos, tok, v) # rest) (Go m bs ctx)
        = feed ((pos, tok, v) # rest) (Go After bs ((with_root (f (extend_by z [x])) ctx)\<lparr>pc_setting := y\<rparr>))" "erase x = denote None a"
      using Cons.prems(9) unfolding runs_to_def by blast
    then show ?thesis using True by (intro exI [of _ "[x]"] exI [of _ y]) simp
  next
    case False
    then obtain b bs' where as: "as = b # bs'" by (cases as) auto
    obtain p1 cpos cv p2 where p: "pts = p1 @ (cpos, 17, cv) # p2" "spells p1 (value_toks a)"
      "spells p2 (commas (map value_toks as))"
      using Cons.prems(6) as by auto
    obtain x y where x: "feed (p1 @ (cpos, 17, cv) # p2 @ (pos, tok, v) # rest) (Go m bs ctx)
        = feed ((cpos, 17, cv) # p2 @ (pos, tok, v) # rest) (Go After bs ((with_root (f (extend_by z [x])) ctx)\<lparr>pc_setting := y\<rparr>))"
        "erase x = denote None a"
      using runs_toD [OF val [OF p(2)], of 17 cpos cv "p2 @ (pos, tok, v) # rest"] by auto
    define c where "c = (with_root (f (extend_by z [x])) ctx)\<lparr>pc_setting := y\<rparr>"
    have comma: "token_step cpos 17 cv After bs c = Go Value bs c"
      using Cons.prems(5) by (cases "innermost bs") (auto simp: token_step_def after_token_def)
    have tx: "s_type x = ast_type a" using x(2) denote_sels(1) by (metis s_type_erase(1))
    have "\<exists>xs y. feed (p2 @ (pos, tok, v) # rest) (Go Value bs c)
      = feed ((pos, tok, v) # rest) (Go After bs ((with_root (f (extend_by (extend_by z [x]) xs)) c)\<lparr>pc_setting := y\<rparr>))
      \<and> map erase xs = map (denote None) as" (is "\<exists>xs y. ?L xs y")
      by (rule Cons.IH [OF False _ inside_next [OF Cons.prems(3), where z' = "extend_by z [x]" and y = y, folded c_def] _ Cons.prems(5) p(3)])
        (use Cons.prems(2,4,8,9) tx in auto)
    then obtain xs w where "?L xs w" by blast
    then show ?thesis using x comma p(1) by (intro exI [of _ "x # xs"] exI [of _ w]) (simp add: c_def)
  qed
qed simp

text \<open>A bracket opens: the value is there, still empty, and the parent pointer on it.\<close>

lemma open_run:
  assumes "slot bs ctx p i nm f" "innermost bs \<noteq> B_array" "length bs < MAX_NEST" "type_of_code tc = Some (bracket_type b)"
    "pc_string ctx = strbuf_zero"
  shows "\<exists>c z. open_bracket b tc (bracket_type b) m pos bs ctx = Go m (b # bs) c \<and> blank nm (bracket_type b) z
    \<and> inside c (p @ [i]) f z \<and> (\<forall>r y w. (with_root r c)\<lparr>pc_setting := y, pc_parent := Some p\<rparr> = (with_root r ctx)\<lparr>pc_setting := y\<rparr>)"
proof -
  let ?t = "bracket_type b"
  obtain u where u: "pc_parent ctx = Some p" "setting_at (tree ctx) p = Some u" "s_type u = bracket_type (innermost bs)"
    "hole f (p @ [i])"
    using assms(1) by (auto simp: slot_def)
  have restore: "(with_root r c)\<lparr>pc_setting := y, pc_parent := Some p\<rparr> = (with_root r ctx)\<lparr>pc_setting := y\<rparr>"
    if "c = (with_root r' ctx)\<lparr>pc_setting := y', pc_parent := z'\<rparr>" for c r r' y y' z'
    using that u(1) by (cases ctx) (simp add: with_root_def)
  show ?thesis
  proof (cases "innermost bs = B_list")
    case True
    then have l: "s_type u = CONFIG_TYPE_LIST" using u(3) by (simp add: bracket_type_def)
    have f: "nm = None" "f = append_hole (tree ctx) p u" "i = length (elems u)" using assms(1) True u(2) by (auto simp: slot_def)
    define z where "z = set_source (fst pos) (snd pos) (new_setting None ?t)"
    define c where "c = (with_root (f z) ctx)\<lparr>pc_parent := Some (p @ [i])\<rparr>"
    have "c = (with_root (f z) ctx)\<lparr>pc_setting := pc_setting ctx, pc_parent := Some (p @ [i])\<rparr>"
      by (cases ctx) (simp add: c_def with_root_def)
    note bk = restore [OF this]
    have "open_aggregate pos tc ?t ctx = Some (c, True)"
      using open_list_effect [OF u(1,2) l assms(4), of pos] f by (simp add: append_hole_def z_def c_def)
    moreover have "inside c (p @ [i]) f z" using u(4) assms(5) by (simp add: inside_def c_def)
    moreover have "blank nm ?t z" using blank_new(2) [of None ?t] f(1) by (simp add: z_def)
    ultimately show ?thesis using bk assms(3) by (auto simp: open_bracket_def)
  next
    case False
    then have g: "innermost bs = B_group" using assms(2) by (cases "innermost bs") auto
    then have gu: "s_type u = CONFIG_TYPE_GROUP" using u(3) by (simp add: bracket_type_def)
    obtain s where s: "pc_setting ctx = Some (p @ [i])" "tree ctx = f s" "blank nm CONFIG_TYPE_NONE s"
      using assms(1) g by (auto simp: slot_def)
    have sat: "setting_at (tree ctx) (p @ [i]) = Some s" "\<And>y. put_at (tree ctx) (p @ [i]) y = f y"
      using u(4) s(2) by (auto simp: hole_def)
    define z where "z = set_type ?t s"
    define c where "c = (with_root (f z) ctx)\<lparr>pc_setting := None, pc_parent := Some (p @ [i])\<rparr>"
    note bk = restore [OF c_def]
    have "open_aggregate pos tc ?t ctx = Some (c, True)"
      using open_plain_effect [OF u(1,2) gu s(1) sat(1), of pos tc ?t] sat(2) by (simp add: z_def c_def)
    moreover have "inside c (p @ [i]) f z" using u(4) assms(5) by (simp add: inside_def c_def)
    moreover have "blank nm ?t z" using s(3) by (cases s) (auto simp: z_def blank_def set_type_def)
    ultimately show ?thesis using bk assms(3) by (auto simp: open_bracket_def)
  qed
qed

lemma vector_run:
  assumes "\<forall>a\<in>set as. value_runs a \<and> wf_ast a \<and> Suc (length bs) + ast_depth a \<le> MAX_NEST"
    "slot bs ctx p i nm f" "innermost bs \<noteq> B_array" "length bs < MAX_NEST" "pc_string ctx = strbuf_zero" "m \<in> {Value, First}"
    "spells pts ((t, None) # commas (map value_toks as) @ [(closer b, None)])"
    "(b, t :: nat, tc :: int) \<in> {(B_array, 13, 7), (B_list, 15, 8)}"
    "b = B_array \<longrightarrow> (\<forall>a\<in>set as. is_scalar (ast_type a) \<and> ast_type a = ty)"
    "denote nm v0 = Setting nm (bracket_type b) 0 (list_value (map (denote None) as)) None 0 None"
  shows "runs_to pts m bs ctx nm v0 f"
  unfolding runs_to_def
proof (intro allI impI)
  fix pos tok v rest assume "tok \<noteq> (9 :: nat)"
  obtain pos0 v00 pts1 pos1 v1 where pts: "pts = (pos0, t, v00) # pts1 @ [(pos1, closer b, v1)]" "spells pts1 (commas (map value_toks as))"
    using assms(7) by auto
  have code: "type_of_code tc = Some (bracket_type b)" using assms(8) by (auto simp: type_of_code_def bracket_type_def)
  obtain c z where c: "open_bracket b tc (bracket_type b) First pos0 bs ctx = Go First (b # bs) c" "blank nm (bracket_type b) z"
    "inside c (p @ [i]) f z" "\<forall>r y. (with_root r c)\<lparr>pc_setting := y, pc_parent := Some p\<rparr> = (with_root r ctx)\<lparr>pc_setting := y\<rparr>"
    using open_run [OF assms(2-4) code assms(5), of First pos0] by auto
  have nc: "t \<noteq> closer (innermost bs)" using assms(8) by (cases "innermost bs") (auto simp: closer_def)
  have start: "token_step pos0 t v00 m bs ctx = Go First (b # bs) c"
    using assms(3,6,8) c(1) nc by (auto simp: token_step_def value_token_def bracket_type_def)
  have bt: "s_type z = bracket_type (innermost (b # bs))" "innermost (b # bs) \<noteq> B_group" "elems z = []"
    using blank_sels [OF c(2)] assms(8) by auto
  let ?tail = "(pos1, closer b, v1) # (pos, tok, v) # rest"
  have c9: "closer b \<noteq> 9" using assms(8) by (auto simp: closer_def)
  obtain xs y m' where xs: "feed (pts1 @ ?tail) (Go First (b # bs) c) = feed ?tail (Go m' (b # bs) ((with_root (f (extend_by z xs)) c)\<lparr>pc_setting := y\<rparr>))"
    "map erase xs = map (denote None) as" "m' \<in> {First, After}"
  proof (cases "as = []")
    case True
    have "with_root (f z) c = c" using c(3) by (cases c) (auto simp: inside_def with_root_def tree_def)
    then show ?thesis using that [of First "pc_setting c" "[]"] True pts(2) same_updates(1) [where r = "f z" and ctx = c] by simp
  next
    case False
    have "\<exists>xs y. feed (pts1 @ ?tail) (Go First (b # bs) c)
      = feed ?tail (Go After (b # bs) ((with_root (f (extend_by z xs)) c)\<lparr>pc_setting := y\<rparr>))
      \<and> map erase xs = map (denote None) as"
      by (rule elements_run [OF False _ c(3) bt(1,2) pts(2), where t = ty]) (use assms(1,9) bt(3) c9 in auto)
    then show ?thesis using that by blast
  qed
  define e where "e = (with_root (f (extend_by z xs)) c)\<lparr>pc_setting := y\<rparr>"
  have par: "pc_parent e = Some (p @ [i])" using c(3) by (simp add: e_def inside_def)
  have ee: "e\<lparr>pc_parent := Some p\<rparr> = (with_root (f (extend_by z xs)) ctx)\<lparr>pc_setting := y\<rparr>" using c(4) by (simp add: e_def)
  have "token_step pos1 (closer b) v1 m' (b # bs) e = Go After bs (e\<lparr>pc_parent := Some p\<rparr>)"
    using xs(3) assms(8) close_effect [OF par]
    by (auto simp: token_step_def after_token_def close_bracket_def closer_def)
  then have "feed (pts @ (pos, tok, v) # rest) (Go m bs ctx)
     = feed ((pos, tok, v) # rest) (Go After bs ((with_root (f (extend_by z xs)) ctx)\<lparr>pc_setting := y\<rparr>))"
    using pts(1) start xs(1) ee by (simp add: e_def)
  moreover have "erase (extend_by z xs) = denote nm v0" using erase_extend [OF c(2), of xs] xs(2) assms(10) by simp
  ultimately show "\<exists>x y. feed (pts @ (pos, tok, v) # rest) (Go m bs ctx)
      = feed ((pos, tok, v) # rest) (Go After bs ((with_root (f x) ctx)\<lparr>pc_setting := y\<rparr>)) \<and> erase x = denote nm v0"
    by blast
qed

lemma add_run:
  assumes "inside ctx q f z" "s_type z = CONFIG_TYPE_GROUP" "innermost bs = B_group" "map s_name (elems z) = map Some ns"
    "good_names (ns @ [nm])" "m \<in> {Settings, After}"
  shows "\<exists>c y. token_step pos 10 (YSval nm) m bs ctx = Go Equals bs c \<and> pc_string c = strbuf_zero
    \<and> slot bs c q (length (elems z)) (Some nm) (\<lambda>x. f (extend_by z [x])) \<and> c = (with_root (tree c) ctx)\<lparr>pc_setting := y\<rparr>"
proof -
  have h: "setting_at (f z) q = Some z" "\<And>y. put_at (f z) q y = f y" "tree ctx = f z" "pc_parent ctx = Some q"
    using assms(1) by (auto simp: inside_def hole_def)
  have "append_hole (f z) q z = (\<lambda>x. f (extend_by z [x]))" using h by (auto simp: append_hole_def extend_by_single)
  then have hole: "hole (\<lambda>x. f (extend_by z [x])) (q @ [length (elems z)])"
    using append_hole_is_hole [OF h(1)] by simp
  have valid: "config_validate_name nm" "nm \<notin> set ns" "list_all config_validate_name ns"
    using assms(5) by (auto simp: good_names_def)
  have "config_list_search (elems z) nm = None"
    unfolding config_list_search_None
  proof (intro ballI allI impI)
    fix x n assume x: "x \<in> set (elems z)" "s_name x = Some n"
    then have "Some n \<in> set (map Some ns)" unfolding assms(4) [symmetric] by force
    then have "n \<in> set ns" by auto
    then have "n \<noteq> nm" "config_validate_name n" using valid by (auto simp: list_all_iff)
    then show "name_part nm \<noteq> name_part n" using valid(1) by simp
  qed
  then have new: "config_setting_get_member z nm = None" using assms(2) by (simp add: config_setting_get_member_def)
  define x where "x = set_source (fst pos) (snd pos) (new_setting (Some nm) CONFIG_TYPE_NONE)"
  define c where "c = with_root (f (extend_by z [x])) (ctx\<lparr>pc_setting := Some (q @ [length (elems z)])\<rparr>)"
  have "add_setting pos (YSval nm) ctx = Some (c, True)"
    using add_setting_effect [OF h(4) _ assms(2), of pos nm] h new valid(1) by (simp add: extend_by_single x_def c_def)
  then have step: "token_step pos 10 (YSval nm) m bs ctx = Go Equals bs c"
    using assms(3,6) by (auto simp: token_step_def settings_token_def after_token_def)
  have sat: "setting_at (f (extend_by z [x])) q = Some (extend_by z [x])" using assms(1) by (simp add: inside_def hole_def)
  have "slot bs c q (length (elems z)) (Some nm) (\<lambda>x. f (extend_by z [x]))"
    using hole sat assms(2,3) h(4) blank_new(2) [of "Some nm" CONFIG_TYPE_NONE]
    by (auto simp: slot_def c_def bracket_type_def x_def)
  moreover have "c = (with_root (tree c) ctx)\<lparr>pc_setting := Some (q @ [length (elems z)])\<rparr>" by (simp add: c_def)
  moreover have "pc_string c = strbuf_zero" using assms(1) by (simp add: c_def inside_def)
  ultimately show ?thesis using step by blast
qed

fun member_ast :: "member \<Rightarrow> ast" where
  "member_ast (Member nm a s) = a"

lemma members_run:
  assumes "\<forall>x\<in>set ms. value_runs (member_ast x) \<and> wf_member x \<and> length bs + member_depth x \<le> MAX_NEST"
    "inside ctx q f z" "s_type z = CONFIG_TYPE_GROUP" "innermost bs = B_group"
    "spells pts (concat (map member_toks ms))" "m \<in> {Settings, After}" "map s_name (elems z) = map Some ns"
    "good_names (ns @ map member_name ms)" "tok \<notin> {9, 17, 20}"
  shows "\<exists>xs y. feed (pts @ (pos, tok, v) # rest) (Go m bs ctx)
      = feed ((pos, tok, v) # rest) (Go Settings bs ((with_root (f (extend_by z xs)) ctx)\<lparr>pc_setting := y\<rparr>))
    \<and> map erase xs = map denote_member ms"
  using assms
proof (induction ms arbitrary: pts ctx z m ns)
  case Nil
  have "with_root (f z) ctx = ctx" using Nil.prems(2) by (cases ctx) (auto simp: inside_def with_root_def tree_def)
  moreover have "token_step pos tok v m bs ctx = token_step pos tok v Settings bs ctx"
    using Nil.prems(4,6,9) by (auto simp: token_step_def after_token_def)
  ultimately show ?case using Nil.prems(5) same_updates(1) [where r = "f z" and ctx = ctx]
    by (intro exI [of _ "[]"] exI [of _ "pc_setting ctx"]) simp
next
  case (Cons mem ms)
  obtain nm a s where mem: "mem = Member nm a s" by (cases mem)
  obtain p1 p2 v2 pa ps pr where p: "pts = (p1, 10, YSval nm) # (p2, 11, v2) # pa @ ps @ pr" "spells pa (value_toks a)"
    "spells ps (sep_toks s)" "spells pr (concat (map member_toks ms))"
    using Cons.prems(5) by (auto simp: mem)
  have gn: "good_names (ns @ [nm])" "good_names ((ns @ [nm]) @ map member_name ms)"
    using Cons.prems(8) by (auto simp: good_names_def mem)
  obtain c y where c: "token_step p1 10 (YSval nm) m bs ctx = Go Equals bs c" "pc_string c = strbuf_zero"
    "slot bs c q (length (elems z)) (Some nm) (\<lambda>x. f (extend_by z [x]))" "c = (with_root (tree c) ctx)\<lparr>pc_setting := y\<rparr>"
    using add_run [OF Cons.prems(2-4,7) gn(1) Cons.prems(6), of p1] by blast
  have adm: "admits bs c q (ast_type a)" using Cons.prems(4) by (simp add: admits_def)
  have run: "runs_to pa Value bs c (Some nm) a (\<lambda>x. f (extend_by z [x]))"
    by (rule value_runsD [OF _ c(3) adm p(2) _ c(2)]) (use Cons.prems(1) in \<open>auto simp: mem\<close>)
  let ?tail = "ps @ pr @ (pos, tok, v) # rest"
  obtain tp tt tv tr where tail: "?tail = (tp, tt, tv) # tr" "tt \<noteq> 9"
  proof (cases s)
    case Sep_none
    then have "ps = []" using p(3) by (simp add: sep_toks_def)
    then show ?thesis using that Cons.prems(9) p(4) by (cases ms rule: list.exhaust; cases "hd ms") auto
  qed (use that p(3) in \<open>auto simp: sep_toks_def\<close>)
  obtain x w where x: "feed (pa @ ?tail) (Go Value bs c) = feed ?tail (Go After bs ((with_root (f (extend_by z [x])) c)\<lparr>pc_setting := w\<rparr>))"
    "erase x = denote (Some nm) a"
    using runs_toD [OF run tail(2), of tp tv tr] unfolding tail(1) by blast
  define e where "e = (with_root (f (extend_by z [x])) c)\<lparr>pc_setting := w\<rparr>"
  have e: "e = (with_root (f (extend_by z [x])) ctx)\<lparr>pc_setting := w\<rparr>" unfolding e_def by (subst c(4)) simp
  have nx: "s_name x = Some nm" using x(2) denote_sels(2) by (metis s_type_erase(2))
  have ins: "inside e q f (extend_by z [x])" unfolding e using inside_next [OF Cons.prems(2)] .
  have more: "\<exists>xs y. feed (pr @ (pos, tok, v) # rest) (Go m' bs e)
      = feed ((pos, tok, v) # rest) (Go Settings bs ((with_root (f (extend_by (extend_by z [x]) xs)) e)\<lparr>pc_setting := y\<rparr>))
    \<and> map erase xs = map denote_member ms" if "m' \<in> {Settings, After}" for m'
    by (rule Cons.IH [OF _ ins _ Cons.prems(4) p(4) that _ gn(2) Cons.prems(9)])
      (use Cons.prems(1,3,7) nx in auto)
  have sep: "\<exists>m'\<in>{Settings, After}. feed ?tail (Go After bs e) = feed (pr @ (pos, tok, v) # rest) (Go m' bs e)"
    using p(3) Cons.prems(4) by (cases s) (auto simp: sep_toks_def token_step_def after_token_def)
  then obtain m' where m': "m' \<in> {Settings, After}" "feed ?tail (Go After bs e) = feed (pr @ (pos, tok, v) # rest) (Go m' bs e)" by blast
  obtain xs u where xs: "feed (pr @ (pos, tok, v) # rest) (Go m' bs e)
      = feed ((pos, tok, v) # rest) (Go Settings bs ((with_root (f (extend_by (extend_by z [x]) xs)) e)\<lparr>pc_setting := u\<rparr>))"
    "map erase xs = map denote_member ms"
    using more [OF m'(1)] by blast
  have "token_step p2 11 v2 Equals bs c = Go Value bs c" by (simp add: token_step_def)
  then show ?case
    using c(1) x(1) m'(2) xs p(1) x(2)
    by (intro exI [of _ "x # xs"] exI [of _ u]) (simp add: mem e_def [symmetric], simp add: e)
qed

lemma group_run:
  assumes "\<forall>x\<in>set ms. value_runs (member_ast x) \<and> wf_member x \<and> Suc (length bs) + member_depth x \<le> MAX_NEST"
    "slot bs ctx p i nm f" "innermost bs \<noteq> B_array" "length bs < MAX_NEST" "pc_string ctx = strbuf_zero" "m \<in> {Value, First}"
    "spells pts (value_toks (AGroup ms))" "good_names (map member_name ms)"
  shows "runs_to pts m bs ctx nm (AGroup ms) f"
  unfolding runs_to_def
proof (intro allI impI)
  fix pos tok v rest assume "tok \<noteq> (9 :: nat)"
  obtain pos0 v0 pts1 pos1 v1 where pts: "pts = (pos0, 18, v0) # pts1 @ [(pos1, 19, v1)]" "spells pts1 (concat (map member_toks ms))"
    using assms(7) by auto
  have t: "bracket_type B_group = CONFIG_TYPE_GROUP" "type_of_code 1 = Some (bracket_type B_group)"
    by (simp_all add: bracket_type_def type_of_code_def)
  obtain c z where c: "open_bracket B_group 1 CONFIG_TYPE_GROUP Settings pos0 bs ctx = Go Settings (B_group # bs) c" "blank nm CONFIG_TYPE_GROUP z"
    "inside c (p @ [i]) f z" "\<forall>r y. (with_root r c)\<lparr>pc_setting := y, pc_parent := Some p\<rparr> = (with_root r ctx)\<lparr>pc_setting := y\<rparr>"
    using open_run [OF assms(2-4) t(2) assms(5), of Settings pos0] unfolding t(1) by auto
  have start: "token_step pos0 18 v0 m bs ctx = Go Settings (B_group # bs) c"
    using assms(3,6) c(1) by (cases "innermost bs") (auto simp: token_step_def value_token_def closer_def)
  let ?tail = "(pos1, 19, v1) # (pos, tok, v) # rest"
  obtain xs y where xs: "feed (pts1 @ ?tail) (Go Settings (B_group # bs) c)
      = feed ?tail (Go Settings (B_group # bs) ((with_root (f (extend_by z xs)) c)\<lparr>pc_setting := y\<rparr>))"
    "map erase xs = map denote_member ms"
    using members_run [OF _ c(3) _ _ pts(2), of "B_group # bs" Settings "[]" 19 pos1 v1 "(pos, tok, v) # rest"]
      assms(1,8) blank_sels [OF c(2)] by auto
  define e where "e = (with_root (f (extend_by z xs)) c)\<lparr>pc_setting := y\<rparr>"
  have par: "pc_parent e = Some (p @ [i])" using c(3) by (simp add: e_def inside_def)
  have ee: "e\<lparr>pc_parent := Some p\<rparr> = (with_root (f (extend_by z xs)) ctx)\<lparr>pc_setting := y\<rparr>" using c(4) by (simp add: e_def)
  have "token_step pos1 19 v1 Settings (B_group # bs) e = Go After bs (e\<lparr>pc_parent := Some p\<rparr>)"
    using close_effect [OF par] by (auto simp: token_step_def settings_token_def close_bracket_def)
  then have "feed (pts @ (pos, tok, v) # rest) (Go m bs ctx)
     = feed ((pos, tok, v) # rest) (Go After bs ((with_root (f (extend_by z xs)) ctx)\<lparr>pc_setting := y\<rparr>))"
    using pts(1) start xs(1) ee by (simp add: e_def)
  moreover have "erase (extend_by z xs) = denote nm (AGroup ms)" using erase_extend [OF c(2), of xs] xs(2) by simp
  ultimately show "\<exists>x y. feed (pts @ (pos, tok, v) # rest) (Go m bs ctx)
      = feed ((pos, tok, v) # rest) (Go After bs ((with_root (f x) ctx)\<lparr>pc_setting := y\<rparr>)) \<and> erase x = denote nm (AGroup ms)"
    by blast
qed

lemma depth_elem: "a \<in> set as \<Longrightarrow> n + Suc (max_list (map ast_depth as)) \<le> N \<Longrightarrow> Suc n + ast_depth a \<le> N"
  using max_list_ge [of "ast_depth a" "map ast_depth as"] by auto

lemma depth_member: "a \<in> set as \<Longrightarrow> n + Suc (max_list (map member_depth as)) \<le> N \<Longrightarrow> Suc n + member_depth a \<le> N"
  using max_list_ge [of "member_depth a" "map member_depth as"] by auto

lemma all_values_run: "value_runs a" "value_runs (member_ast mem)"
proof (induction a and mem)
  case (ABool i)
  show ?case unfolding value_runs_def by (intro allI impI) (rule scalar_run, simp_all add: ast_type_def is_scalar_def)
next
  case (AInt h i)
  show ?case unfolding value_runs_def by (intro allI impI) (rule scalar_run, simp_all add: ast_type_def is_scalar_def)
next
  case (AInt64 h i)
  show ?case unfolding value_runs_def by (intro allI impI) (rule scalar_run, simp_all add: ast_type_def is_scalar_def)
next
  case (AFloat d)
  show ?case unfolding value_runs_def by (intro allI impI) (rule scalar_run, simp_all add: ast_type_def is_scalar_def)
next
  case (AString ps)
  show ?case unfolding value_runs_def by (intro allI impI) (rule string_run, simp_all add: ast_type_def)
next
  case (AArray as)
  show ?case
    unfolding value_runs_def
  proof (intro allI impI)
    fix bs ctx p i nm f pts m
    assume a: "slot bs ctx p i nm f" "admits bs ctx p (ast_type (AArray as))" "spells pts (value_toks (AArray as))"
      "wf_ast (AArray as)" "pc_string ctx = strbuf_zero" "length bs + ast_depth (AArray as) \<le> MAX_NEST" "m \<in> {Value, First}"
    have na: "innermost bs \<noteq> B_array" using a(2) by (auto simp: admits_def ast_type_def is_scalar_def)
    show "runs_to pts m bs ctx nm (AArray as) f"
      by (rule vector_run [OF _ a(1) na _ a(5,7), where as = as and t = 13 and b = B_array and tc = 7 and ty = "ast_type (hd as)"])
        (use AArray.IH a(3,4,6) depth_elem in \<open>auto simp: closer_def bracket_type_def list_all_iff\<close>)
  qed
next
  case (AList as)
  show ?case
    unfolding value_runs_def
  proof (intro allI impI)
    fix bs ctx p i nm f pts m
    assume a: "slot bs ctx p i nm f" "admits bs ctx p (ast_type (AList as))" "spells pts (value_toks (AList as))"
      "wf_ast (AList as)" "pc_string ctx = strbuf_zero" "length bs + ast_depth (AList as) \<le> MAX_NEST" "m \<in> {Value, First}"
    have na: "innermost bs \<noteq> B_array" using a(2) by (auto simp: admits_def ast_type_def is_scalar_def)
    show "runs_to pts m bs ctx nm (AList as) f"
      by (rule vector_run [OF _ a(1) na _ a(5,7), where as = as and t = 15 and b = B_list and tc = 8])
        (use AList.IH a(3,4,6) depth_elem in \<open>auto simp: closer_def bracket_type_def list_all_iff\<close>)
  qed
next
  case (AGroup ms)
  show ?case
    unfolding value_runs_def
  proof (intro allI impI)
    fix bs ctx p i nm f pts m
    assume a: "slot bs ctx p i nm f" "admits bs ctx p (ast_type (AGroup ms))" "spells pts (value_toks (AGroup ms))"
      "wf_ast (AGroup ms)" "pc_string ctx = strbuf_zero" "length bs + ast_depth (AGroup ms) \<le> MAX_NEST" "m \<in> {Value, First}"
    have na: "innermost bs \<noteq> B_array" using a(2) by (auto simp: admits_def ast_type_def is_scalar_def)
    show "runs_to pts m bs ctx nm (AGroup ms) f"
      by (rule group_run [OF _ a(1) na _ a(5,7,3)])
        (use AGroup.IH a(4,6) depth_member in \<open>auto simp: list_all_iff\<close>)
  qed
next
  case (Member nm a s)
  then show ?case by simp
qed

text \<open>The whole file.\<close>

lemma feed_file:
  assumes "spells pts (concat (map member_toks ms))" "wf_ast (AGroup ms)" "max_list (map member_depth ms) \<le> MAX_NEST"
    "root cfg = new_setting None CONFIG_TYPE_GROUP"
  shows "\<exists>x y. feed (pts @ [(pos, 0, v)]) (Go Settings [] (parsectx_init cfg)) = Ret 0 ((with_root x (parsectx_init cfg))\<lparr>pc_setting := y\<rparr>)
    \<and> erase x = denote None (AGroup ms)"
proof -
  have ins: "inside (parsectx_init cfg) [] (\<lambda>x. x) (new_setting None CONFIG_TYPE_GROUP)"
    using assms(4) by (simp add: inside_def parsectx_init_def tree_def hole_def)
  have d: "\<forall>x\<in>set ms. member_depth x \<le> MAX_NEST" using max_list_ge [of _ "map member_depth ms"] assms(3) by fastforce
  obtain xs y where xs: "feed (pts @ [(pos, 0, v)]) (Go Settings [] (parsectx_init cfg))
      = feed [(pos, 0, v)] (Go Settings [] ((with_root (extend_by (new_setting None CONFIG_TYPE_GROUP) xs) (parsectx_init cfg))\<lparr>pc_setting := y\<rparr>))"
    "map erase xs = map denote_member ms"
    using members_run [OF _ ins _ _ assms(1), of "[]" Settings "[]" 0 pos v "[]"] assms(2) d all_values_run(2)
    by (auto simp: list_all_iff)
  moreover have "erase (extend_by (new_setting None CONFIG_TYPE_GROUP) xs) = denote None (AGroup ms)"
    using erase_extend [OF blank_new(1), of None CONFIG_TYPE_GROUP xs] xs(2) by simp
  ultimately show ?thesis by (auto simp: token_step_def settings_token_def)
qed

section \<open>From a scanner\<close>

text \<open>The next tokens a scanner delivers, each with the position after it was read.\<close>

fun stream :: "'l lexer \<Rightarrow> nat \<Rightarrow> 'l \<Rightarrow> yystype \<Rightarrow> pos_token list" where
  "stream lx 0 l v = []"
| "stream lx (Suc n) l v =
     (case yylex lx l of
        (l', x) \<Rightarrow>
          (let v' = (case lx_value x of None \<Rightarrow> v | Some w \<Rightarrow> w)
           in ((yyget_lineno lx l', lex_filename lx l'), lex_token x, v') # stream lx n l' v'))"

lemma ref_parse_feed:
  assumes "\<forall>i<n. lx_error (token_at lx i l) = None"
  shows "snd (ref_parse lx n l v r) = feed (stream lx n l v) r"
  using assms
proof (induction lx n l v r rule: ref_parse.induct)
  case (1 lx n l v m bs ctx)
  obtain l' x where x: "yylex lx l = (l', x)" by fastforce
  have "lx_error x = None" using 1(2) x by (metis snd_conv token_at.simps(1) zero_less_Suc)
  then have e: "lex_errors x ctx = ctx" by (simp add: lex_errors_def)
  have "\<forall>i<n. lx_error (token_at lx i l') = None" using 1(2) x by (metis Suc_less_eq fst_conv token_at.simps(2))
  then show ?case using 1(1) x e by (simp add: Let_def)
qed (simp_all add: feed.simps stream.simps split: prod.split)

text \<open>Once the reference has an answer, more tokens do not change it.\<close>

lemma ref_parse_more:
  "ref_parse lx n l v st = (l', Ret r ctx) \<Longrightarrow> ref_parse lx (n + m) l v st = (l', Ret r ctx)"
proof (induction lx n l v st rule: ref_parse.induct)
  case (1 lx n l v md bs c)
  then show ?case by (auto simp: Let_def split: prod.splits)
qed (auto split: nat.split)

lemma ref_parse_unique:
  assumes "ref_parse lx n l v st = (l1, Ret r1 ctx1)" "ref_parse lx m l v st = (l2, Ret r2 ctx2)"
  shows "r1 = r2"
  using ref_parse_more [OF assms(1), of m] ref_parse_more [OF assms(2), of n] by (simp add: add.commute)

text \<open>A scanner that delivers a given list of tokens, all in one line.\<close>

definition list_lexer :: "lexed list lexer" where
  "list_lexer =
     \<lparr>yylex = (\<lambda>ts. case ts of [] \<Rightarrow> ([], \<lparr>lx_token = 0, lx_value = None, lx_error = None\<rparr>) | t # ts' \<Rightarrow> (ts', t)),
      yyget_lineno = (\<lambda>ts. 1), lex_filename = (\<lambda>ts. None)\<rparr>"

definition tok :: "int \<Rightarrow> yystype option \<Rightarrow> lexed" where
  "tok c v = \<lparr>lx_token = c, lx_value = v, lx_error = None\<rparr>"

text \<open>\<open>a = [1, 0x2]; b : { c = "x" "y" }\<close>\<close>

definition sample_tokens :: "lexed list" where
  "sample_tokens =
     [tok 265 (Some (YSval ''a'')), tok 266 None, tok 268 None, tok 259 (Some (YIval 1)), tok 272 None,
      tok 260 (Some (YIval 2)), tok 269 None, tok 275 None,
      tok 265 (Some (YSval ''b'')), tok 266 None, tok 273 None, tok 265 (Some (YSval ''c'')), tok 266 None,
      tok 264 (Some (YSval ''x'')), tok 264 (Some (YSval ''y'')), tok 274 None]"

definition sample_ast :: "member list" where
  "sample_ast =
     [Member ''a'' (AArray [AInt False 1, AInt True 2]) Sep_semicolon,
      Member ''b'' (AGroup [Member ''c'' (AString [''x'', ''y'']) Sep_none]) Sep_none]"

section \<open>What a parse does\<close>

lemma reference_ends:
  assumes "lex_token (token_at lx k l) = 0" "\<forall>i\<le>k. typed_lexed (token_at lx i l)" "openers lx k l \<le> MAX_NEST"
    "well_typed (root cfg)" "s_type (root cfg) = CONFIG_TYPE_GROUP"
  shows "\<exists>l' r ctx'. ref_parse lx (Suc k) l YUndef (Go Settings [] (parsectx_init cfg)) = (l', Ret r ctx') \<and> r \<le> 1
     \<and> well_typed (root (pc_config ctx')) \<and> (r = 1 \<longrightarrow> error_text (pc_config ctx') \<noteq> None)"
proof -
  have "ctx_ok Settings [] (parsectx_init cfg)"
    using assms(4,5) by (simp add: ctx_ok_def parsectx_init_def tree_def parents_ok_def bracket_type_def)
  from ref_parse_ends [OF this assms(1,2), of YUndef] assms(3) obtain l' n ctx' where
    "ref_parse lx (Suc k) l YUndef (Go Settings [] (parsectx_init cfg)) = (l', Ret n ctx')" "state_ok (Ret n ctx')"
    by (simp only: list.size add_0) blast
  then show ?thesis by (auto simp: state_ok_def has_error_def tree_def)
qed

lemma parse_ends:
  assumes "lex_token (token_at lx k l) = 0" "\<forall>i\<le>k. typed_lexed (token_at lx i l)" "openers lx k l \<le> MAX_NEST"
    "well_typed (root cfg)" "s_type (root cfg) = CONFIG_TYPE_GROUP"
  shows "\<exists>r p. yyparse lx (12 * Suc k) l (parsectx_init cfg) = Stop r p \<and> r \<le> 1
     \<and> well_typed (root (pc_config (ps_ctx p))) \<and> (r = 1 \<longrightarrow> error_text (pc_config (ps_ctx p)) \<noteq> None)"
  using reference_ends [OF assms] driver_refines by metis

text \<open>
  What the parser needs of a scanner: states in which it works, kept by every
  call; tokens with values of their type; and an end of the input.
\<close>

locale token_source =
  fixes lx :: "'l lexer" and ready :: "'l \<Rightarrow> bool"
  assumes ready_next: "ready l \<Longrightarrow> ready (fst (yylex lx l))"
    and typed_next: "ready l \<Longrightarrow> typed_lexed (snd (yylex lx l))"
    and input_ends: "ready l \<Longrightarrow> \<exists>k. lex_token (token_at lx k l) = 0"
begin

lemma typed_tokens: "ready l \<Longrightarrow> typed_lexed (token_at lx k l)"
  by (induction k arbitrary: l) (auto simp: ready_next typed_next)

lemma first_end:
  assumes "ready l"
  obtains k where "lex_token (token_at lx k l) = 0" "\<forall>i<k. lex_token (token_at lx i l) \<noteq> 0"
  using LeastI_ex [OF input_ends [OF assms]] not_less_Least that by blast

lemma reference_returns:
  assumes "ready l" "\<forall>k. (\<forall>i<k. lex_token (token_at lx i l) \<noteq> 0) \<longrightarrow> openers lx k l \<le> MAX_NEST"
    "well_typed (root cfg)" "s_type (root cfg) = CONFIG_TYPE_GROUP"
  shows "\<exists>n l' r ctx'. ref_parse lx n l YUndef (Go Settings [] (parsectx_init cfg)) = (l', Ret r ctx') \<and> r \<le> 1
     \<and> well_typed (root (pc_config ctx')) \<and> (r = 1 \<longrightarrow> error_text (pc_config ctx') \<noteq> None)"
proof -
  obtain k where k: "lex_token (token_at lx k l) = 0" "\<forall>i<k. lex_token (token_at lx i l) \<noteq> 0"
    using first_end [OF assms(1)] .
  show ?thesis using reference_ends [OF k(1) _ _ assms(3,4)] typed_tokens [OF assms(1)] assms(2) k(2) by meson
qed

end

text \<open>The tokens of an input spell a well-formed file.\<close>

definition spells_file :: "'l lexer \<Rightarrow> nat \<Rightarrow> 'l \<Rightarrow> member list \<Rightarrow> bool" where
  "spells_file lx n l ms \<longleftrightarrow> spells (stream lx n l YUndef) (concat (map member_toks ms) @ [(0, None)])
     \<and> (\<forall>i<n. lx_error (token_at lx i l) = None) \<and> wf_ast (AGroup ms) \<and> ast_depth (AGroup ms) \<le> MAX_NEST"

lemma reference_builds:
  assumes "spells_file lx n l ms" "root cfg = new_setting None CONFIG_TYPE_GROUP"
  shows "\<exists>l' x y. ref_parse lx n l YUndef (Go Settings [] (parsectx_init cfg))
      = (l', Ret 0 ((with_root x (parsectx_init cfg))\<lparr>pc_setting := y\<rparr>)) \<and> erase x = denote None (AGroup ms)"
proof -
  have a: "spells (stream lx n l YUndef) (concat (map member_toks ms) @ [(0, None)])"
    "\<forall>i<n. lx_error (token_at lx i l) = None" "wf_ast (AGroup ms)" "ast_depth (AGroup ms) \<le> MAX_NEST"
    using assms(1) by (simp_all add: spells_file_def)
  obtain pts pos v where s: "stream lx n l YUndef = pts @ [(pos, 0, v)]" "spells pts (concat (map member_toks ms))"
    using a(1) by auto
  obtain x y where x: "feed (pts @ [(pos, 0, v)]) (Go Settings [] (parsectx_init cfg)) = Ret 0 ((with_root x (parsectx_init cfg))\<lparr>pc_setting := y\<rparr>)"
    "erase x = denote None (AGroup ms)"
    using feed_file [OF s(2) a(3) _ assms(2)] a(4) by fastforce
  then show ?thesis
    using ref_parse_feed [OF a(2), of YUndef "Go Settings [] (parsectx_init cfg)"] s(1)
    by (cases "ref_parse lx n l YUndef (Go Settings [] (parsectx_init cfg))") auto
qed

lemma builds_tree:
  assumes "spells (stream lx n l YUndef) (concat (map member_toks ms) @ [(0, None)])"
    "\<forall>i<n. lx_error (token_at lx i l) = None" "wf_ast (AGroup ms)" "ast_depth (AGroup ms) \<le> MAX_NEST"
    "root cfg = new_setting None CONFIG_TYPE_GROUP"
  shows "\<exists>p t. yyparse lx (12 * n) l (parsectx_init cfg) = Stop 0 p \<and> pc_config (ps_ctx p) = cfg\<lparr>root := t\<rparr>
     \<and> erase t = denote None (AGroup ms)"
proof -
  have "spells_file lx n l ms" using assms(1-4) by (simp add: spells_file_def)
  from reference_builds [OF this assms(5)] obtain l' x y where
    r: "ref_parse lx n l YUndef (Go Settings [] (parsectx_init cfg)) = (l', Ret 0 ((with_root x (parsectx_init cfg))\<lparr>pc_setting := y\<rparr>))"
    "erase x = denote None (AGroup ms)" by blast
  from driver_refines [OF r(1)] show ?thesis using r(2) by (auto simp: with_root_def parsectx_init_def)
qed

section \<open>Properties\<close>

text \<open>
  C6. The LALR driver with its tables refines the pushdown reference: whatever
  scanner feeds it, the result, the final context and the scanner's state of
  the reference within \<open>n\<close> tokens are the driver's within \<open>12 n\<close> steps.
\<close>

theorem yyparse_refines_reference:
  assumes "ref_parse lx n l YUndef (Go Settings [] ctx) = (l', Ret r ctx')"
  shows "\<exists>p. yyparse lx (12 * n) l ctx = Stop r p \<and> ps_ctx p = ctx' \<and> ps_lex p = l'"
  by (rule driver_refines [OF assms])

theorem yyparse_refines_reference_witness:
  "\<exists>p. yyparse list_lexer (12 * 17) sample_tokens (parsectx_init config_init) = Stop 0 p
     \<and> elems (root (pc_config (ps_ctx p))) \<noteq> []"
proof -
  define res where "res = ref_parse list_lexer 17 sample_tokens YUndef (Go Settings [] (parsectx_init config_init))"
  have "case snd res of Ret n ctx \<Rightarrow> n = 0 \<and> elems (root (pc_config ctx)) \<noteq> [] | _ \<Rightarrow> False"
    unfolding res_def by code_simp
  then obtain l' ctx' where r: "res = (l', Ret 0 ctx')" "elems (root (pc_config ctx')) \<noteq> []"
    by (cases res) (auto split: pstate.splits)
  show ?thesis using yyparse_refines_reference [OF r(1) [unfolded res_def]] r(2) by auto
qed

text \<open>
  Every parse ends, without a crash and with a well-typed tree: if the
  scanner delivers the end of input after \<open>k\<close> tokens whose values have the type
  of their token, and at most \<open>MAX_NEST\<close> of them open a bracket, the driver stops
  within \<open>12 (k + 1)\<close> steps with result 0, or with 1 and an error text.
\<close>

theorem parse_always_ends:
  assumes "lex_token (token_at lx k l) = 0" "\<forall>i\<le>k. typed_lexed (token_at lx i l)" "openers lx k l \<le> MAX_NEST"
    "well_typed (root cfg)" "s_type (root cfg) = CONFIG_TYPE_GROUP"
  shows "\<exists>r p. yyparse lx (12 * Suc k) l (parsectx_init cfg) = Stop r p \<and> r \<le> 1
     \<and> well_typed (root (pc_config (ps_ctx p))) \<and> (r = 1 \<longrightarrow> error_text (pc_config (ps_ctx p)) \<noteq> None)"
  by (rule parse_ends [OF assms])

theorem parse_always_ends_witness:
  "\<exists>r p. yyparse list_lexer (12 * Suc 16) sample_tokens (parsectx_init config_init) = Stop r p \<and> r \<le> 1
     \<and> well_typed (root (pc_config (ps_ctx p))) \<and> (r = 1 \<longrightarrow> error_text (pc_config (ps_ctx p)) \<noteq> None)"
proof (rule parse_always_ends)
  show "lex_token (token_at list_lexer 16 sample_tokens) = 0" by code_simp
  have "list_all (\<lambda>i. typed_lexed (token_at list_lexer i sample_tokens)) [0..<17]" by code_simp
  then show "\<forall>i\<le>16. typed_lexed (token_at list_lexer i sample_tokens)" by (simp add: list_all_iff)
  show "openers list_lexer 16 sample_tokens \<le> MAX_NEST" by code_simp
qed (simp_all add: config_init_def)

text \<open>
  C10. What the parser builds: from the tokens that spell a well-formed file it
  builds the tree the file denotes, apart from the positions in the source, and
  changes nothing else of the configuration.
\<close>

theorem parse_builds_tree:
  assumes "spells (stream lx n l YUndef) (concat (map member_toks ms) @ [(0, None)])"
    "\<forall>i<n. lx_error (token_at lx i l) = None" "wf_ast (AGroup ms)" "ast_depth (AGroup ms) \<le> MAX_NEST"
    "root cfg = new_setting None CONFIG_TYPE_GROUP"
  shows "\<exists>p t. yyparse lx (12 * n) l (parsectx_init cfg) = Stop 0 p \<and> pc_config (ps_ctx p) = cfg\<lparr>root := t\<rparr>
     \<and> erase t = denote None (AGroup ms)"
  by (rule builds_tree [OF assms])

theorem parse_builds_tree_witness:
  "\<exists>p t. yyparse list_lexer (12 * 17) sample_tokens (parsectx_init config_init) = Stop 0 p
     \<and> pc_config (ps_ctx p) = config_init\<lparr>root := t\<rparr> \<and> erase t = denote None (AGroup sample_ast)"
proof (rule parse_builds_tree)
  show "spells (stream list_lexer 17 sample_tokens YUndef) (concat (map member_toks sample_ast) @ [(0, None)])"
    unfolding spells_def by code_simp
  have "list_all (\<lambda>i. lx_error (token_at list_lexer i sample_tokens) = None) [0..<17]" by code_simp
  then show "\<forall>i<17. lx_error (token_at list_lexer i sample_tokens) = None" by (simp add: list_all_iff)
  show "wf_ast (AGroup sample_ast)" "ast_depth (AGroup sample_ast) \<le> MAX_NEST" by code_simp+
qed (simp add: config_init_def)

end
