(* ===== verification/Decimal.thy ===== *)
theory Decimal
  imports Cdouble Cstring
begin

text \<open>
  The C library's conversions between decimal text and \<open>double\<close>: \<open>atof\<close> on the
  decimal forms (rounded to the nearest double, ties to even, with overflow to
  infinity and gradual underflow) and \<open>printf\<close>'s \<open>%.*g\<close> (correctly rounded, as in
  the GNU library).  The conversions set the C locale, so the point is a point.
\<close>

section \<open>Reading\<close>

text \<open>A power of two moved between mantissa and exponent, until the exponent is 0 or the mantissa odd.\<close>

function reduce :: "nat \<Rightarrow> int \<Rightarrow> nat \<times> int" where
  "reduce m k = (if k < 0 \<and> even m then reduce (m div 2) (k + 1) else (m, k))"
  by pat_completeness auto
termination
  by (relation "measure (\<lambda>(m, k). nat (- k))") auto

declare reduce.simps [simp del]

definition scale2 :: "nat \<Rightarrow> nat \<Rightarrow> int \<Rightarrow> nat" where
  \<comment> \<open>the quotient \<open>n / d\<close> divided by \<open>2 ^ k\<close>, rounded\<close>
  "scale2 n d k = (if 0 \<le> k then round_half_even n (d * 2 ^ nat k) else round_half_even (n * 2 ^ nat (- k)) d)"

text \<open>The double nearest to \<open>n / d\<close>: 53 significant bits, exponent at least -1074.\<close>

definition double_of_ratio :: "bool \<Rightarrow> nat \<Rightarrow> nat \<Rightarrow> cdouble" where
  "double_of_ratio s n d =
     (if n = 0 then Finite s 0 0
      else let k0 = int (bitlen n) - int (bitlen d) - 53;
               big = (if 0 \<le> k0 + 53 then d * 2 ^ nat (k0 + 53) \<le> n else d \<le> n * 2 ^ nat (- (k0 + 53)));
               k = max (- 1074) (if big then k0 + 1 else k0);
               m = scale2 n d k
           in if 1024 \<le> int (bitlen m) + k then Infinity s
              else case reduce m k of (m', k') \<Rightarrow> Finite s m' k')"

definition split_sign :: "string \<Rightarrow> bool \<times> string" where
  "split_sign s =
     (case s of c # r \<Rightarrow> if c = CHR ''-'' then (True, r) else if c = CHR ''+'' then (False, r) else (False, s)
      | [] \<Rightarrow> (False, []))"

definition exponent_part :: "string \<Rightarrow> int" where
  "exponent_part s =
     (case s of c # r \<Rightarrow>
        if c = CHR ''e'' \<or> c = CHR ''E'' then
          (case split_sign r of (sg, t) \<Rightarrow>
             let x = int (dec_val 0 (takeWhile isdigit t)) in if sg then - x else x)
        else 0
      | [] \<Rightarrow> 0)"

definition atof :: "string \<Rightarrow> cdouble" where
  "atof s =
     (case split_sign (dropWhile isspace s) of
        (sg, t) \<Rightarrow>
          (let ip = takeWhile isdigit t; u = dropWhile isdigit t;
               (fp, v) = (case u of c # r \<Rightarrow> if c = CHR ''.'' then (takeWhile isdigit r, dropWhile isdigit r) else ([], u)
                          | [] \<Rightarrow> ([], []));
               n = dec_val 0 (ip @ fp); x = exponent_part v - int (length fp)
           in if ip @ fp = [] then dzero
              else if 0 \<le> x then double_of_ratio sg (n * 10 ^ nat x) 1
              else double_of_ratio sg n (10 ^ nat (- x))))"

section \<open>Printing\<close>

text \<open>For \<open>0 < n < d\<close>, how often \<open>n\<close> is multiplied by ten to reach \<open>d\<close>.\<close>

function tens_below :: "nat \<Rightarrow> nat \<Rightarrow> nat" where
  "tens_below n d = (if n = 0 \<or> d \<le> n then 0 else Suc (tens_below (10 * n) d))"
  by pat_completeness auto
termination
  by (relation "measure (\<lambda>(n, d). d - n)") auto

declare tens_below.simps [simp del]

definition decimal_exponent :: "nat \<Rightarrow> nat \<Rightarrow> int" where
  "decimal_exponent n d = (if d \<le> n then int (length (show_nat (n div d))) - 1 else - int (tens_below n d))"

definition strip_zeros :: "string \<Rightarrow> string" where
  "strip_zeros s = rev (dropWhile (\<lambda>c. c = CHR ''0'') (rev s))"

definition with_fraction :: "string \<Rightarrow> string \<Rightarrow> string" where
  "with_fraction ip fp = (let f = strip_zeros fp in if f = [] then ip else ip @ ''.'' @ f)"

definition show_exponent :: "int \<Rightarrow> string" where
  "show_exponent x =
     (let d = show_nat (nat \<bar>x\<bar>)
      in ''e'' @ (if x < 0 then ''-'' else ''+'') @ (if length d < 2 then ''0'' @ d else d))"

text \<open>The \<open>p\<close> significant digits and the exponent, after rounding.\<close>

definition g_digits :: "nat \<Rightarrow> nat \<Rightarrow> nat \<Rightarrow> nat \<times> int" where
  "g_digits p n d =
     (let x = decimal_exponent n d; j = int p - 1 - x;
          q = (if 0 \<le> j then round_half_even (n * 10 ^ nat j) d else round_half_even n (d * 10 ^ nat (- j)))
      in if q = 10 ^ p then (10 ^ (p - 1), x + 1) else (q, x))"

definition show_g_ratio :: "nat \<Rightarrow> nat \<Rightarrow> nat \<Rightarrow> string" where
  "show_g_ratio p n d =
     (if n = 0 then ''0''
      else case g_digits p n d of
        (q, x) \<Rightarrow>
          (let ds = show_nat q
           in if x < - 4 \<or> int p \<le> x then with_fraction (take 1 ds) (drop 1 ds) @ show_exponent x
              else if 0 \<le> x then with_fraction (take (nat x + 1) ds) (drop (nat x + 1) ds)
              else with_fraction ''0'' (replicate (nat (- x) - 1) (CHR ''0'') @ ds)))"

definition show_g :: "nat \<Rightarrow> cdouble \<Rightarrow> string" where
  "show_g p v =
     (case v of
        Finite s m e \<Rightarrow> (if s then ''-'' else '''') @
          (if 0 \<le> e then show_g_ratio p (m * 2 ^ nat e) 1 else show_g_ratio p m (2 ^ nat (- e)))
      | Infinity s \<Rightarrow> (if s then ''-'' else '''') @ ''inf''
      | NaN \<Rightarrow> ''nan'')"

end
