(* ===== verification/Scanner.thy ===== *)
theory Scanner
  imports Ast Decimal
begin

text \<open>
  The scanner of configuration files (\<open>lib/scanner.l\<close>, \<open>lib/scanner.c\<close>): the tables
  of the generated automaton, the matching loop with its back-up, the rule
  actions, the include files, and the loop of \<open>yylex\<close>.

  A buffer is the text that is left of its input, and whether it stands at the
  beginning of a line, and the line number.  Reading the input in pieces
  (\<open>yy_get_next_buffer\<close>) is not modelled: the automaton's run does not depend on
  the pieces, as a run that meets the end of a piece is continued from the state
  it was in.  A NUL in the input belongs to class 1 (\<open>yy_get_previous_state\<close>,
  \<open>yy_try_NUL_trans\<close>).
\<close>

section \<open>The tables\<close>

definition yy_accept :: "int list" where
  "yy_accept =
     [0, 0, 0, 0, 0, 0, 0, 0, 0, 43, 41, 22, 21, 21, 5, 41, 37, 38, 29, 41,
      24, 30, 41, 31, 31, 23, 39, 29, 29, 35, 36, 25, 26, 22, 41, 3, 4, 3, 6, 15,
      14, 17, 20, 42, 22, 0, 40, 29, 30, 31, 30, 0, 1, 0, 30, 0, 32, 0, 29, 29,
      22, 0, 0, 2, 6, 12, 0, 11, 10, 7, 8, 9, 17, 19, 18, 0, 30, 30, 0, 0,
      30, 32, 33, 29, 29, 0, 0, 0, 30, 34, 29, 27, 0, 13, 34, 28, 0, 0, 0, 0,
      0, 16, 0]"

definition yy_ec :: "int list" where
  "yy_ec =
     [0, 1, 1, 1, 1, 1, 1, 1, 1, 2, 3, 1, 4, 5, 1, 1, 1, 1, 1, 1,
      1, 1, 1, 1, 1, 1, 1, 1, 1, 1, 1, 1, 2, 1, 6, 7, 1, 1, 1, 1,
      8, 9, 10, 11, 12, 13, 14, 15, 16, 17, 17, 17, 17, 17, 17, 17, 17, 17, 18, 19,
      1, 20, 1, 1, 21, 22, 23, 23, 23, 24, 25, 26, 26, 26, 26, 26, 27, 26, 26, 26,
      26, 26, 28, 29, 30, 31, 26, 26, 32, 26, 26, 33, 34, 35, 1, 36, 1, 22, 23, 37,
      38, 39, 40, 26, 26, 41, 26, 26, 42, 26, 43, 26, 26, 26, 44, 29, 45, 46, 26, 26,
      32, 26, 26, 47, 1, 48, 1, 1, 1, 1, 1, 1, 1, 1, 1, 1, 1, 1, 1, 1,
      1, 1, 1, 1, 1, 1, 1, 1, 1, 1, 1, 1, 1, 1, 1, 1, 1, 1, 1, 1,
      1, 1, 1, 1, 1, 1, 1, 1, 1, 1, 1, 1, 1, 1, 1, 1, 1, 1, 1, 1,
      1, 1, 1, 1, 1, 1, 1, 1, 1, 1, 1, 1, 1, 1, 1, 1, 1, 1, 1, 1,
      1, 1, 1, 1, 1, 1, 1, 1, 1, 1, 1, 1, 1, 1, 1, 1, 1, 1, 1, 1,
      1, 1, 1, 1, 1, 1, 1, 1, 1, 1, 1, 1, 1, 1, 1, 1, 1, 1, 1, 1,
      1, 1, 1, 1, 1, 1, 1, 1, 1, 1, 1, 1, 1, 1, 1, 1]"

definition yy_meta :: "int list" where
  "yy_meta =
     [0, 1, 1, 1, 1, 1, 2, 1, 1, 1, 3, 1, 1, 3, 1, 1, 4, 4, 1, 1,
      1, 1, 4, 4, 4, 4, 3, 3, 3, 3, 3, 3, 3, 1, 2, 1, 3, 4, 4, 4,
      4, 3, 3, 3, 3, 3, 3, 1, 1]"

definition yy_base :: "int list" where
  "yy_base =
     [0, 0, 47, 47, 48, 46, 47, 48, 49, 203, 204, 200, 204, 204, 204, 198, 204, 204, 0, 45,
      204, 47, 50, 60, 74, 204, 204, 178, 28, 204, 204, 204, 204, 64, 158, 204, 204, 183, 0, 204,
      63, 0, 204, 83, 195, 193, 204, 0, 88, 102, 98, 62, 204, 190, 104, 119, 162, 0, 67, 65,
      121, 127, 124, 204, 0, 204, 0, 204, 204, 204, 204, 204, 0, 204, 204, 108, 117, 122, 134, 132,
      136, 204, 139, 136, 116, 126, 0, 140, 142, 135, 130, 0, 102, 204, 204, 0, 85, 72, 63, 98,
      158, 204, 204, 169, 173, 177, 181, 183, 187, 191, 89, 66, 63]"

definition yy_def :: "int list" where
  "yy_def =
     [0, 102, 1, 103, 103, 104, 104, 105, 105, 102, 102, 102, 102, 102, 102, 106, 102, 102, 107, 102,
      102, 102, 102, 102, 102, 102, 102, 107, 107, 102, 102, 102, 102, 102, 102, 102, 102, 102, 108, 102,
      102, 109, 102, 102, 102, 106, 102, 107, 102, 102, 102, 102, 102, 106, 102, 102, 102, 110, 107, 107,
      102, 102, 102, 102, 108, 102, 111, 102, 102, 102, 102, 102, 109, 102, 102, 102, 102, 102, 102, 102,
      102, 102, 110, 107, 107, 102, 112, 102, 102, 102, 107, 107, 102, 102, 102, 107, 102, 102, 102, 102,
      102, 102, 0, 102, 102, 102, 102, 102, 102, 102, 102, 102, 102]"

definition yy_nxt :: "int list" where
  "yy_nxt =
     [0, 10, 11, 12, 13, 13, 14, 15, 16, 17, 18, 19, 20, 19, 21, 22, 23, 24, 25, 26,
      25, 10, 18, 18, 18, 27, 18, 18, 18, 18, 28, 18, 18, 29, 10, 30, 10, 18, 18, 18,
      27, 18, 18, 18, 18, 28, 18, 31, 32, 33, 36, 36, 39, 39, 42, 42, 59, 37, 37, 48,
      52, 49, 49, 50, 50, 53, 60, 93, 34, 65, 86, 51, 59, 75, 54, 75, 49, 49, 76, 76,
      40, 40, 43, 43, 55, 61, 51, 56, 54, 73, 49, 49, 57, 82, 83, 66, 84, 67, 55, 55,
      100, 56, 99, 68, 50, 50, 69, 70, 71, 83, 98, 84, 51, 55, 50, 50, 54, 74, 49, 49,
      77, 77, 51, 60, 76, 76, 55, 51, 78, 56, 79, 97, 79, 76, 76, 80, 80, 51, 77, 77,
      91, 55, 61, 78, 96, 87, 78, 87, 80, 80, 88, 88, 80, 80, 95, 91, 88, 88, 88, 88,
      100, 78, 94, 92, 101, 90, 89, 85, 62, 95, 35, 35, 35, 35, 38, 38, 38, 38, 41, 41,
      41, 41, 45, 45, 45, 45, 47, 47, 64, 81, 64, 64, 72, 46, 72, 72, 46, 44, 63, 62,
      58, 46, 44, 102, 9, 102, 102, 102, 102, 102, 102, 102, 102, 102, 102, 102, 102, 102, 102, 102,
      102, 102, 102, 102, 102, 102, 102, 102, 102, 102, 102, 102, 102, 102, 102, 102, 102, 102, 102, 102,
      102, 102, 102, 102, 102, 102, 102, 102, 102, 102, 102, 102, 102]"

definition yy_chk :: "int list" where
  "yy_chk =
     [0, 1, 1, 1, 1, 1, 1, 1, 1, 1, 1, 1, 1, 1, 1, 1, 1, 1, 1, 1,
      1, 1, 1, 1, 1, 1, 1, 1, 1, 1, 1, 1, 1, 1, 1, 1, 1, 1, 1, 1,
      1, 1, 1, 1, 1, 1, 1, 1, 1, 2, 3, 4, 5, 6, 7, 8, 28, 3, 4, 19,
      22, 19, 19, 21, 21, 22, 33, 112, 2, 40, 111, 21, 28, 51, 23, 51, 23, 23, 51, 51,
      5, 6, 7, 8, 23, 33, 21, 23, 24, 43, 24, 24, 23, 110, 58, 40, 59, 40, 24, 23,
      99, 24, 98, 40, 48, 48, 40, 40, 40, 58, 97, 59, 48, 24, 50, 50, 49, 43, 49, 49,
      54, 54, 50, 60, 75, 75, 49, 48, 54, 49, 55, 96, 55, 76, 76, 55, 55, 50, 77, 77,
      84, 49, 60, 54, 92, 78, 77, 78, 79, 79, 78, 78, 80, 80, 90, 84, 87, 87, 88, 88,
      100, 77, 89, 85, 100, 83, 82, 62, 61, 90, 103, 103, 103, 103, 104, 104, 104, 104, 105, 105,
      105, 105, 106, 106, 106, 106, 107, 107, 108, 56, 108, 108, 109, 53, 109, 109, 45, 44, 37, 34,
      27, 15, 11, 9, 102, 102, 102, 102, 102, 102, 102, 102, 102, 102, 102, 102, 102, 102, 102, 102,
      102, 102, 102, 102, 102, 102, 102, 102, 102, 102, 102, 102, 102, 102, 102, 102, 102, 102, 102, 102,
      102, 102, 102, 102, 102, 102, 102, 102, 102, 102, 102, 102, 102]"

definition yy_rule_can_match_eol :: "int list" where
  "yy_rule_can_match_eol =
     [0, 0, 0, 0, 1, 0, 1, 0, 0, 0, 0, 0, 0, 0, 0, 0, 0, 1, 0, 0,
      0, 1, 0, 0, 0, 0, 0, 0, 0, 0, 0, 0, 0, 0, 0, 0, 0, 0, 0, 0,
      0, 0, 0]"

definition YY_END_OF_BUFFER :: int where "YY_END_OF_BUFFER = 43"
definition YY_JAM :: int where "YY_JAM = 102"
definition YY_JAMBASE :: int where "YY_JAMBASE = 204"

section \<open>The automaton\<close>

definition yy_class :: "char \<Rightarrow> int" where
  "yy_class c = (if c = CHR 0x00 then 1 else yy_ec ! of_char c)"

definition yy_at :: "int list \<Rightarrow> int \<Rightarrow> int" where
  "yy_at table i = table ! nat i"

text \<open>
  The transition: the entry of the state, or of its default state, with the
  class mapped once the state is a template.  Chains of default states have at
  most two steps, see \<open>yy_goto_total\<close>; the fuel is never used up.
\<close>

fun yy_goto :: "nat \<Rightarrow> int \<Rightarrow> int \<Rightarrow> int option" where
  "yy_goto 0 s k = None"
| "yy_goto (Suc fuel) s k =
     (if yy_at yy_chk (yy_at yy_base s + k) = s then Some (yy_at yy_nxt (yy_at yy_base s + k))
      else let d = yy_at yy_def s in yy_goto fuel d (if 103 \<le> d then yy_at yy_meta k else k))"

definition yy_next :: "int \<Rightarrow> int \<Rightarrow> int" where
  "yy_next s k = (case yy_goto 4 s k of Some t \<Rightarrow> t | None \<Rightarrow> YY_JAM)"

text \<open>
  The rule to act on and the length of its text: that of the state reached, or
  of the last accepting state.
\<close>

definition yy_find_action :: "int \<Rightarrow> nat \<Rightarrow> (int \<times> nat) option \<Rightarrow> int \<times> nat" where
  "yy_find_action s n acc =
     (if yy_at yy_accept s \<noteq> 0 then (yy_at yy_accept s, n)
      else case acc of Some (t, m) \<Rightarrow> (yy_at yy_accept t, m) | None \<Rightarrow> (0, n))"

text \<open>
  The matching loop on the text left, after \<open>n\<close> characters.  At the end of the
  input the action is that of the state reached (\<open>EOB_ACT_LAST_MATCH\<close>).
\<close>

fun yy_match :: "int \<Rightarrow> string \<Rightarrow> nat \<Rightarrow> (int \<times> nat) option \<Rightarrow> int \<times> nat" where
  "yy_match s [] n acc = yy_find_action s n acc"
| "yy_match s (c # cs) n acc =
     (let acc' = (if yy_at yy_accept s \<noteq> 0 then Some (s, n) else acc); s' = yy_next s (yy_class c)
      in if yy_at yy_base s' = YY_JAMBASE then yy_find_action s' (n + 1) acc'
         else yy_match s' cs (n + 1) acc')"

section \<open>The state of the scanner\<close>

definition INITIAL :: int where "INITIAL = 0"
definition COMMENT :: int where "COMMENT = 1"
definition STRING :: int where "STRING = 2"
definition INCLUDE :: int where "INCLUDE = 3"

record yy_buffer =
  yb_rest :: string
  yb_at_bol :: bool
  yb_lineno :: nat

record scanner =
  yy_start :: int
  yy_buffer :: yy_buffer
  yyextra :: "yy_buffer scan_context"
  yyout :: string      \<comment> \<open>what was echoed\<close>

definition new_buffer :: "string \<Rightarrow> yy_buffer" where
  "new_buffer text = \<lparr>yb_rest = text, yb_at_bol = True, yb_lineno = 1\<rparr>"

definition BEGIN :: "int \<Rightarrow> scanner \<Rightarrow> scanner" where
  "BEGIN condition sc = sc\<lparr>yy_start := 1 + 2 * condition\<rparr>"

definition append_text :: "string \<Rightarrow> scanner \<Rightarrow> scanner" where
  "append_text s sc = sc\<lparr>yyextra := scanctx_append_string (yyextra sc) s\<rparr>"

text \<open>The text as a C string: it ends at a NUL.\<close>

definition c_text :: "string \<Rightarrow> string" where
  "c_text s = takeWhile (\<lambda>c. c \<noteq> CHR 0x00) s"

text \<open>
  The text of the rule is taken off the buffer; the line number counts its line
  ends if the rule can match one.  Rule 40 has trailing context: its last
  character, the line end, is put back.
\<close>

definition yy_before_action :: "int \<Rightarrow> nat \<Rightarrow> scanner \<Rightarrow> scanner \<times> string" where
  "yy_before_action act n sc =
     (let b = yy_buffer sc;
          lines = (if yy_at yy_rule_can_match_eol act \<noteq> 0 then count_list (take n (yb_rest b)) (CHR 0x0A) else 0);
          n' = (if act = 40 then n - 1 else n);
          yytext = take n' (yb_rest b)
      in (sc\<lparr>yy_buffer := \<lparr>yb_rest = drop n' (yb_rest b),
                yb_at_bol = (if n' > 0 then last yytext = CHR 0x0A else yb_at_bol b),
                yb_lineno = yb_lineno b + lines\<rparr>\<rparr>, yytext))"

section \<open>The actions\<close>

definition lexed_token :: "int \<Rightarrow> lexed" where
  "lexed_token t = \<lparr>lx_token = t, lx_value = None, lx_error = None\<rparr>"

definition lexed_value :: "int \<Rightarrow> yystype \<Rightarrow> lexed" where
  "lexed_value t v = \<lparr>lx_token = t, lx_value = Some v, lx_error = None\<rparr>"

definition fromhex :: "string \<Rightarrow> word64" where
  "fromhex s = of_nat (strtoul16 s)"

definition hex_char :: "string \<Rightarrow> string" where
  "hex_char yytext = c_text [char_of (hex_val 0 (takeWhile isxdigit (drop 2 yytext)) mod 256)]"

text \<open>Rules 15 and 20: the end of a string, and of the name of an include file.\<close>

definition take_string_action :: "scanner \<Rightarrow> scanner \<times> lexed option" where
  "take_string_action sc =
     (case scanctx_take_string (yyextra sc) of
        (ctx, s) \<Rightarrow> (BEGIN INITIAL (sc\<lparr>yyextra := ctx\<rparr>), Some (lexed_value TOK_STRING (YSval s))))"

definition include_action :: "(string \<Rightarrow> string option) \<Rightarrow> scanner \<Rightarrow> scanner \<times> lexed option" where
  "include_action fopen sc =
     (case scanctx_push_include fopen (yyextra sc) (yy_buffer sc) of
        (ctx, Inr fp) \<Rightarrow> (BEGIN INITIAL (sc\<lparr>yyextra := ctx, yy_buffer := new_buffer fp\<rparr>), None)
      | (ctx, Inl err) \<Rightarrow>
          (sc\<lparr>yyextra := ctx\<rparr>,
           Some \<lparr>lx_token = TOK_ERROR, lx_value = None,
                 lx_error = Some (err, scanctx_current_filename ctx, int (yb_lineno (yy_buffer sc)))\<rparr>))"

text \<open>The rules that only change the state of the scanner; the other rules deliver a token.\<close>

definition yy_silent_action :: "int \<Rightarrow> string \<Rightarrow> scanner \<Rightarrow> scanner" where
  "yy_silent_action act yytext sc =
     (if act = 1 then BEGIN COMMENT sc
      else if act = 2 then BEGIN INITIAL sc
      else if act = 5 then BEGIN STRING sc
      else if act = 6 \<or> act = 17 then append_text (c_text yytext) sc
      else if act = 7 then append_text [CHR 0x0A] sc
      else if act = 8 then append_text [CHR 0x0D] sc
      else if act = 9 then append_text [CHR 0x09] sc
      else if act = 10 then append_text [CHR 0x0C] sc
      else if act = 11 \<or> act = 14 \<or> act = 18 then append_text [CHR 0x5C] sc
      else if act = 12 \<or> act = 19 then append_text [CHR 0x22] sc
      else if act = 13 then append_text (hex_char yytext) sc
      else if act = 16 then BEGIN INCLUDE sc
      else if act = 42 then sc\<lparr>yyout := yyout sc @ yytext\<rparr>
      else sc)"

definition yy_token :: "int \<Rightarrow> string \<Rightarrow> lexed option" where
  "yy_token act yytext =
     (if act = 23 then Some (lexed_token TOK_EQUALS)
      else if act = 24 then Some (lexed_token TOK_COMMA)
      else if act = 25 then Some (lexed_token TOK_GROUP_START)
      else if act = 26 then Some (lexed_token TOK_GROUP_END)
      else if act = 27 then Some (lexed_value TOK_BOOLEAN (YIval 1))
      else if act = 28 then Some (lexed_value TOK_BOOLEAN (YIval 0))
      else if act = 29 then Some (lexed_value TOK_NAME (YSval yytext))
      else if act = 30 then Some (lexed_value TOK_FLOAT (YFval (atof yytext)))
      else if act = 31 then Some (lexed_value TOK_INTEGER (YIval (atoi yytext)))
      else if act = 32 then Some (lexed_value TOK_INTEGER64 (YLlval (atoll yytext)))
      else if act = 33 then Some (lexed_value TOK_HEX (YIval (of_nat (strtoul16 yytext))))
      else if act = 34 then Some (lexed_value TOK_HEX64 (YLlval (fromhex yytext)))
      else if act = 35 then Some (lexed_token TOK_ARRAY_START)
      else if act = 36 then Some (lexed_token TOK_ARRAY_END)
      else if act = 37 then Some (lexed_token TOK_LIST_START)
      else if act = 38 then Some (lexed_token TOK_LIST_END)
      else if act = 39 then Some (lexed_token TOK_SEMICOLON)
      else if act = 41 then Some (lexed_token TOK_GARBAGE)
      else None)"

definition yy_action :: "(string \<Rightarrow> string option) \<Rightarrow> int \<Rightarrow> string \<Rightarrow> scanner \<Rightarrow> scanner \<times> lexed option" where
  "yy_action fopen act yytext sc =
     (if act = 15 then take_string_action sc
      else if act = 20 then include_action fopen sc
      else (yy_silent_action act yytext sc, yy_token act yytext))"

text \<open>The end of a buffer: back to the buffer that included it, or the end of the input.\<close>

definition yy_eof_action :: "scanner \<Rightarrow> scanner \<times> lexed option" where
  "yy_eof_action sc =
     (case scanctx_pop_include (yyextra sc) of
        (ctx, Some b) \<Rightarrow> (sc\<lparr>yyextra := ctx, yy_buffer := b\<rparr>, None)
      | (ctx, None) \<Rightarrow> (sc, Some (lexed_token YYEOF)))"

section \<open>The scanner\<close>

definition yy_scan :: "(string \<Rightarrow> string option) \<Rightarrow> scanner \<Rightarrow> scanner \<times> lexed option" where
  "yy_scan fopen sc =
     (let b = yy_buffer sc
      in if yb_rest b = [] then yy_eof_action sc
         else case yy_match (yy_start sc + (if yb_at_bol b then 1 else 0)) (yb_rest b) 0 None of
           (act, n) \<Rightarrow> (case yy_before_action act n sc of (sc', yytext) \<Rightarrow> yy_action fopen act yytext sc'))"

partial_function (option) yylex_loop :: "(string \<Rightarrow> string option) \<Rightarrow> scanner \<Rightarrow> (scanner \<times> lexed) option" where
  "yylex_loop fopen sc =
     (let r = yy_scan fopen sc
      in case snd r of
           Some x \<Rightarrow> Some (fst r, x)
         | None \<Rightarrow> yylex_loop fopen (fst r))"

declare yylex_loop.simps [code]

text \<open>
  The scanner as the parser sees it.  The loop returns for every state that
  occurs, see \<open>yylex_loop_returns\<close>; the second case below is never taken there.
\<close>

definition flex_lexer :: "(string \<Rightarrow> string option) \<Rightarrow> scanner lexer" where
  "flex_lexer fopen =
     \<lparr>yylex = (\<lambda>sc. case yylex_loop fopen sc of Some r \<Rightarrow> r | None \<Rightarrow> (sc, lexed_token YYEOF)),
      yyget_lineno = (\<lambda>sc. yb_lineno (yy_buffer sc)),
      lex_filename = (\<lambda>sc. scanctx_current_filename (yyextra sc))\<rparr>"

definition scanner_init :: "yy_buffer scan_context \<Rightarrow> string \<Rightarrow> scanner" where
  "scanner_init ctx text = \<lparr>yy_start = 1, yy_buffer = new_buffer text, yyextra = ctx, yyout = []\<rparr>"

end
