(* ===== verification/ScanRules.thy ===== *)
theory ScanRules
  imports Scanner
begin

text \<open>
  The lexical rules of \<open>lib/scanner.l\<close> as regular expressions, and the proof that
  the generated tables implement them: the matching loop finds the longest text
  a rule of the start condition recognises, and the first such rule.  The proof
  runs derivatives of the rules beside the automaton until no new pair of a
  state and residual rules appears, and checks each pair.
\<close>

section \<open>Regular expressions\<close>

text \<open>A class is a list of characters, or (\<open>False\<close>) the characters that are not in the list.\<close>

datatype 'a rexp =
    Zero | One | Cls bool "'a list" | Alt "'a rexp" "'a rexp" | Seq "'a rexp" "'a rexp" | Star "'a rexp"

inductive recog :: "'a rexp \<Rightarrow> 'a list \<Rightarrow> bool" where
  recog_One: "recog One []"
| recog_Cls: "c \<in> set cs \<longleftrightarrow> b \<Longrightarrow> recog (Cls b cs) [c]"
| recog_Alt1: "recog p w \<Longrightarrow> recog (Alt p q) w"
| recog_Alt2: "recog q w \<Longrightarrow> recog (Alt p q) w"
| recog_Seq: "recog p v \<Longrightarrow> recog q w \<Longrightarrow> recog (Seq p q) (v @ w)"
| recog_Star0: "recog (Star p) []"
| recog_Star1: "recog p v \<Longrightarrow> recog (Star p) w \<Longrightarrow> recog (Star p) (v @ w)"

inductive_simps recog_simps [simp]: "recog Zero w" "recog One w" "recog (Cls b cs) w" "recog (Alt p q) w"
inductive_simps recog_Seq_iff: "recog (Seq p q) w"
inductive_cases recog_StarE: "recog (Star p) w"

fun nullable :: "'a rexp \<Rightarrow> bool" where
  "nullable Zero = False"
| "nullable One = True"
| "nullable (Cls b cs) = False"
| "nullable (Alt p q) = (nullable p \<or> nullable q)"
| "nullable (Seq p q) = (nullable p \<and> nullable q)"
| "nullable (Star p) = True"

definition alt :: "'a rexp \<Rightarrow> 'a rexp \<Rightarrow> 'a rexp" where
  "alt p q = (if p = Zero then q else if q = Zero \<or> p = q then p else Alt p q)"

definition seq :: "'a rexp \<Rightarrow> 'a rexp \<Rightarrow> 'a rexp" where
  "seq p q = (if p = Zero \<or> q = Zero then Zero else if p = One then q else Seq p q)"

fun deriv :: "'a \<Rightarrow> 'a rexp \<Rightarrow> 'a rexp" where
  "deriv c Zero = Zero"
| "deriv c One = Zero"
| "deriv c (Cls b cs) = (if (c \<in> set cs) = b then One else Zero)"
| "deriv c (Alt p q) = alt (deriv c p) (deriv c q)"
| "deriv c (Seq p q) = (if nullable p then alt (seq (deriv c p) q) (deriv c q) else seq (deriv c p) q)"
| "deriv c (Star p) = seq (deriv c p) (Star p)"

lemma recog_alt [simp]: "recog (alt p q) w \<longleftrightarrow> recog p w \<or> recog q w"
  by (auto simp: alt_def)

lemma recog_seq [simp]: "recog (seq p q) w \<longleftrightarrow> recog (Seq p q) w"
  by (auto simp: seq_def recog_Seq_iff)

lemma recog_Nil [simp]: "recog r [] \<longleftrightarrow> nullable r"
  by (induction r) (auto simp: recog_Seq_iff intro: recog_Star0)

lemma split_Cons_iff: "(\<exists>u v. c # w = u @ v \<and> P u v) \<longleftrightarrow> P [] (c # w) \<or> (\<exists>u v. w = u @ v \<and> P (c # u) v)"
proof -
  have "c # w = u @ v \<longleftrightarrow> (u = [] \<and> v = c # w) \<or> (\<exists>u'. u = c # u' \<and> w = u' @ v)" for u v
    by (cases u) auto
  then show ?thesis by auto
qed

lemma recog_Star_Cons: "recog (Star p) (c # w) \<longleftrightarrow> (\<exists>u v. w = u @ v \<and> recog p (c # u) \<and> recog (Star p) v)"
proof
  assume "recog (Star p) (c # w)"
  then show "\<exists>u v. w = u @ v \<and> recog p (c # u) \<and> recog (Star p) v"
  proof (induction "Star p" "c # w" rule: recog.induct)
    case (recog_Star1 v w')
    then show ?case by (cases v) auto
  qed
next
  assume "\<exists>u v. w = u @ v \<and> recog p (c # u) \<and> recog (Star p) v"
  then obtain u v where "w = u @ v" "recog p (c # u)" "recog (Star p) v" by blast
  then show "recog (Star p) (c # w)" using recog_Star1 [of p "c # u" v] by simp
qed

lemma recog_deriv [simp]: "recog (deriv c r) w \<longleftrightarrow> recog r (c # w)"
proof (induction r arbitrary: w)
  case (Seq p q)
  have "recog (Seq p q) (c # w) \<longleftrightarrow>
      (nullable p \<and> recog q (c # w)) \<or> (\<exists>u v. w = u @ v \<and> recog p (c # u) \<and> recog q v)"
    using split_Cons_iff [of c w "\<lambda>u v. recog p u \<and> recog q v"] by (simp add: recog_Seq_iff)
  then show ?case using Seq by (auto simp: recog_Seq_iff)
next
  case (Star p)
  then show ?case by (simp add: recog_Seq_iff recog_Star_Cons)
qed auto

lemma recog_code [code]: "recog r w \<longleftrightarrow> nullable (foldl (\<lambda>r c. deriv c r) r w)"
  by (induction w arbitrary: r) (simp_all del: recog_deriv add: recog_deriv [symmetric])

section \<open>The rules\<close>

definition char_range :: "char \<Rightarrow> char \<Rightarrow> string" where
  "char_range a b = map char_of [of_char a::int..of_char b]"

definition one_of :: "string \<Rightarrow> char rexp" where
  "one_of cs = Cls True cs"

definition none_of :: "string \<Rightarrow> char rexp" where
  "none_of cs = Cls False cs"

fun word :: "string list \<Rightarrow> char rexp" where
  "word [] = One"
| "word [cs] = one_of cs"
| "word (cs # ws) = Seq (one_of cs) (word ws)"

definition opt :: "'a rexp \<Rightarrow> 'a rexp" where
  "opt r = Alt One r"

definition plus1 :: "'a rexp \<Rightarrow> 'a rexp" where
  "plus1 r = Seq r (Star r)"

definition digits :: string where "digits = char_range (CHR ''0'') (CHR ''9'')"
definition letters :: string where "letters = char_range (CHR ''A'') (CHR ''Z'') @ char_range (CHR ''a'') (CHR ''z'')"
definition xdigits :: string where
  "xdigits = digits @ char_range (CHR ''A'') (CHR ''F'') @ char_range (CHR ''a'') (CHR ''f'')"
definition blanks :: string where "blanks = [CHR '' '', CHR 0x09]"
definition no_newline :: "char rexp" where "no_newline = none_of [CHR 0x0A]"

definition r_true :: "char rexp" where "r_true = word [''Tt'', ''Rr'', ''Uu'', ''Ee'']"
definition r_false :: "char rexp" where "r_false = word [''Ff'', ''Aa'', ''Ll'', ''Ss'', ''Ee'']"
definition r_name :: "char rexp" where "r_name = Seq (one_of (letters @ ''*'')) (Star (one_of (''-_*'' @ letters @ digits)))"
definition r_integer :: "char rexp" where "r_integer = Seq (opt (one_of ''-+'')) (plus1 (one_of digits))"
definition r_suffix :: "char rexp" where "r_suffix = Seq (one_of ''L'') (opt (one_of ''L''))"
definition r_integer64 :: "char rexp" where
  "r_integer64 = Seq (opt (one_of ''-+'')) (Seq (plus1 (one_of digits)) r_suffix)"
definition r_hex :: "char rexp" where "r_hex = Seq (word [''0'', ''Xx'']) (plus1 (one_of xdigits))"
definition r_hex64 :: "char rexp" where "r_hex64 = Seq (word [''0'', ''Xx'']) (Seq (plus1 (one_of xdigits)) r_suffix)"
definition r_hexchar :: "char rexp" where "r_hexchar = word [[CHR 0x5C], ''Xx'', xdigits, xdigits]"
definition r_exponent :: "char rexp" where
  "r_exponent = Seq (one_of ''eE'') (Seq (opt (one_of ''-+'')) (plus1 (one_of digits)))"
definition r_float :: "char rexp" where
  "r_float =
     Alt (Seq (opt (one_of ''-+'')) (Seq (opt (Star (one_of digits))) (Seq (one_of ''.'') (Seq (Star (one_of digits)) (opt r_exponent)))))
         (Seq (opt (one_of ''-+'')) (Seq (plus1 (one_of digits)) (Seq (opt (Seq (one_of ''.'') (Star (one_of digits)))) r_exponent)))"
definition r_comment :: "char rexp" where
  \<comment> \<open>with the line end that stands for the \<open>$\<close>\<close>
  "r_comment = Seq (Alt (one_of ''#'') (word [''/'', ''/''])) (Seq (Star no_newline) (one_of [CHR 0x0A]))"
definition r_include_open :: "char rexp" where
  "r_include_open =
     Seq (Star (one_of blanks)) (Seq (word [''@'', ''i'', ''n'', ''c'', ''l'', ''u'', ''d'', ''e'']) (Seq (plus1 (one_of blanks)) (one_of [CHR 0x22])))"

definition rules_initial :: "bool \<Rightarrow> (int \<times> char rexp) list" where
  "rules_initial bol =
     [(1, word [''/'', ''*'']), (5, one_of [CHR 0x22])] @ (if bol then [(16, r_include_open)] else []) @
     [(21, one_of [CHR 0x0A, CHR 0x0D, CHR 0x0C]), (22, plus1 (one_of blanks)), (23, one_of ''=:''), (24, one_of '',''),
      (25, one_of ''{''), (26, one_of ''}''), (27, r_true), (28, r_false), (29, r_name), (30, r_float), (31, r_integer),
      (32, r_integer64), (33, r_hex), (34, r_hex64), (35, one_of ''[''), (36, one_of '']''), (37, one_of ''(''), (38, one_of '')''),
      (39, one_of '';''), (40, r_comment), (41, no_newline)]"

definition rules_comment :: "(int \<times> char rexp) list" where
  "rules_comment = [(2, word [''*'', ''/'']), (3, no_newline), (4, one_of [CHR 0x0A])]"

definition escape :: "string \<Rightarrow> char rexp" where
  "escape c = word [[CHR 0x5C], c]"

definition rules_string :: "(int \<times> char rexp) list" where
  "rules_string =
     [(6, plus1 (none_of [CHR 0x22, CHR 0x5C])), (7, escape ''n''), (8, escape ''r''), (9, escape ''t''), (10, escape ''f''),
      (11, escape [CHR 0x5C]), (12, escape [CHR 0x22]), (13, r_hexchar), (14, one_of [CHR 0x5C]), (15, one_of [CHR 0x22])]"

definition rules_include :: "(int \<times> char rexp) list" where
  "rules_include =
     [(17, plus1 (none_of [CHR 0x22, CHR 0x5C])), (18, escape [CHR 0x5C]), (19, escape [CHR 0x22]), (20, one_of [CHR 0x22])]"

text \<open>The rules of a start condition, with the default rule for a single character.\<close>

definition flex_rules :: "int \<Rightarrow> bool \<Rightarrow> (int \<times> char rexp) list" where
  "flex_rules condition bol =
     (if condition = INITIAL then rules_initial bol else if condition = COMMENT then rules_comment
      else if condition = STRING then rules_string else rules_include) @ [(42, none_of [])]"

definition first_rule :: "(int \<times> 'a rexp) list \<Rightarrow> 'a list \<Rightarrow> int option" where
  "first_rule rules w = map_option fst (find (\<lambda>(a, r). recog r w) rules)"

text \<open>Rule \<open>a\<close> is the first to recognise the first \<open>n\<close> characters, and no rule recognises more.\<close>

definition longest_match :: "(int \<times> char rexp) list \<Rightarrow> string \<Rightarrow> int \<Rightarrow> nat \<Rightarrow> bool" where
  "longest_match rules text a n \<longleftrightarrow>
     n \<le> length text \<and> first_rule rules (take n text) = Some a \<and>
     (\<forall>m \<in> {n<..length text}. first_rule rules (take m text) = None)"

section \<open>Rules over character classes\<close>

fun on_classes :: "char rexp \<Rightarrow> int rexp" where
  "on_classes Zero = Zero"
| "on_classes One = One"
| "on_classes (Cls b cs) = Cls b (remdups (map yy_class cs))"
| "on_classes (Alt p q) = Alt (on_classes p) (on_classes q)"
| "on_classes (Seq p q) = Seq (on_classes p) (on_classes q)"
| "on_classes (Star p) = Star (on_classes p)"

fun leaves :: "'a rexp \<Rightarrow> 'a list list" where
  "leaves (Cls b cs) = [cs]"
| "leaves (Alt p q) = leaves p @ leaves q"
| "leaves (Seq p q) = leaves p @ leaves q"
| "leaves (Star p) = leaves p"
| "leaves _ = []"

text \<open>A set of characters is a union of classes.\<close>

definition class_closed :: "string \<Rightarrow> bool" where
  "class_closed cs \<longleftrightarrow> (\<forall>c d. c \<in> set cs \<and> yy_class d = yy_class c \<longrightarrow> d \<in> set cs)"

lemma recog_on_classes:
  "\<forall>cs \<in> set (leaves r). class_closed cs \<Longrightarrow> recog (on_classes r) (map yy_class w) \<longleftrightarrow> recog r w"
proof (induction r arbitrary: w)
  case (Cls b cs)
  then show ?case by (cases w) (auto simp: class_closed_def)
next
  case (Seq p q)
  have "recog (Seq (on_classes p) (on_classes q)) (map yy_class w) \<longleftrightarrow>
      (\<exists>u v. w = u @ v \<and> recog (on_classes p) (map yy_class u) \<and> recog (on_classes q) (map yy_class v))"
    by (auto simp: recog_Seq_iff map_eq_append_conv)
  then show ?case using Seq by (auto simp: recog_Seq_iff)
next
  case (Star p)
  have "recog (Star (on_classes p)) (map yy_class w) \<longleftrightarrow> recog (Star p) w"
  proof (induction "length w" arbitrary: w rule: less_induct)
    case less
    show ?case
    proof (cases w)
      case (Cons c w')
      have "recog (Star (on_classes p)) (map yy_class (c # w')) \<longleftrightarrow>
          (\<exists>u v. w' = u @ v \<and> recog (on_classes p) (map yy_class (c # u)) \<and> recog (Star (on_classes p)) (map yy_class v))"
        by (auto simp: recog_Star_Cons map_eq_append_conv)
      also have "\<dots> \<longleftrightarrow> (\<exists>u v. w' = u @ v \<and> recog p (c # u) \<and> recog (Star p) v)"
      proof (intro ex_cong1 conj_cong refl)
        fix u v
        assume "w' = u @ v"
        then show "recog (Star (on_classes p)) (map yy_class v) \<longleftrightarrow> recog (Star p) v"
          using less Cons by simp
        show "recog (on_classes p) (map yy_class (c # u)) \<longleftrightarrow> recog p (c # u)"
          using Star by (simp del: list.map)
      qed
      finally show ?thesis using Cons by (simp add: recog_Star_Cons)
    qed simp
  qed
  then show ?case by simp
qed auto

section \<open>The rows of the table\<close>

text \<open>
  All transitions of a state, for the classes 1 to 48, in one pass over the
  tables: the entries of the state, and below them those of its default state.
\<close>

fun overlay :: "int \<Rightarrow> int list \<Rightarrow> int list \<Rightarrow> int option list \<Rightarrow> int option list" where
  "overlay s (c # cs) (t # ts) (u # us) = (if c = s then Some t else u) # overlay s cs ts us"
| "overlay s cs ts us = []"

fun skip :: "nat \<Rightarrow> 'a list \<Rightarrow> 'a list" where
  "skip 0 xs = xs"
| "skip (Suc n) [] = []"
| "skip (Suc n) (x # xs) = skip n xs"

definition meta_row :: "'a list \<Rightarrow> 'a list" where
  "meta_row us = map (\<lambda>m. us ! nat (m - 1)) (skip 1 yy_meta)"

fun yy_row :: "nat \<Rightarrow> int \<Rightarrow> int option list" where
  "yy_row 0 s = replicate 48 None"
| "yy_row (Suc fuel) s =
     (let d = yy_at yy_def s; i = nat (yy_at yy_base s + 1)
      in overlay s (skip i yy_chk) (skip i yy_nxt)
           (if 103 \<le> d then meta_row (map (yy_goto fuel d) [1, 2, 3, 4]) else yy_row fuel d))"

lemma skip_drop [simp]: "skip n xs = drop n xs"
  by (induction n xs rule: skip.induct) simp_all

lemma overlay_nth:
  "i < length us \<Longrightarrow> length us \<le> length cs \<Longrightarrow> length us \<le> length ts \<Longrightarrow>
   overlay s cs ts us ! i = (if cs ! i = s then Some (ts ! i) else us ! i)"
  by (induction s cs ts us arbitrary: i rule: overlay.induct) (auto simp: nth_Cons' less_Suc_eq_0_disj)

lemma length_overlay: "length us \<le> length cs \<Longrightarrow> length us \<le> length ts \<Longrightarrow> length (overlay s cs ts us) = length us"
  by (induction s cs ts us rule: overlay.induct) auto

lemma tables_fit: "list_all (\<lambda>s. 0 \<le> yy_at yy_base s \<and> yy_at yy_base s \<le> 204 \<and> 0 \<le> yy_at yy_def s \<and> yy_at yy_def s \<le> 112) [0..112]"
  by code_simp

lemma table_lengths: "length yy_chk = 253" "length yy_nxt = 253" "length yy_meta = 49"
  by (simp_all add: yy_chk_def yy_nxt_def yy_meta_def)

lemma length_meta_row: "length (meta_row us) = 48"
  by (simp add: meta_row_def table_lengths)

lemma meta_small: "\<forall>m \<in> set (drop 1 yy_meta). m \<in> {1, 2, 3, 4}"
  by (simp add: yy_meta_def)

lemma yy_row_goto: "0 \<le> s \<Longrightarrow> s \<le> 112 \<Longrightarrow> yy_row fuel s = map (yy_goto fuel s) [1..48]"
proof (induction fuel arbitrary: s)
  case 0
  show ?case by (simp add: map_replicate_const)
next
  case (Suc fuel)
  define d where "d = yy_at yy_def s"
  define b where "b = nat (yy_at yy_base s + 1)"
  have d: "0 \<le> d" "d \<le> 112" using tables_fit Suc.prems by (auto simp: list_all_iff d_def)
  have base: "0 \<le> yy_at yy_base s" "yy_at yy_base s \<le> 204"
    using tables_fit Suc.prems by (auto simp: list_all_iff)
  then have b: "b \<le> 205" by (simp add: b_def)
  define r where "r = (if 103 \<le> d then meta_row (map (yy_goto fuel d) [1, 2, 3, 4]) else yy_row fuel d)"
  have row: "yy_row (Suc fuel) s = overlay s (drop b yy_chk) (drop b yy_nxt) r"
    by (simp add: Let_def d_def r_def b_def)
  have meta: "meta_row (map (yy_goto fuel d) [1, 2, 3, 4]) = map (yy_goto fuel d) (drop 1 yy_meta)"
    using meta_small by (auto simp: meta_row_def)
  have len: "length r = 48"
    using Suc.IH [OF d] by (simp add: length_meta_row r_def)
  have lens: "length (overlay s (drop b yy_chk) (drop b yy_nxt) r) = 48"
    using len b by (simp add: length_overlay table_lengths)
  show ?case
  proof (rule nth_equalityI)
    show "length (yy_row (Suc fuel) s) = length (map (yy_goto (Suc fuel) s) [1..48])"
      unfolding row lens by simp
    fix i
    assume "i < length (yy_row (Suc fuel) s)"
    then have i: "i < 48" unfolding row lens .
    have k: "[1..48] ! i = 1 + int i" using i by (simp add: nth_upto)
    have r: "r ! i = yy_goto fuel d (if 103 \<le> d then yy_at yy_meta (1 + int i) else 1 + int i)"
    proof (cases "103 \<le> d")
      case True
      have "nat (1 + int i) = Suc i" by simp
      moreover have "r = map (yy_goto fuel d) (drop 1 yy_meta)"
        unfolding r_def using True by (simp only: if_True meta)
      ultimately show ?thesis using True i table_lengths by (simp add: yy_at_def)
    next
      case False
      then show ?thesis using Suc.IH [OF d] i k by (simp add: r_def)
    qed
    have n: "b + i = nat (yy_at yy_base s + (1 + int i))" using base by (simp add: b_def)
    have "yy_row (Suc fuel) s ! i = (if drop b yy_chk ! i = s then Some (drop b yy_nxt ! i) else r ! i)"
      unfolding row using i len b by (simp add: overlay_nth table_lengths)
    then show "yy_row (Suc fuel) s ! i = map (yy_goto (Suc fuel) s) [1..48] ! i"
      using i b k n table_lengths r by (simp add: Let_def d_def yy_at_def)
  qed
qed

section \<open>States and residual rules\<close>

type_synonym residual = "(int \<times> int rexp) list"

definition residual :: "(int \<times> char rexp) list \<Rightarrow> residual" where
  "residual rules = map (\<lambda>(a, r). (a, on_classes r)) rules"

definition accepts :: "residual \<Rightarrow> int" where
  "accepts rs = (case find (\<lambda>(a, r). nullable r) rs of Some (a, r) \<Rightarrow> a | None \<Rightarrow> 0)"

definition residual_step :: "int \<Rightarrow> residual \<Rightarrow> residual" where
  "residual_step k rs = filter (\<lambda>(a, r). r \<noteq> Zero) (map (\<lambda>(a, r). (a, deriv k r)) rs)"

type_synonym state_residual = "int \<times> residual"

text \<open>
  The transitions of a state beside the derivatives of its residual rules: the
  state accepts what they accept, and where the automaton jams nothing is left
  of them.  A state where the loop stops has no transitions.
\<close>

fun transitions :: "int list \<Rightarrow> int option list \<Rightarrow> residual \<Rightarrow> (int option \<times> residual) list" where
  "transitions (k # ks) (t # ts) rs = (t, residual_step k rs) # transitions ks ts rs"
| "transitions ks ts rs = []"

definition good_transition :: "bool \<Rightarrow> int option \<times> residual \<Rightarrow> bool" where
  "good_transition stops p =
     (case fst p of None \<Rightarrow> False
      | Some t \<Rightarrow> t = YY_JAM \<or> stops \<longrightarrow> snd p = [])"

fun known :: "state_residual \<Rightarrow> state_residual list \<Rightarrow> bool" where
  "known p [] = False"
| "known p (q # qs) = (if fst p = fst q then if snd p = snd q then True else known p qs else known p qs)"

fun next_pairs :: "(int option \<times> residual) list \<Rightarrow> state_residual list \<Rightarrow> state_residual list" where
  "next_pairs [] ps = ps"
| "next_pairs ((t, rs) # ts) ps =
     (case t of None \<Rightarrow> next_pairs ts ps
      | Some t' \<Rightarrow> next_pairs ts (if t' = YY_JAM then ps else if known (t', rs) ps then ps else (t', rs) # ps))"

definition check_pair :: "state_residual \<Rightarrow> state_residual list option" where
  "check_pair p =
     (let rs = snd p; ts = transitions [1..48] (yy_row 4 (fst p)) rs
      in if 0 \<le> fst p \<and> fst p \<le> 112 \<and> yy_at yy_accept (fst p) = accepts rs \<and> list_all (\<lambda>(a, r). a \<noteq> 0) rs \<and>
            list_all (good_transition (yy_at yy_base (fst p) = YY_JAMBASE)) ts
         then Some (next_pairs ts []) else None)"

fun explore :: "nat \<Rightarrow> state_residual list \<Rightarrow> state_residual list \<Rightarrow> state_residual list option" where
  "explore 0 todo seen = None"
| "explore (Suc fuel) [] seen = Some seen"
| "explore (Suc fuel) (p # todo) seen =
     (if known p seen then explore fuel todo seen
      else case check_pair p of None \<Rightarrow> None | Some ps \<Rightarrow> explore fuel (ps @ todo) (p # seen))"

section \<open>The check is sound\<close>

definition good_pair :: "state_residual set \<Rightarrow> state_residual \<Rightarrow> bool" where
  "good_pair R p \<longleftrightarrow>
     yy_at yy_accept (fst p) = accepts (snd p) \<and> (\<forall>(a, r) \<in> set (snd p). a \<noteq> 0) \<and>
     (\<forall>k \<in> {1..48}. \<exists>t. yy_goto 4 (fst p) k = Some t \<and>
        (t = YY_JAM \<or> yy_at yy_base (fst p) = YY_JAMBASE \<longrightarrow> residual_step k (snd p) = []) \<and>
        (t = YY_JAM \<or> (t, residual_step k (snd p)) \<in> R))"

lemma known_in_set: "known p ps \<Longrightarrow> p \<in> set ps"
  by (induction p ps rule: known.induct) (auto split: if_splits simp: prod_eq_iff)

lemma transitions_map2: "length ks = length ts \<Longrightarrow> transitions ks ts rs = map (\<lambda>(k, t). (t, residual_step k rs)) (zip ks ts)"
  by (induction ks ts rule: list_induct2) auto

lemma next_pairs_sound:
  "(\<forall>p \<in> set ps. p \<in> set (next_pairs ts ps)) \<and> (\<forall>t rs. (Some t, rs) \<in> set ts \<longrightarrow> t \<noteq> YY_JAM \<longrightarrow> (t, rs) \<in> set (next_pairs ts ps))"
proof (induction ts ps rule: next_pairs.induct)
  case (2 t rs ts ps)
  then show ?case
    by (cases t) (auto dest: known_in_set split: if_splits)
qed simp

lemma check_pair_sound:
  assumes "check_pair (s, rs) = Some ps" "set ps \<subseteq> R"
  shows "good_pair R (s, rs)"
proof -
  have s: "0 \<le> s" "s \<le> 112" using assms(1) by (auto simp: check_pair_def Let_def split: if_splits)
  define ts where "ts = transitions [1..48] (yy_row 4 s) rs"
  have ts: "ts = map (\<lambda>k. (yy_goto 4 s k, residual_step k rs)) [1..48]"
    unfolding ts_def yy_row_goto [OF s] by (simp add: transitions_map2 zip_map2 zip_same_conv_map)
  have c: "yy_at yy_accept s = accepts rs" "\<forall>(a, r) \<in> set rs. a \<noteq> 0" "ps = next_pairs ts []"
    "list_all (good_transition (yy_at yy_base s = YY_JAMBASE)) ts"
    using assms(1) by (auto simp: check_pair_def ts_def Let_def list_all_iff split: if_splits)
  have g: "good_transition (yy_at yy_base s = YY_JAMBASE) (yy_goto 4 s k, residual_step k rs)" if "k \<in> {1..48}" for k
    using c(4) that unfolding ts list_all_iff by auto
  have n: "(t, residual_step k rs) \<in> set ps" if "k \<in> {1..48}" "yy_goto 4 s k = Some t" "t \<noteq> YY_JAM" for k t
  proof -
    have "(Some t, residual_step k rs) \<in> set ts" using that(1,2) unfolding ts by force
    then show ?thesis using next_pairs_sound [of "[]" ts] that(3) c(3) by blast
  qed
  show "good_pair R (s, rs)"
    unfolding good_pair_def
  proof (intro conjI ballI)
    fix k :: int
    assume k: "k \<in> {1..48}"
    obtain t where t: "yy_goto 4 s k = Some t" using g [OF k] by (auto simp: good_transition_def split: option.splits)
    then show "\<exists>t. yy_goto 4 (fst (s, rs)) k = Some t \<and>
        (t = YY_JAM \<or> yy_at yy_base (fst (s, rs)) = YY_JAMBASE \<longrightarrow> residual_step k (snd (s, rs)) = []) \<and>
        (t = YY_JAM \<or> (t, residual_step k (snd (s, rs))) \<in> R)"
      using g [OF k] n [OF k t] assms(2) by (auto simp: good_transition_def)
  qed (use c in auto)
qed

lemma explore_sound:
  "explore fuel todo seen = Some R \<Longrightarrow> (\<And>p. p \<in> set seen \<Longrightarrow> good_pair (set seen \<union> set todo) p) \<Longrightarrow>
   set todo \<union> set seen \<subseteq> set R \<and> (\<forall>p \<in> set R. good_pair (set R) p)"
proof (induction fuel todo seen rule: explore.induct)
  case (3 fuel p todo seen)
  show ?case
  proof (cases "known p seen")
    case True
    have "p \<in> set seen" using known_in_set [OF True] .
    then show ?thesis using 3(1) [OF True] 3(3,4) True by (simp add: insert_absorb)
  next
    case False
    then obtain ps where ps: "check_pair p = Some ps" using 3(3) by (auto split: option.splits)
    have mono: "good_pair R q \<Longrightarrow> R \<subseteq> S \<Longrightarrow> good_pair S q" for R S q
      unfolding good_pair_def by blast
    have "good_pair (set (p # seen) \<union> set (ps @ todo)) q" if "q \<in> set (p # seen)" for q
    proof (cases "q = p")
      case True
      have "set ps \<subseteq> set (p # seen) \<union> set (ps @ todo)" by auto
      with True show ?thesis using check_pair_sound [of "fst p" "snd p" ps] ps by simp
    next
      case False
      then have "good_pair (set seen \<union> set (p # todo)) q" using 3(4) that by simp
      then show ?thesis by (rule mono) auto
    qed
    then show ?thesis using 3(2) [OF False ps] 3(3) False ps by auto
  qed
qed auto

section \<open>The longest match\<close>

fun best :: "residual \<Rightarrow> int list \<Rightarrow> (int \<times> nat) option" where
  "best rs [] = (if accepts rs \<noteq> 0 then Some (accepts rs, 0) else None)"
| "best rs (k # ks) =
     (case best (residual_step k rs) ks of Some (a, j) \<Rightarrow> Some (a, j + 1)
      | None \<Rightarrow> if accepts rs \<noteq> 0 then Some (accepts rs, 0) else None)"

lemma step_nil [simp]: "residual_step k [] = []" "accepts [] = 0"
  by (simp_all add: residual_step_def accepts_def)

lemma best_nothing [simp]: "best [] ks = None"
  by (induction ks) simp_all

lemma best_stops: "\<forall>k \<in> set ks. residual_step k rs = [] \<Longrightarrow> best rs ks = (if accepts rs \<noteq> 0 then Some (accepts rs, 0) else None)"
  by (cases ks) auto

lemma jam_facts: "yy_at yy_accept YY_JAM = 0" "yy_at yy_base YY_JAM = YY_JAMBASE"
  by (simp_all add: YY_JAM_def YY_JAMBASE_def yy_at_def yy_accept_def yy_base_def)

lemma yy_match_best:
  assumes "\<forall>p \<in> R. good_pair R p" "(s, rs) \<in> R" "\<forall>c. yy_class c \<in> {1..48}"
  shows "(\<forall>a j. best rs (map yy_class w) = Some (a, j) \<longrightarrow> yy_match s w n acc = (a, n + j)) \<and>
    (best rs (map yy_class w) = None \<longrightarrow> (\<forall>t m. acc = Some (t, m) \<longrightarrow> yy_match s w n acc = (yy_at yy_accept t, m)))"
  using assms(2)
proof (induction w arbitrary: s rs n acc)
  case Nil
  then have "yy_at yy_accept s = accepts rs" using assms(1) by (force simp: good_pair_def)
  then show ?case by (simp add: yy_find_action_def)
next
  case (Cons c w)
  define k where "k = yy_class c"
  have k: "k \<in> {1..48}" using assms(3) by (simp add: k_def)
  have g: "good_pair R (s, rs)" using assms(1) Cons.prems by blast
  then have acc: "yy_at yy_accept s = accepts rs" by (simp add: good_pair_def)
  have "\<exists>t. yy_goto 4 s k = Some t \<and> (t = YY_JAM \<or> yy_at yy_base s = YY_JAMBASE \<longrightarrow> residual_step k rs = []) \<and>
      (t = YY_JAM \<or> (t, residual_step k rs) \<in> R)"
    using g k unfolding good_pair_def fst_conv snd_conv by blast
  then obtain t where t: "yy_goto 4 s k = Some t"
      "t = YY_JAM \<or> yy_at yy_base s = YY_JAMBASE \<longrightarrow> residual_step k rs = []"
      "t = YY_JAM \<or> (t, residual_step k rs) \<in> R"
    by blast
  define acc' where "acc' = (if accepts rs \<noteq> 0 then Some (s, n) else acc)"
  have m: "yy_match s (c # w) n acc =
      (if yy_at yy_base t = YY_JAMBASE then yy_find_action t (n + 1) acc' else yy_match t w (n + 1) acc')"
    using t(1) acc by (simp add: yy_next_def k_def acc'_def Let_def)
  show ?case
  proof (cases "t = YY_JAM")
    case True
    then show ?thesis using m t(2) acc jam_facts by (auto simp: yy_find_action_def acc'_def k_def [symmetric])
  next
    case False
    then have r: "(t, residual_step k rs) \<in> R" using t(3) by simp
    show ?thesis
    proof (cases "yy_at yy_base t = YY_JAMBASE")
      case True
      have gt: "good_pair R (t, residual_step k rs)" using assms(1) r by blast
      then have stop: "best (residual_step k rs) ks = (if accepts (residual_step k rs) \<noteq> 0 then Some (accepts (residual_step k rs), 0) else None)"
        if "set ks \<subseteq> {1..48}" for ks
        using that True by (intro best_stops) (auto simp: good_pair_def)
      have "set (map yy_class w) \<subseteq> {1..48}" using assms(3) by auto
      note stop = stop [OF this]
      show ?thesis using True m gt acc stop
        by (auto simp: yy_find_action_def acc'_def k_def [symmetric] good_pair_def)
    next
      case False
      then show ?thesis using Cons.IH [OF r, of "n + 1" acc'] m acc
        by (cases "best (residual_step k rs) (map yy_class w)") (auto simp: acc'_def k_def [symmetric])
    qed
  qed
qed

section \<open>The classes\<close>

definition class_table :: "(char \<times> int) list" where
  "class_table = zip (map char_of [0::int..255]) (1 # skip 1 yy_ec)"

lemma class_table: "(c, yy_class c) \<in> set class_table"
proof -
  have e: "length yy_ec = 256" by (simp add: yy_ec_def)
  define i where "i = (of_char c :: nat)"
  have i: "i < 256" by (simp add: i_def)
  have c: "char_of (int i) = c" by (simp add: i_def)
  have "class_table ! i = (char_of (int i), (1 # skip 1 yy_ec) ! i)"
    using i e by (simp add: class_table_def nth_upto)
  moreover have "(1 # skip 1 yy_ec) ! i = yy_class c"
  proof (cases i)
    case 0
    have "char_of (0::int) = CHR 0x00" by code_simp
    then have "c = CHR 0x00" using 0 c by simp
    then show ?thesis using 0 by (simp add: yy_class_def)
  next
    case (Suc j)
    then have "c \<noteq> CHR 0x00" by (auto simp: i_def)
    then show ?thesis using Suc i e i_def by (simp add: yy_class_def)
  qed
  moreover have "i < length class_table" using i e by (simp add: class_table_def)
  ultimately show ?thesis using c by (metis nth_mem)
qed

lemma class_range: "yy_class c \<in> {1..48}"
proof -
  have "list_all (\<lambda>(c, k). 1 \<le> k \<and> k \<le> 48) class_table" by code_simp
  then show ?thesis using class_table [of c] by (auto simp: list_all_iff)
qed

definition closed_by :: "(char \<times> int) list \<Rightarrow> string \<Rightarrow> bool" where
  "closed_by table cs = (let ks = remdups (map yy_class cs) in list_all (\<lambda>(c, k). (k \<in> set ks) = (c \<in> set cs)) table)"

lemma closed_by_table: "closed_by class_table cs \<Longrightarrow> class_closed cs"
  unfolding class_closed_def
proof (intro allI impI)
  fix c d
  assume a: "closed_by class_table cs" "c \<in> set cs \<and> yy_class d = yy_class c"
  then have "(yy_class d \<in> yy_class ` set cs) = (d \<in> set cs)"
    using class_table [of d] by (auto simp: closed_by_def Let_def list_all_iff)
  then show "d \<in> set cs" using a(2) by auto
qed

text \<open>The character sets of all rules.\<close>

definition rule_sets :: "string list" where
  "rule_sets = remdups (concat (map (\<lambda>(a, r). leaves r) (rules_initial True @ rules_comment @ rules_string @ rules_include @ [(42, none_of [])])))"

lemma rule_sets_closed: "list_all (closed_by class_table) rule_sets"
  by code_simp

lemma flex_rules_closed: "(a, r) \<in> set (flex_rules condition bol) \<Longrightarrow> cs \<in> set (leaves r) \<Longrightarrow> class_closed cs"
proof -
  assume a: "(a, r) \<in> set (flex_rules condition bol)" "cs \<in> set (leaves r)"
  have "set (rules_initial bol) \<subseteq> set (rules_initial True)" by (cases bol) (auto simp: rules_initial_def)
  then have "set (flex_rules condition bol) \<subseteq>
      set (rules_initial True @ rules_comment @ rules_string @ rules_include @ [(42, none_of [])])"
    by (auto simp: flex_rules_def split: if_splits)
  then have "cs \<in> set rule_sets" using a unfolding rule_sets_def by fastforce
  then show ?thesis using rule_sets_closed by (auto simp: list_all_iff intro: closed_by_table)
qed

section \<open>The tables implement the rules\<close>

lemma explored_initial:
  "explore 2000 [(1, residual (flex_rules INITIAL False)), (2, residual (flex_rules INITIAL True))] [] \<noteq> None"
  by code_simp

lemma explored_comment:
  "explore 2000 [(3, residual (flex_rules COMMENT False)), (4, residual (flex_rules COMMENT True))] [] \<noteq> None"
  by code_simp

lemma explored_string:
  "explore 2000 [(5, residual (flex_rules STRING False)), (6, residual (flex_rules STRING True))] [] \<noteq> None"
  by code_simp

lemma explored_include:
  "explore 2000 [(7, residual (flex_rules INCLUDE False)), (8, residual (flex_rules INCLUDE True))] [] \<noteq> None"
  by code_simp

lemma start_pair:
  assumes "condition \<in> {INITIAL, COMMENT, STRING, INCLUDE}"
  shows "\<exists>R. (1 + 2 * condition + (if bol then 1 else 0), residual (flex_rules condition bol)) \<in> R \<and> (\<forall>p \<in> R. good_pair R p)"
proof -
  have start: "\<exists>R. p \<in> R \<and> q \<in> R \<and> (\<forall>p \<in> R. good_pair R p)"
    if e: "explore 2000 [p, q] [] \<noteq> None" for p q
  proof -
    obtain S where S: "explore 2000 [p, q] [] = Some S" using e by blast
    have "p \<in> set S" "q \<in> set S" "\<forall>p \<in> set S. good_pair (set S) p" using explore_sound [OF S] by simp_all
    then show ?thesis by blast
  qed
  consider "condition = INITIAL" | "condition = COMMENT" | "condition = STRING" | "condition = INCLUDE"
    using assms by blast
  then show ?thesis
  proof cases
    case 1
    then show ?thesis using start [OF explored_initial] by (cases bol) (auto simp: INITIAL_def)
  next
    case 2
    then show ?thesis using start [OF explored_comment] by (cases bol) (auto simp: COMMENT_def)
  next
    case 3
    then show ?thesis using start [OF explored_string] by (cases bol) (auto simp: STRING_def)
  next
    case 4
    then show ?thesis using start [OF explored_include] by (cases bol) (auto simp: INCLUDE_def)
  qed
qed

lemma first_rule_Nil: "\<forall>(a, r) \<in> set rs. a \<noteq> 0 \<Longrightarrow> first_rule rs [] = (if accepts rs \<noteq> 0 then Some (accepts rs) else None)"
  by (induction rs) (auto simp: first_rule_def accepts_def split: if_splits option.splits)

lemma first_rule_Cons: "first_rule rs (k # w) = first_rule (residual_step k rs) w"
proof (induction rs)
  case (Cons p rs)
  obtain a r where p: "p = (a, r)" by fastforce
  have "\<not> recog r (k # w)" if "deriv k r = Zero" using recog_deriv [of k r w] that by simp
  then show ?case using Cons p by (auto simp: first_rule_def residual_step_def)
qed (simp add: first_rule_def residual_step_def)

lemma residual_step_numbers: "\<forall>(a, r) \<in> set rs. a \<noteq> 0 \<Longrightarrow> \<forall>(a, r) \<in> set (residual_step k rs). a \<noteq> 0"
  by (auto simp: residual_step_def)

lemma best_longest:
  assumes "\<forall>(a, r) \<in> set rs. a \<noteq> 0"
  shows "(best rs ks = None \<longrightarrow> (\<forall>m \<le> length ks. first_rule rs (take m ks) = None)) \<and>
    (\<forall>a j. best rs ks = Some (a, j) \<longrightarrow> j \<le> length ks \<and> first_rule rs (take j ks) = Some a \<and>
       (\<forall>m \<in> {j<..length ks}. first_rule rs (take m ks) = None))"
  using assms
proof (induction rs ks rule: best.induct)
  case (1 rs)
  then show ?case using first_rule_Nil [OF 1] by simp
next
  case (2 rs k ks)
  note IH = 2(1) [OF residual_step_numbers [OF 2(2)]]
  have take: "first_rule rs (take m (k # ks)) =
      (case m of 0 \<Rightarrow> (if accepts rs \<noteq> 0 then Some (accepts rs) else None)
       | Suc m' \<Rightarrow> first_rule (residual_step k rs) (take m' ks))" for m
    using first_rule_Nil [OF 2(2)] by (cases m) (simp_all add: first_rule_Cons)
  show ?case
  proof (cases "best (residual_step k rs) ks")
    case None
    then show ?thesis using IH by (auto simp: take split: nat.splits if_splits)
  next
    case (Some b)
    then show ?thesis using IH by (cases b) (auto simp: take split: nat.splits)
  qed
qed

lemma first_rule_classes:
  assumes "\<forall>(a, r) \<in> set rules. \<forall>cs \<in> set (leaves r). class_closed cs"
  shows "first_rule (residual rules) (map yy_class w) = first_rule rules w"
  using assms by (induction rules) (auto simp: first_rule_def residual_def recog_on_classes)

text \<open>In every start condition the first character is recognised by some rule.\<close>

lemma some_rule: "w \<noteq> [] \<Longrightarrow> first_rule (flex_rules condition bol) (take 1 w) \<noteq> None"
proof -
  assume "w \<noteq> []"
  then obtain c v where w: "w = c # v" by (cases w) auto
  have "(42, none_of []) \<in> set (flex_rules condition bol)" "recog (none_of []) (take 1 w)"
    by (simp_all add: flex_rules_def none_of_def w)
  then show ?thesis by (auto simp: first_rule_def find_None_iff)
qed

lemma tables_sound:
  assumes "condition \<in> {INITIAL, COMMENT, STRING, INCLUDE}" "w \<noteq> []"
    "yy_match (1 + 2 * condition + (if bol then 1 else 0)) w 0 None = (a, n)"
  shows "longest_match (flex_rules condition bol) w a n"
proof -
  define rules where "rules = flex_rules condition bol"
  obtain R where R: "(1 + 2 * condition + (if bol then 1 else 0), residual rules) \<in> R" "\<forall>p \<in> R. good_pair R p"
    using start_pair [OF assms(1)] unfolding rules_def by blast
  have nz: "\<forall>(a, r) \<in> set (residual rules). a \<noteq> 0" using R unfolding good_pair_def by fastforce
  have cl: "first_rule (residual rules) (map yy_class v) = first_rule rules v" for v
    by (rule first_rule_classes) (auto simp: rules_def intro: flex_rules_closed)
  have len: "1 \<le> length w" using assms(2) by (cases w) auto
  note longest = best_longest [OF nz, of "map yy_class w", unfolded take_map cl length_map]
  have "best (residual rules) (map yy_class w) \<noteq> None"
  proof
    assume "best (residual rules) (map yy_class w) = None"
    then have "first_rule rules (take 1 w) = None" using longest len by blast
    then show False using some_rule [OF assms(2), of condition bol] by (simp add: rules_def)
  qed
  then obtain b j where b: "best (residual rules) (map yy_class w) = Some (b, j)" by auto
  then have "yy_match (1 + 2 * condition + (if bol then 1 else 0)) w 0 None = (b, 0 + j)"
    using yy_match_best [OF R(2,1), of w 0 None] class_range by blast
  then have "a = b" "n = j" using assms(3) by simp_all
  then show ?thesis using longest b unfolding longest_match_def rules_def by blast
qed

section \<open>Property\<close>

text \<open>
  C7. The generated tables implement the rules of \<open>scanner.l\<close>: in every start
  condition, at the beginning of a line or not, the matching loop finds the
  longest text that a rule recognises, and the first rule that recognises it.
\<close>

theorem tables_implement_rules:
  assumes "condition \<in> {INITIAL, COMMENT, STRING, INCLUDE}" "w \<noteq> []"
    "yy_match (1 + 2 * condition + (if bol then 1 else 0)) w 0 None = (a, n)"
  shows "longest_match (flex_rules condition bol) w a n"
  by (rule tables_sound [OF assms])

theorem tables_implement_rules_witness:
  "longest_match (flex_rules INITIAL True) ''trueX = 1'' 29 5"
proof (rule tables_implement_rules)
  show "yy_match (1 + 2 * INITIAL + (if True then 1 else 0)) ''trueX = 1'' 0 None = (29, 5)" by code_simp
qed simp_all

end
