(* ===== verification/ScanLoop.thy ===== *)
theory ScanLoop
  imports ScanRules
begin

text \<open>
  What the loop of \<open>yylex\<close> does: it always returns, the input ends, every token
  carries the value its code promises, and every open buffer is a rest of its
  file whose line number counts the line ends before it.
\<close>

section \<open>One match\<close>

definition start_ok :: "scanner \<Rightarrow> bool" where
  "start_ok sc \<longleftrightarrow> (\<exists>c \<in> {INITIAL, COMMENT, STRING, INCLUDE}. yy_start sc = 1 + 2 * c)"

definition scanner_ok :: "scanner \<Rightarrow> bool" where
  "scanner_ok sc \<longleftrightarrow> start_ok sc \<and> scan_ok (yyextra sc)"

lemma first_rule_Some:
  "first_rule rules w = Some a \<Longrightarrow> \<exists>r. (a, r) \<in> set rules \<and> recog r w"
  by (auto simp: first_rule_def find_Some_iff) (metis nth_mem)

text \<open>The characters a rule can contain.\<close>

fun mentions :: "'a \<Rightarrow> 'a rexp \<Rightarrow> bool" where
  "mentions c Zero = False"
| "mentions c One = False"
| "mentions c (Cls b cs) = ((c \<in> set cs) = b)"
| "mentions c (Alt p q) = (mentions c p \<or> mentions c q)"
| "mentions c (Seq p q) = (mentions c p \<or> mentions c q)"
| "mentions c (Star p) = mentions c p"

lemma recog_mentions: "recog r w \<Longrightarrow> c \<in> set w \<Longrightarrow> mentions c r"
  by (induction rule: recog.induct) auto

lemma flex_rules_facts:
  assumes "(a, r) \<in> set (flex_rules condition bol)"
  shows "1 \<le> a" "a \<le> 42" "\<not> nullable r"
    "yy_at yy_rule_can_match_eol a = 0 \<Longrightarrow> a \<noteq> 40 \<Longrightarrow> a \<noteq> 42 \<Longrightarrow> \<not> mentions (CHR 0x0A) r"
    "a = 40 \<Longrightarrow> r = r_comment" "a = 42 \<Longrightarrow> r = none_of []"
proof -
  define good where "good = (\<lambda>(a, r). 1 \<le> a \<and> a \<le> 42 \<and> \<not> nullable r \<and>
    (yy_at yy_rule_can_match_eol a = 0 \<longrightarrow> a \<noteq> 40 \<longrightarrow> a \<noteq> 42 \<longrightarrow> \<not> mentions (CHR 0x0A) r) \<and> (a = 40 \<longrightarrow> r = r_comment) \<and> (a = 42 \<longrightarrow> r = none_of []))"
  have "list_all good (rules_initial True @ rules_comment @ rules_string @ rules_include @ [(42, none_of [])])"
    unfolding good_def by code_simp
  moreover have "set (rules_initial bol) \<subseteq> set (rules_initial True)" by (cases bol) (auto simp: rules_initial_def)
  ultimately have "list_all good (flex_rules condition bol)"
    by (auto simp: flex_rules_def list_all_iff)
  then have "good (a, r)" using assms by (auto simp: list_all_iff)
  then show "1 \<le> a" "a \<le> 42" "\<not> nullable r"
    "yy_at yy_rule_can_match_eol a = 0 \<Longrightarrow> a \<noteq> 40 \<Longrightarrow> a \<noteq> 42 \<Longrightarrow> \<not> mentions (CHR 0x0A) r"
    "a = 40 \<Longrightarrow> r = r_comment" "a = 42 \<Longrightarrow> r = none_of []"
    by (auto simp: good_def)
qed

lemma newline_not_echoed: "first_rule (flex_rules condition bol) [CHR 0x0A] \<noteq> Some 42"
proof -
  have "list_all (\<lambda>rs. first_rule (rs @ [(42, none_of [])]) [CHR 0x0A] \<noteq> Some 42)
      [rules_initial True, rules_initial False, rules_comment, rules_string, rules_include]"
    by code_simp
  then show ?thesis by (cases bol) (auto simp: flex_rules_def)
qed

lemma comment_shape:
  assumes "recog r_comment w"
  shows "\<exists>u. w = u @ [CHR 0x0A] \<and> u \<noteq> [] \<and> CHR 0x0A \<notin> set u"
proof -
  obtain x y z where w: "w = x @ y @ [z]" "recog (Alt (one_of ''#'') (word [''/'', ''/''])) x"
    "recog (Star no_newline) y" "z = CHR 0x0A"
    using assms by (auto simp: r_comment_def recog_Seq_iff one_of_def)
  have m: "\<not> mentions (CHR 0x0A) (Alt (one_of ''#'') (word [''/'', ''/'']))" "\<not> mentions (CHR 0x0A) (Star no_newline)"
    by code_simp+
  have nl: "CHR 0x0A \<notin> set x" "CHR 0x0A \<notin> set y"
    using recog_mentions [OF w(2)] recog_mentions [OF w(3)] m by blast+
  have "x \<noteq> []"
  proof
    assume "x = []"
    then have "nullable (Alt (one_of ''#'') (word [''/'', ''/'']))" using w(2) by (simp only: recog_Nil)
    moreover have "\<not> nullable (Alt (one_of ''#'') (word [''/'', ''/'']))" by code_simp
    ultimately show False by simp
  qed
  then show ?thesis using w(1,4) nl by (intro exI [of _ "x @ y"]) simp
qed

text \<open>The text of the rule that is taken off the buffer, and the line ends in it.\<close>

lemma match_facts:
  assumes "start_ok sc" "w \<noteq> []" "yy_match (yy_start sc + (if bol then 1 else 0)) w 0 None = (a, n)"
  defines "n' \<equiv> if a = 40 then n - 1 else n"
  shows "1 \<le> a" "a \<le> 42" "0 < n'" "n' \<le> length w" "n \<le> length w"
    "count_list (take n' w) (CHR 0x0A) = (if yy_at yy_rule_can_match_eol a \<noteq> 0 then count_list (take n w) (CHR 0x0A) else 0)"
proof -
  obtain c where c: "c \<in> {INITIAL, COMMENT, STRING, INCLUDE}" "yy_start sc = 1 + 2 * c"
    using assms(1) by (auto simp: start_ok_def)
  have long: "n \<le> length w" "first_rule (flex_rules c bol) (take n w) = Some a"
    using tables_sound [OF c(1) assms(2), of bol a n] assms(3) c(2) by (auto simp: longest_match_def)
  obtain r where r: "(a, r) \<in> set (flex_rules c bol)" "recog r (take n w)" using first_rule_Some [OF long(2)] by blast
  note facts = flex_rules_facts [OF r(1)]
  show "1 \<le> a" "a \<le> 42" "n \<le> length w" using facts long by auto
  have "0 < n" using facts(3) r(2) by (cases n) auto
  have "0 < n' \<and> n' \<le> length w \<and>
    count_list (take n' w) (CHR 0x0A) = (if yy_at yy_rule_can_match_eol a \<noteq> 0 then count_list (take n w) (CHR 0x0A) else 0)"
  proof (cases "a = 40")
    case True
    then obtain u where u: "take n w = u @ [CHR 0x0A]" "u \<noteq> []" "CHR 0x0A \<notin> set u"
      using facts(5) r(2) comment_shape by blast
    have "length (take n w) = n" using long(1) by simp
    then have n: "n = Suc (length u)" using u(1) by simp
    have "take (n - 1) (take n w) = u" using u(1) n by simp
    then have "take (n - 1) w = u" using n by (simp add: min_def)
    moreover have "yy_at yy_rule_can_match_eol 40 = 0" by code_simp
    ultimately show ?thesis using True u n long(1) by (simp add: n'_def count_list_0_iff)
  next
    case False
    have "count_list (take n w) (CHR 0x0A) = 0" if eol: "yy_at yy_rule_can_match_eol a = 0"
    proof (cases "a = 42")
      case True
      have "take n w \<noteq> [CHR 0x0A]" using newline_not_echoed long(2) True by metis
      moreover have "r = none_of []" by (rule facts(6) [OF True])
      ultimately show ?thesis using r(2) True by (auto simp: none_of_def)
    next
      case no: False
      then show ?thesis using facts(4) [OF eol False] recog_mentions [OF r(2)] by (auto simp: count_list_0_iff)
    qed
    then show ?thesis using False \<open>0 < n\<close> long(1) by (simp add: n'_def)
  qed
  then show "0 < n'" "n' \<le> length w"
    "count_list (take n' w) (CHR 0x0A) = (if yy_at yy_rule_can_match_eol a \<noteq> 0 then count_list (take n w) (CHR 0x0A) else 0)"
    by blast+
qed

section \<open>One rule\<close>

text \<open>What was eaten of a buffer: a non-empty text, whose line ends are counted.\<close>

definition eaten :: "yy_buffer \<Rightarrow> yy_buffer \<Rightarrow> bool" where
  "eaten b b' \<longleftrightarrow> (\<exists>p. p \<noteq> [] \<and> yb_rest b = p @ yb_rest b' \<and> yb_lineno b' = yb_lineno b + count_list p (CHR 0x0A) \<and>
     yb_at_bol b' = (last p = CHR 0x0A))"

definition levels :: "scanner \<Rightarrow> yy_buffer list" where
  "levels sc = sc_buffers (yyextra sc) @ [yy_buffer sc]"

lemma before_action:
  assumes "start_ok sc" "yb_rest (yy_buffer sc) \<noteq> []"
    "yy_match (yy_start sc + (if yb_at_bol (yy_buffer sc) then 1 else 0)) (yb_rest (yy_buffer sc)) 0 None = (a, n)"
    "yy_before_action a n sc = (sc', t)"
  shows "eaten (yy_buffer sc) (yy_buffer sc')" "yyextra sc' = yyextra sc" "yy_start sc' = yy_start sc" "yyout sc' = yyout sc"
    "1 \<le> a" "a \<le> 42"
proof -
  note facts = match_facts [OF assms(1,2), of "yb_at_bol (yy_buffer sc)" a n, OF assms(3)]
  define n' where "n' = (if a = 40 then n - 1 else n)"
  define w where "w = yb_rest (yy_buffer sc)"
  have f: "0 < n'" "n' \<le> length w" using facts by (simp_all add: n'_def w_def)
  have sc': "yy_buffer sc' = \<lparr>yb_rest = drop n' w, yb_at_bol = (last (take n' w) = CHR 0x0A),
      yb_lineno = yb_lineno (yy_buffer sc) + count_list (take n' w) (CHR 0x0A)\<rparr>"
    using assms(4) facts(6) f unfolding n'_def w_def by (auto simp: yy_before_action_def Let_def)
  show "eaten (yy_buffer sc) (yy_buffer sc')"
    unfolding eaten_def sc' using f by (intro exI [of _ "take n' w"]) (auto simp: w_def)
  show "yyextra sc' = yyextra sc" "yy_start sc' = yy_start sc" "yyout sc' = yyout sc" "1 \<le> a" "a \<le> 42"
    using assms(4) facts by (auto simp: yy_before_action_def Let_def)
qed

lemma scanctx_append_ok: "scan_ok ctx \<Longrightarrow> scan_ok (scanctx_append_string ctx s)"
  by (simp add: scan_ok_def scanctx_append_string_def sc_depth_def strbuf_append_ok split: option.splits)

lemma BEGIN_ok:
  "c \<in> {INITIAL, COMMENT, STRING, INCLUDE} \<Longrightarrow> scan_ok (yyextra sc) \<Longrightarrow> scanner_ok (BEGIN c sc)"
  "yy_buffer (BEGIN c sc) = yy_buffer sc" "yyextra (BEGIN c sc) = yyextra sc"
  by (auto simp: scanner_ok_def start_ok_def BEGIN_def)

lemma append_text_ok:
  "scanner_ok sc \<Longrightarrow> scanner_ok (append_text s sc)" "levels (append_text s sc) = levels sc"
  by (simp_all add: scanner_ok_def start_ok_def append_text_def scanctx_append_ok)
    (simp add: levels_def append_text_def scanctx_append_string_def)

lemma silent_action_ok:
  assumes "scanner_ok sc"
  shows "scanner_ok (yy_silent_action a t sc)" "levels (yy_silent_action a t sc) = levels sc"
proof -
  have b: "scanner_ok (BEGIN c sc)" "levels (BEGIN c sc) = levels sc" if "c \<in> {INITIAL, COMMENT, STRING, INCLUDE}" for c
    using BEGIN_ok(1) [OF that, of sc] assms by (simp_all add: scanner_ok_def [of sc] levels_def BEGIN_ok)
  have o: "scanner_ok (sc\<lparr>yyout := u\<rparr>)" "levels (sc\<lparr>yyout := u\<rparr>) = levels sc" for u
    using assms by (simp_all add: scanner_ok_def start_ok_def levels_def)
  show "scanner_ok (yy_silent_action a t sc)" "levels (yy_silent_action a t sc) = levels sc"
    unfolding yy_silent_action_def using assms by (simp_all add: b o append_text_ok)
qed

text \<open>The tokens.\<close>

definition delivers :: "lexed option \<Rightarrow> bool" where
  "delivers out \<longleftrightarrow> (case out of None \<Rightarrow> True | Some x \<Rightarrow> typed_lexed x \<and> lex_token x \<noteq> 0)"

lemma tok_codes:
  "YYTRANSLATE TOK_BOOLEAN = 3" "YYTRANSLATE TOK_INTEGER = 4" "YYTRANSLATE TOK_HEX = 5" "YYTRANSLATE TOK_INTEGER64 = 6"
  "YYTRANSLATE TOK_HEX64 = 7" "YYTRANSLATE TOK_FLOAT = 8" "YYTRANSLATE TOK_STRING = 9" "YYTRANSLATE TOK_NAME = 10"
  "YYTRANSLATE TOK_EQUALS = 11" "YYTRANSLATE TOK_ARRAY_START = 13" "YYTRANSLATE TOK_ARRAY_END = 14"
  "YYTRANSLATE TOK_LIST_START = 15" "YYTRANSLATE TOK_LIST_END = 16" "YYTRANSLATE TOK_COMMA = 17"
  "YYTRANSLATE TOK_GROUP_START = 18" "YYTRANSLATE TOK_GROUP_END = 19" "YYTRANSLATE TOK_SEMICOLON = 20"
  "YYTRANSLATE TOK_GARBAGE = 21" "YYTRANSLATE TOK_ERROR = 22" "YYTRANSLATE YYEOF = 0"
  by code_simp+

lemmas tok_defs = TOK_BOOLEAN_def TOK_INTEGER_def TOK_HEX_def TOK_INTEGER64_def TOK_HEX64_def TOK_FLOAT_def TOK_STRING_def
  TOK_NAME_def TOK_EQUALS_def TOK_ARRAY_START_def TOK_ARRAY_END_def TOK_LIST_START_def TOK_LIST_END_def TOK_COMMA_def
  TOK_GROUP_START_def TOK_GROUP_END_def TOK_SEMICOLON_def TOK_GARBAGE_def TOK_ERROR_def YYEOF_def

lemma lex_token_eq: "0 < lx_token x \<Longrightarrow> lex_token x = YYTRANSLATE (lx_token x)"
  by (simp add: lex_token_def YYEOF_def)

lemma lexed_sels [simp]:
  "lx_token (lexed_token t) = t" "lx_value (lexed_token t) = None" "lx_error (lexed_token t) = None"
  "lx_token (lexed_value t v) = t" "lx_value (lexed_value t v) = Some v" "lx_error (lexed_value t v) = None"
  by (simp_all add: lexed_token_def lexed_value_def)

lemma lexed_codes:
  "0 < t \<Longrightarrow> lex_token (lexed_token t) = YYTRANSLATE t" "0 < t \<Longrightarrow> lex_token (lexed_value t v) = YYTRANSLATE t"
  by (simp_all add: lex_token_eq)

lemma tok_positive: "0 < TOK_BOOLEAN" "0 < TOK_INTEGER" "0 < TOK_HEX" "0 < TOK_INTEGER64" "0 < TOK_HEX64" "0 < TOK_FLOAT"
  "0 < TOK_STRING" "0 < TOK_NAME" "0 < TOK_EQUALS" "0 < TOK_ARRAY_START" "0 < TOK_ARRAY_END" "0 < TOK_LIST_START"
  "0 < TOK_LIST_END" "0 < TOK_COMMA" "0 < TOK_GROUP_START" "0 < TOK_GROUP_END" "0 < TOK_SEMICOLON" "0 < TOK_GARBAGE" "0 < TOK_ERROR"
  by (simp_all add: tok_defs)

lemmas token_facts = lexed_codes tok_positive tok_codes

lemma yy_token_delivers: "delivers (yy_token a t)"
  by (simp add: yy_token_def delivers_def typed_lexed_def typed_token_def token_facts)

section \<open>The stack of buffers\<close>

text \<open>How one rule, or the end of a buffer, changes the stack of open buffers.\<close>

inductive moves :: "(string \<Rightarrow> string option) \<Rightarrow> yy_buffer list \<Rightarrow> lexed option \<Rightarrow> yy_buffer list \<Rightarrow> bool" for fo where
  moves_end: "yb_rest b = [] \<Longrightarrow> moves fo [b] (Some (lexed_token YYEOF)) [b]"
| moves_pop: "yb_rest b = [] \<Longrightarrow> bs \<noteq> [] \<Longrightarrow> moves fo (bs @ [b]) None bs"
| moves_eat: "eaten b b' \<Longrightarrow> delivers out \<Longrightarrow> moves fo (bs @ [b]) out (bs @ [b'])"
| moves_push: "eaten b b' \<Longrightarrow> fo name = Some t \<Longrightarrow> moves fo (bs @ [b]) None (bs @ [b', new_buffer t])"

lemma levels_length: "scanner_ok sc \<Longrightarrow> length (levels sc) \<le> 11"
  by (simp add: scanner_ok_def scan_ok_def sc_depth_def levels_def MAX_INCLUDE_DEPTH_def)

lemma take_string_ok:
  assumes "scan_ok ctx" "scanctx_take_string ctx = (ctx', s)"
  shows "scan_ok ctx'" "sc_buffers ctx' = sc_buffers ctx"
  using assms by (auto simp: scanctx_take_string_def strbuf_release_def scan_ok_def sc_depth_def split: option.splits)

lemma push_include_result:
  assumes "scanctx_push_include fo ctx b = (ctx', r)"
  shows "case r of Inl e \<Rightarrow> sc_buffers ctx' = sc_buffers ctx
    | Inr t \<Rightarrow> sc_buffers ctx' = sc_buffers ctx @ [b] \<and> (\<exists>name. fo name = Some t)"
  using assms by (auto simp: scanctx_push_include_def scanctx_take_string_def strbuf_release_def scanctx_add_filename_def Let_def
      split: if_splits option.splits prod.splits)

lemma yy_action_moves:
  assumes "scanner_ok sc1" "eaten b (yy_buffer sc1)" "yy_action fo a t sc1 = (sc', out)"
  shows "scanner_ok sc' \<and> moves fo (sc_buffers (yyextra sc1) @ [b]) out (levels sc')"
proof -
  note eat = moves_eat [OF assms(2), of out fo "sc_buffers (yyextra sc1)"]
  have ok: "scan_ok (yyextra sc1)" "start_ok sc1" using assms(1) by (simp_all add: scanner_ok_def)
  consider "a = 15" | "a = 20" | "a \<noteq> 15" "a \<noteq> 20" by blast
  then show ?thesis
  proof cases
    case 1
    obtain ctx s where c: "scanctx_take_string (yyextra sc1) = (ctx, s)" by fastforce
    have "delivers (Some (lexed_value TOK_STRING (YSval s)))"
      by (simp add: delivers_def typed_lexed_def typed_token_def token_facts)
    moreover have "scanner_ok (BEGIN INITIAL (sc1\<lparr>yyextra := ctx\<rparr>))"
      using take_string_ok [OF ok(1) c] by (intro BEGIN_ok) simp_all
    ultimately show ?thesis
      using 1 assms(3) c take_string_ok [OF ok(1) c] eat
      by (auto simp: yy_action_def take_string_action_def levels_def BEGIN_ok)
  next
    case 2
    obtain ctx r where c: "scanctx_push_include fo (yyextra sc1) (yy_buffer sc1) = (ctx, r)" by fastforce
    note ctx = scanctx_push_include_ok [OF ok(1) c] push_include_result [OF c]
    show ?thesis
    proof (cases r)
      case (Inl e)
      have "delivers (Some \<lparr>lx_token = TOK_ERROR, lx_value = None,
          lx_error = Some (e, scanctx_current_filename ctx, int (yb_lineno (yy_buffer sc1)))\<rparr>)"
        by (simp add: delivers_def typed_lexed_def lex_token_eq tok_positive tok_codes)
      then show ?thesis using 2 assms(3) c ctx Inl ok eat
        by (auto simp: yy_action_def include_action_def levels_def scanner_ok_def start_ok_def)
    next
      case (Inr u)
      have "scanner_ok (BEGIN INITIAL (sc1\<lparr>yyextra := ctx, yy_buffer := new_buffer u\<rparr>))"
        using ctx by (intro BEGIN_ok) simp_all
      then show ?thesis using 2 assms(2,3) c ctx Inr
        by (auto simp: yy_action_def include_action_def levels_def BEGIN_ok intro: moves_push)
    qed
  next
    case 3
    then show ?thesis using assms(1,3) silent_action_ok [OF assms(1), of a t] yy_token_delivers [of a t] eat
      by (auto simp: yy_action_def levels_def)
  qed
qed

lemma yy_scan_moves:
  assumes "scanner_ok sc" "yy_scan fo sc = (sc', out)"
  shows "scanner_ok sc' \<and> moves fo (levels sc) out (levels sc')"
proof (cases "yb_rest (yy_buffer sc) = []")
  case True
  show ?thesis
  proof (cases "sc_depth (yyextra sc) = 0")
    case d: True
    then have "levels sc = [yy_buffer sc]" "scanctx_pop_include (yyextra sc) = (yyextra sc, None)"
      using assms(1) by (auto simp: levels_def scanner_ok_def scan_ok_def sc_depth_def scanctx_pop_include_def)
    then show ?thesis using assms True by (auto simp: yy_scan_def yy_eof_action_def moves_end)
  next
    case False
    have ne: "sc_buffers (yyextra sc) \<noteq> []" using False assms(1) by (auto simp: scanner_ok_def scan_ok_def sc_depth_def)
    have pop: "scanctx_pop_include (yyextra sc) = (yyextra sc\<lparr>sc_files := butlast (sc_files (yyextra sc)),
        sc_buffers := butlast (sc_buffers (yyextra sc))\<rparr>, Some (last (sc_buffers (yyextra sc))))"
      using False by (simp add: scanctx_pop_include_def)
    have "scan_ok (fst (scanctx_pop_include (yyextra sc)))"
      using scanctx_pop_include_ok assms(1) by (auto simp: scanner_ok_def)
    then show ?thesis
      using assms True pop ne moves_pop [of "yy_buffer sc" "sc_buffers (yyextra sc)" fo]
      by (auto simp: yy_scan_def yy_eof_action_def scanner_ok_def start_ok_def levels_def)
  qed
next
  case False
  obtain a n where m: "yy_match (yy_start sc + (if yb_at_bol (yy_buffer sc) then 1 else 0)) (yb_rest (yy_buffer sc)) 0 None = (a, n)"
    by fastforce
  obtain sc1 t where b: "yy_before_action a n sc = (sc1, t)" by fastforce
  have so: "start_ok sc" using assms(1) by (simp add: scanner_ok_def)
  note f = before_action [OF so False m b]
  have "scanner_ok sc1" using assms(1) f by (simp add: scanner_ok_def start_ok_def)
  moreover have "yy_action fo a t sc1 = (sc', out)" using assms(2) False m b by (simp add: yy_scan_def Let_def)
  ultimately show ?thesis using yy_action_moves [of sc1 "yy_buffer sc"] f by (simp add: levels_def)
qed

section \<open>Progress\<close>

text \<open>
  The lengths of what is left of the open buffers, the oldest first, decrease
  lexicographically: a rule eats of the last buffer, and only then opens another.
\<close>

definition weights :: "yy_buffer list \<Rightarrow> nat list" where
  "weights bs = map (\<lambda>b. Suc (length (yb_rest b))) bs @ replicate (11 - length bs) 0"

definition shrinks :: "(nat list \<times> nat list) set" where
  "shrinks = lex less_than"

lemma shrinks_wf: "wf shrinks"
  by (simp add: shrinks_def wf_lex)

lemma shrinksI: "a < b \<Longrightarrow> length xs = length ys \<Longrightarrow> (us @ a # xs, us @ b # ys) \<in> shrinks"
  unfolding shrinks_def by (intro lex_append_leftI) simp

lemma moves_shrink:
  assumes "moves fo bs out bs'" "length bs \<le> 11" "length bs' \<le> 11"
  shows "(\<exists>b. bs = [b] \<and> bs' = [b] \<and> yb_rest b = [] \<and> out = Some (lexed_token YYEOF)) \<or>
    (weights bs', weights bs) \<in> shrinks \<and> delivers out"
  using assms
proof (induction rule: moves.induct)
  case (moves_pop b bs)
  have "replicate (11 - length bs) 0 = (0::nat) # replicate (11 - length (bs @ [b])) 0"
    using moves_pop by (simp flip: replicate_Suc add: Suc_diff_le)
  then show ?case using moves_pop by (auto simp: weights_def delivers_def intro!: shrinksI)
next
  case (moves_eat b b' out bs)
  then show ?case by (auto simp: weights_def eaten_def intro!: shrinksI)
next
  case (moves_push b b' name t bs)
  then show ?case by (auto simp: weights_def eaten_def delivers_def intro!: shrinksI)
qed blast

section \<open>The loop\<close>

definition moved :: "(string \<Rightarrow> string option) \<Rightarrow> yy_buffer list \<Rightarrow> yy_buffer list \<Rightarrow> bool" where
  "moved fo = rtranclp (\<lambda>bs bs'. \<exists>out. moves fo bs out bs')"

lemma yylex_loop_returns:
  assumes "scanner_ok sc"
  shows "\<exists>sc' x. yylex_loop fo sc = Some (sc', x) \<and> scanner_ok sc' \<and> moved fo (levels sc) (levels sc') \<and> typed_lexed x \<and>
    (lex_token x = 0 \<or> (weights (levels sc'), weights (levels sc)) \<in> shrinks)"
  using assms
proof (induction "weights (levels sc)" arbitrary: sc rule: wf_induct_rule [OF shrinks_wf])
  case (1 sc)
  obtain sc1 out where s: "yy_scan fo sc = (sc1, out)" by fastforce
  note m = yy_scan_moves [OF 1(2) s]
  have eof: "typed_lexed (lexed_token YYEOF)" "lex_token (lexed_token YYEOF) = 0"
    by (simp_all add: typed_lexed_def lex_token_def tok_codes)
  have loop: "yylex_loop fo sc = (case out of Some x \<Rightarrow> Some (sc1, x) | None \<Rightarrow> yylex_loop fo sc1)"
    by (subst yylex_loop.simps) (simp add: s Let_def split: option.split)
  have step: "moved fo (levels sc) (levels sc1)" unfolding moved_def using m by blast
  from moves_shrink [OF conjunct2 [OF m] levels_length [OF 1(2)] levels_length [OF conjunct1 [OF m]]]
  show ?case
  proof
    assume "\<exists>b. levels sc = [b] \<and> levels sc1 = [b] \<and> yb_rest b = [] \<and> out = Some (lexed_token YYEOF)"
    then show ?thesis using loop m step eof by auto
  next
    assume a: "(weights (levels sc1), weights (levels sc)) \<in> shrinks \<and> delivers out"
    show ?thesis
    proof (cases out)
      case None
      obtain sc' x where r: "yylex_loop fo sc1 = Some (sc', x)" "scanner_ok sc'" "moved fo (levels sc1) (levels sc')"
        "typed_lexed x" "lex_token x = 0 \<or> (weights (levels sc'), weights (levels sc1)) \<in> shrinks"
        using 1(1) [of sc1] a m by blast
      have "moved fo (levels sc) (levels sc')" using step r(3) unfolding moved_def by simp
      moreover have "trans shrinks" by (simp add: shrinks_def lex_transI trans_less_than)
      ultimately show ?thesis using loop None r a by (auto dest: transD)
    next
      case (Some x)
      then show ?thesis using loop m step a by (simp add: delivers_def)
    qed
  qed
qed

text \<open>The state of the scanner after \<open>k\<close> tokens.\<close>

definition scanned :: "(string \<Rightarrow> string option) \<Rightarrow> nat \<Rightarrow> scanner \<Rightarrow> scanner" where
  "scanned fo k sc = ((\<lambda>sc. fst (yylex (flex_lexer fo) sc)) ^^ k) sc"

lemma flex_yylex:
  assumes "scanner_ok sc" "yylex (flex_lexer fo) sc = (sc', x)"
  shows "yylex_loop fo sc = Some (sc', x)" "scanner_ok sc'" "moved fo (levels sc) (levels sc')" "typed_lexed x"
    "lex_token x = 0 \<or> (weights (levels sc'), weights (levels sc)) \<in> shrinks"
  using yylex_loop_returns [OF assms(1), of fo] assms(2) by (auto simp: flex_lexer_def)

lemma scanned_ok: "scanner_ok sc \<Longrightarrow> scanner_ok (scanned fo k sc) \<and> moved fo (levels sc) (levels (scanned fo k sc))"
proof (induction k)
  case (Suc k)
  obtain sc' x where y: "yylex (flex_lexer fo) (scanned fo k sc) = (sc', x)" by fastforce
  have "scanned fo (Suc k) sc = sc'" using y by (simp add: scanned_def)
  then show ?case using flex_yylex [OF _ y] Suc unfolding moved_def by auto
qed (simp add: scanned_def moved_def)

lemma token_at_scanned: "token_at (flex_lexer fo) k sc = snd (yylex (flex_lexer fo) (scanned fo k sc))"
proof (induction k arbitrary: sc)
  case (Suc k)
  have "scanned fo (Suc k) sc = scanned fo k (fst (yylex (flex_lexer fo) sc))"
    by (simp add: scanned_def funpow_Suc_right del: funpow.simps(2))
  then show ?case using Suc by simp
qed (simp add: scanned_def)

lemma scanner_init_ok: "scanner_ok (scanner_init (scanctx_init idir name) t)"
proof -
  have "scan_ok (scanctx_init idir name :: yy_buffer scan_context)"
    by (auto simp: scanctx_init_def scan_ok_def sc_depth_def scanctx_add_filename_def MAX_INCLUDE_DEPTH_def Let_def split: option.splits)
  then show ?thesis by (simp add: scanner_ok_def start_ok_def scanner_init_def INITIAL_def)
qed

lemma some_end: "scanner_ok sc \<Longrightarrow> \<exists>k. lex_token (token_at (flex_lexer fo) k sc) = 0"
proof (induction "weights (levels sc)" arbitrary: sc rule: wf_induct_rule [OF shrinks_wf])
  case (1 sc)
  obtain sc' x where y: "yylex (flex_lexer fo) sc = (sc', x)" by fastforce
  note f = flex_yylex [OF 1(2) y]
  show ?case
  proof (cases "lex_token x = 0")
    case True
    then show ?thesis using y by (metis snd_conv token_at.simps(1))
  next
    case False
    then have "(weights (levels sc'), weights (levels sc)) \<in> shrinks" using f(5) by simp
    from 1(1) [OF this f(2)] obtain k where "lex_token (token_at (flex_lexer fo) k sc') = 0" by blast
    then show ?thesis using y by (metis fst_conv token_at.simps(2))
  qed
qed

interpretation flex: token_source "flex_lexer fo" scanner_ok for fo
proof
  fix l assume l: "scanner_ok l"
  obtain l' x where y: "yylex (flex_lexer fo) l = (l', x)" by fastforce
  show "scanner_ok (fst (yylex (flex_lexer fo) l))" "typed_lexed (snd (yylex (flex_lexer fo) l))"
    using flex_yylex [OF l y] y by simp_all
  show "\<exists>k. lex_token (token_at (flex_lexer fo) k l) = 0" by (rule some_end [OF l])
qed

section \<open>Positions\<close>

text \<open>A buffer is what is left of a text; its line number counts the line ends before it.\<close>

definition position :: "string \<Rightarrow> yy_buffer \<Rightarrow> bool" where
  "position t b \<longleftrightarrow> (\<exists>p. t = p @ yb_rest b \<and> yb_lineno b = 1 + count_list p (CHR 0x0A) \<and>
     yb_at_bol b = (p = [] \<or> last p = CHR 0x0A))"

definition tracked :: "(string \<Rightarrow> string option) \<Rightarrow> string \<Rightarrow> yy_buffer list \<Rightarrow> bool" where
  "tracked fo t bs \<longleftrightarrow> bs \<noteq> [] \<and> position t (hd bs) \<and> (\<forall>b \<in> set (tl bs). \<exists>name u. fo name = Some u \<and> position u b)"

lemma position_eaten: "position t b \<Longrightarrow> eaten b b' \<Longrightarrow> position t b'"
  by (auto simp: position_def eaten_def count_list_append intro: exI [of _ "_ @ _"])

lemma position_new: "position t (new_buffer t)"
  by (simp add: position_def new_buffer_def)

lemma tracked_snoc:
  "tracked fo t (bs @ [b]) \<longleftrightarrow>
     (if bs = [] then position t b else tracked fo t bs \<and> (\<exists>name u. fo name = Some u \<and> position u b))"
  by (cases bs) (auto simp: tracked_def)

lemma tracked_moves: "moves fo bs out bs' \<Longrightarrow> tracked fo t bs \<Longrightarrow> tracked fo t bs'"
proof (induction rule: moves.induct)
  case (moves_eat b b' out bs)
  then show ?case by (auto simp: tracked_snoc intro: position_eaten split: if_splits)
next
  case (moves_push b b' name u bs)
  have "tracked fo t (bs @ [b'])"
    using moves_push by (auto simp: tracked_snoc intro: position_eaten split: if_splits)
  then show ?case
    using moves_push(2) position_new tracked_snoc [of fo t "bs @ [b']" "new_buffer u"] by auto
qed (auto simp: tracked_snoc)

lemma tracked_moved: "moved fo bs bs' \<Longrightarrow> tracked fo t bs \<Longrightarrow> tracked fo t bs'"
  unfolding moved_def by (induction rule: rtranclp_induct) (auto dest: tracked_moves)

section \<open>Properties\<close>

text \<open>
  C14. Every call of \<open>yylex\<close> returns, whatever the input and the included
  files (that may include each other), every token carries the value its code
  promises, and after finitely many tokens the input ends.
\<close>

theorem scanner_delivers_typed_tokens:
  "(\<forall>i. yylex_loop fopen (scanned fopen i (scanner_init (scanctx_init idir name) input)) \<noteq> None \<and>
      typed_lexed (token_at (flex_lexer fopen) i (scanner_init (scanctx_init idir name) input))) \<and>
   (\<exists>k. lex_token (token_at (flex_lexer fopen) k (scanner_init (scanctx_init idir name) input)) = 0)"
proof -
  have "yylex_loop fopen sc \<noteq> None \<and> typed_lexed (snd (yylex (flex_lexer fopen) sc))" if "scanner_ok sc" for sc
    using flex_yylex [OF that, of fopen] by (cases "yylex (flex_lexer fopen) sc") auto
  then show ?thesis
    using scanned_ok [OF scanner_init_ok] some_end [OF scanner_init_ok] token_at_scanned by metis
qed

text \<open>
  C22. Positions: after any number of tokens, the outermost open buffer is a
  rest of the text that is read, every other one a rest of an included file, and
  the line number of each is 1 plus the number of line ends before it.
\<close>

theorem scanner_positions:
  "tracked fopen input (levels (scanned fopen k (scanner_init (scanctx_init idir name) input)))"
proof -
  have "levels (scanner_init (scanctx_init idir name) input) = [new_buffer input]"
    by (auto simp: levels_def scanner_init_def scanctx_init_def scanctx_add_filename_def Let_def split: option.splits)
  then have "tracked fopen input (levels (scanner_init (scanctx_init idir name) input))"
    by (simp add: tracked_def position_new)
  then show ?thesis using tracked_moved scanned_ok [OF scanner_init_ok] by blast
qed

end
