(* ===== verification/ConfigIO.thy ===== *)
theory ConfigIO
  imports ScanLoop
begin

text \<open>
  Reading and writing configurations (\<open>lib/libconfig.c\<close>): \<open>config_read\<close>,
  \<open>config_read_string\<close>, \<open>config_read_file\<close>, which join the scanner and the
  parser, and \<open>config_write\<close>, \<open>config_write_file\<close>.  A stream that is written is
  the text written to it.  The file system is a parameter: the contents of a
  file that can be opened for reading, and whether a file can be opened for
  writing.
\<close>

section \<open>Reading\<close>

text \<open>
  The configuration after the call, the hooks the destructor was called for, and
  the result; no value when the parser reads through NULL or the fuel is used up.
\<close>

definition config_reinit :: "config \<Rightarrow> config" where
  "config_reinit config =
     config_init\<lparr>destructor := destructor config, include_dir := include_dir config,
                 tab_width := tab_width config, flags := flags config\<rparr>"

definition config_read_with :: "nat \<Rightarrow> (string \<Rightarrow> string option) \<Rightarrow> config \<Rightarrow> string option \<Rightarrow> string \<Rightarrow>
    (config \<times> nat list \<times> bool) option" where
  "config_read_with fuel fopen config filename input =
     (let config1 = config_reinit config;
          sc = scanner_init (scanctx_init (include_dir config1) filename) input
      in case yyparse (flex_lexer fopen) fuel sc (parsectx_init config1) of
           Stop r p \<Rightarrow>
             let config2 = pc_config (ps_ctx p); scan_ctx = yyextra (ps_lex p);
                 config3 = (if r \<noteq> 0 then config2\<lparr>error_file := scanctx_current_filename scan_ctx,
                                                    error_type := CONFIG_ERR_PARSE\<rparr>
                            else config2)
             in Some (config3\<lparr>filenames := scanctx_cleanup scan_ctx\<rparr>, config_destroy config, r = 0)
         | _ \<Rightarrow> None)"

definition config_read :: "nat \<Rightarrow> (string \<Rightarrow> string option) \<Rightarrow> config \<Rightarrow> string \<Rightarrow> (config \<times> nat list \<times> bool) option" where
  "config_read fuel fopen config input = config_read_with fuel fopen config None input"

definition config_read_string :: "nat \<Rightarrow> (string \<Rightarrow> string option) \<Rightarrow> config \<Rightarrow> string \<Rightarrow> (config \<times> nat list \<times> bool) option" where
  "config_read_string fuel fopen config str = config_read_with fuel fopen config None (c_text str)"

definition io_error :: string where
  "io_error = ''file I/O error''"

definition config_read_file :: "nat \<Rightarrow> (string \<Rightarrow> string option) \<Rightarrow> config \<Rightarrow> string \<Rightarrow> (config \<times> nat list \<times> bool) option" where
  "config_read_file fuel fopen config filename =
     (case fopen filename of
        None \<Rightarrow> Some (config\<lparr>error_text := Some io_error, error_type := CONFIG_ERR_FILE_IO\<rparr>, [], False)
      | Some input \<Rightarrow> config_read_with fuel fopen config (Some filename) input)"

section \<open>Writing\<close>

text \<open>\<open>%*s\<close> of a blank pads it to the width; a negative width pads on the right.\<close>

definition config_indent :: "int \<Rightarrow> 16 word \<Rightarrow> string" where
  "config_indent depth w =
     (if w \<noteq> 0 then replicate (max 1 (nat \<bar>(depth - 1) * int (unat w)\<bar>)) (CHR '' '')
      else replicate (nat (depth - 1)) (CHR 0x09))"

definition FLOAT_PRECISION :: nat where
  "FLOAT_PRECISION = 10"

text \<open>The loop that cuts trailing zeros; it keeps the text when only its first character is none.\<close>

definition cut_zeros :: "string \<Rightarrow> string" where
  "cut_zeros fbuf = (let s = strip_zeros fbuf in if length s < 2 then fbuf else s)"

definition write_float :: "cdouble \<Rightarrow> string" where
  "write_float v =
     (let fbuf = take 60 (show_g FLOAT_PRECISION v)
      in if CHR ''e'' \<in> set fbuf then fbuf
         else if CHR ''.'' \<notin> set fbuf then fbuf @ ''.0''
         else cut_zeros fbuf)"

definition write_char :: "char \<Rightarrow> string" where
  "write_char c =
     (if c = CHR 0x22 \<or> c = CHR 0x5C then [CHR 0x5C, c]
      else if c = CHR 0x0A then [CHR 0x5C, CHR ''n'']
      else if c = CHR 0x0D then [CHR 0x5C, CHR ''r'']
      else if c = CHR 0x0C then [CHR 0x5C, CHR ''f'']
      else if c = CHR 0x09 then [CHR 0x5C, CHR ''t'']
      else if 32 \<le> code c then [c]
      else [CHR 0x5C, CHR ''x''] @ show_02X (word_of_nat (code c)))"

definition write_string :: "string option \<Rightarrow> string" where
  "write_string s = [CHR 0x22] @ (case s of None \<Rightarrow> [] | Some t \<Rightarrow> concat (map write_char t)) @ [CHR 0x22]"

text \<open>The elements of an array or list: a comma behind each but the last, a blank behind each.\<close>

fun write_elements :: "string list \<Rightarrow> string" where
  "write_elements [] = []"
| "write_elements [x] = x @ '' ''"
| "write_elements (x # y # ys) = x @ '', '' @ write_elements (y # ys)"

definition write_name :: "config_setting \<Rightarrow> string" where
  "write_name s =
     (case s_name s of None \<Rightarrow> []
      | Some nm \<Rightarrow> nm @ '' '' @ (if s_type s = CONFIG_TYPE_GROUP then '':'' else ''='') @ '' '')"

definition write_number :: "int \<Rightarrow> config_setting \<Rightarrow> string" where
  "write_number fmt s =
     (if s_type s = CONFIG_TYPE_INT
      then if fmt = CONFIG_FORMAT_HEX then ''0x'' @ show_hex (unat (ival s)) else show_int (sint (ival s))
      else (if fmt = CONFIG_FORMAT_HEX then ''0x'' @ show_hex (unat (llval s)) else show_int (sint (llval s))) @ ''L'')"

text \<open>The nested calls of \<open>__config_write_value\<close> and \<open>__config_write_setting\<close>, on one tree.\<close>

lemma elem_size: "e \<in> set (elems s) \<Longrightarrow> size e < size s"
proof -
  assume "e \<in> set (elems s)"
  then obtain xs where xs: "s_value s = VList xs" "e \<in> set xs"
    by (auto simp: elems_def list_ptr_def split: config_value.splits)
  have "size e \<le> size_list size xs" by (rule size_list_estimation' [OF xs(2) order_refl])
  then show ?thesis using xs by (cases s) simp
qed

function write_value :: "config \<Rightarrow> config_setting \<Rightarrow> int \<Rightarrow> string"
  and write_setting :: "config \<Rightarrow> config_setting \<Rightarrow> int \<Rightarrow> string" where
  "write_value cfg s depth =
     (case s_type s of
        CONFIG_TYPE_BOOL \<Rightarrow> if ival s \<noteq> 0 then ''true'' else ''false''
      | CONFIG_TYPE_INT \<Rightarrow> write_number (config_setting_get_format cfg s) s
      | CONFIG_TYPE_INT64 \<Rightarrow> write_number (config_setting_get_format cfg s) s
      | CONFIG_TYPE_FLOAT \<Rightarrow> write_float (fval s)
      | CONFIG_TYPE_STRING \<Rightarrow> write_string (sval s)
      | CONFIG_TYPE_LIST \<Rightarrow> ''( '' @ write_elements (map (\<lambda>e. write_value cfg e (depth + 1)) (elems s)) @ '')''
      | CONFIG_TYPE_ARRAY \<Rightarrow> ''[ '' @ write_elements (map (\<lambda>e. write_value cfg e (depth + 1)) (elems s)) @ '']''
      | CONFIG_TYPE_GROUP \<Rightarrow>
          (if depth > 0
           then [CHR 0x0A] @ (if depth > 1 then config_indent depth (tab_width cfg) else []) @ ''{'' @ [CHR 0x0A]
           else []) @
          concat (map (\<lambda>e. write_setting cfg e (depth + 1)) (elems s)) @
          (if depth > 1 then config_indent depth (tab_width cfg) else []) @
          (if depth > 0 then ''}'' else [])
      | CONFIG_TYPE_NONE \<Rightarrow> ''???'')"
| "write_setting cfg s depth =
     (if depth > 1 then config_indent depth (tab_width cfg) else []) @
     write_name s @ write_value cfg s depth @
     (if depth > 0 then '';'' @ [CHR 0x0A] else [])"
  by pat_completeness auto
termination
  by (relation "measure (\<lambda>x. case x of Inl (cfg, s, d) \<Rightarrow> 2 * size s | Inr (cfg, s, d) \<Rightarrow> 2 * size s + 1)")
    (auto dest!: elem_size)

declare write_value.simps [simp del] write_setting.simps [simp del]

definition config_write :: "config \<Rightarrow> string" where
  "config_write config = write_setting config (root config) 0"

definition config_write_file :: "(string \<Rightarrow> bool) \<Rightarrow> config \<Rightarrow> string \<Rightarrow> config \<times> string option \<times> bool" where
  "config_write_file can_open config filename =
     (if can_open filename then (config\<lparr>error_type := CONFIG_ERR_NONE\<rparr>, Some (config_write config), True)
      else (config\<lparr>error_text := Some io_error, error_type := CONFIG_ERR_FILE_IO\<rparr>, None, False))"

section \<open>A read always ends\<close>

lemma openers_le: "openers lx k l \<le> k"
  using length_filter_le [of opener "map (\<lambda>i. lex_token (token_at lx i l)) [0..<k]"] by (simp add: openers_def)

lemma config_reinit_root: "root (config_reinit config) = new_setting None CONFIG_TYPE_GROUP"
  by (simp add: config_reinit_def config_init_def)

text \<open>The scanner a read starts with, and the tokens before the end of its input.\<close>

definition read_scanner :: "config \<Rightarrow> string option \<Rightarrow> string \<Rightarrow> scanner" where
  "read_scanner config filename input = scanner_init (scanctx_init (include_dir config) filename) input"

lemma config_read_with_scanner:
  "config_read_with fuel fopen config filename input =
     (case yyparse (flex_lexer fopen) fuel (read_scanner config filename input) (parsectx_init (config_reinit config)) of
        Stop r p \<Rightarrow>
          Some ((if r \<noteq> 0 then (pc_config (ps_ctx p))\<lparr>error_file := scanctx_current_filename (yyextra (ps_lex p)), error_type := CONFIG_ERR_PARSE\<rparr>
                 else pc_config (ps_ctx p))\<lparr>filenames := scanctx_cleanup (yyextra (ps_lex p))\<rparr>, config_destroy config, r = 0)
      | _ \<Rightarrow> None)"
  by (simp add: config_read_with_def read_scanner_def config_reinit_def Let_def split: outcome.split)

text \<open>
  An input is refused when the reference parser, run over its tokens, ends with
  an error: a token that does not fit, a repeated name, or an element of the
  wrong type.
\<close>

definition refused :: "(string \<Rightarrow> string option) \<Rightarrow> config \<Rightarrow> string option \<Rightarrow> string \<Rightarrow> bool" where
  "refused fopen config filename input \<longleftrightarrow>
     (\<exists>n l' r ctx. ref_parse (flex_lexer fopen) n (read_scanner config filename input) YUndef
        (Go Settings [] (parsectx_init (config_reinit config))) = (l', Ret r ctx) \<and> r \<noteq> 0)"

lemma refused_iff:
  assumes "ref_parse (flex_lexer fopen) n (read_scanner config filename input) YUndef
    (Go Settings [] (parsectx_init (config_reinit config))) = (l', Ret r ctx)"
  shows "refused fopen config filename input \<longleftrightarrow> r \<noteq> 0"
proof
  assume "refused fopen config filename input"
  then obtain m l2 r2 ctx2 where "ref_parse (flex_lexer fopen) m (read_scanner config filename input) YUndef
      (Go Settings [] (parsectx_init (config_reinit config))) = (l2, Ret r2 ctx2)" "r2 \<noteq> 0"
    unfolding refused_def by blast
  then show "r \<noteq> 0" using ref_parse_unique [OF _ assms] by simp
qed (use assms in \<open>unfold refused_def, blast\<close>)

lemma not_refused:
  "spells_file (flex_lexer fopen) n (read_scanner config filename input) ms \<Longrightarrow> \<not> refused fopen config filename input"
  using reference_builds [of "flex_lexer fopen" n "read_scanner config filename input" ms "config_reinit config"]
    refused_iff config_reinit_root by metis

lemma read_result:
  assumes "\<forall>k. (\<forall>i<k. lex_token (token_at (flex_lexer fopen) i (read_scanner config filename input)) \<noteq> 0) \<longrightarrow>
    openers (flex_lexer fopen) k (read_scanner config filename input) \<le> MAX_NEST"
  shows "\<exists>fuel config' ok. config_read_with fuel fopen config filename input = Some (config', config_destroy config, ok)
     \<and> well_typed (root config') \<and> (\<not> ok \<longrightarrow> error_type config' = CONFIG_ERR_PARSE \<and> error_text config' \<noteq> None)
     \<and> (ok \<longleftrightarrow> \<not> refused fopen config filename input)"
proof -
  let ?l = "read_scanner config filename input" and ?cfg = "config_reinit config"
  have "scanner_ok ?l" unfolding read_scanner_def by (rule scanner_init_ok)
  moreover have "well_typed (root ?cfg)" "s_type (root ?cfg) = CONFIG_TYPE_GROUP" by (simp_all add: config_reinit_root)
  ultimately obtain n l' r ctx where
    r: "ref_parse (flex_lexer fopen) n ?l YUndef (Go Settings [] (parsectx_init ?cfg)) = (l', Ret r ctx)" "r \<le> 1"
    "well_typed (root (pc_config ctx))" "r = 1 \<longrightarrow> error_text (pc_config ctx) \<noteq> None"
    using flex.reference_returns [OF _ assms] by meson
  have "refused fopen config filename input \<longleftrightarrow> r \<noteq> 0" by (rule refused_iff [OF r(1)])
  moreover obtain p where "yyparse (flex_lexer fopen) (12 * n) ?l (parsectx_init ?cfg) = Stop r p" "ps_ctx p = ctx"
    using driver_refines [OF r(1)] by blast
  ultimately show ?thesis using r(2-4)
    by (intro exI [of _ "12 * n"]) (auto simp: config_read_with_scanner)
qed

lemma read_ends:
  assumes "\<forall>k. (\<forall>i<k. lex_token (token_at (flex_lexer fopen) i (read_scanner config filename input)) \<noteq> 0) \<longrightarrow>
    openers (flex_lexer fopen) k (read_scanner config filename input) \<le> MAX_NEST"
  shows "\<exists>fuel config' ok. config_read_with fuel fopen config filename input = Some (config', config_destroy config, ok)
     \<and> well_typed (root config') \<and> (\<not> ok \<longrightarrow> error_type config' = CONFIG_ERR_PARSE \<and> error_text config' \<noteq> None)"
  using read_result [OF assms] by blast

text \<open>
  C9. Reading always ends, whatever the text and the files it includes: if at
  most \<open>MAX_NEST\<close> brackets are opened before the end of the input, there is an
  answer, the configuration it leaves is well-typed, and a failure is
  reported with its kind and an error text.
\<close>

theorem config_read_always_ends:
  assumes "\<forall>k. (\<forall>i<k. lex_token (token_at (flex_lexer fopen) i (read_scanner config filename input)) \<noteq> 0) \<longrightarrow>
    openers (flex_lexer fopen) k (read_scanner config filename input) \<le> MAX_NEST"
  shows "\<exists>fuel config' ok. config_read_with fuel fopen config filename input = Some (config', config_destroy config, ok)
     \<and> well_typed (root config') \<and> (\<not> ok \<longrightarrow> error_type config' = CONFIG_ERR_PARSE \<and> error_text config' \<noteq> None)"
  by (rule read_ends [OF assms])

definition sample_text :: string where
  "sample_text = ''a=[1]''"

theorem config_read_always_ends_witness:
  "\<exists>fuel config' ok. config_read_with fuel (\<lambda>_. None) config_init None sample_text = Some (config', config_destroy config_init, ok)
     \<and> well_typed (root config') \<and> (\<not> ok \<longrightarrow> error_type config' = CONFIG_ERR_PARSE \<and> error_text config' \<noteq> None)"
proof (rule config_read_always_ends, intro allI impI)
  fix k
  assume a: "\<forall>i<k. lex_token (token_at (flex_lexer (\<lambda>_. None)) i (read_scanner config_init None sample_text)) \<noteq> 0"
  have "lex_token (token_at (flex_lexer (\<lambda>_. None)) 5 (read_scanner config_init None sample_text)) = 0" by code_simp
  then have "k \<le> 5" using a by (metis not_le)
  then show "openers (flex_lexer (\<lambda>_. None)) k (read_scanner config_init None sample_text) \<le> MAX_NEST"
    using openers_le [of "flex_lexer (\<lambda>_. None)" k "read_scanner config_init None sample_text"] by (simp add: MAX_NEST_def)
qed

end
