(* ===== verification/Lexing.thy ===== *)
theory Lexing
  imports ConfigIO
begin

text \<open>
  Which texts the scanner reads as which token: names, numbers, strings and
  punctuation, when a delimiter or nothing follows, and the white space between
  them.  The proofs argue with the rules of \<open>scanner.l\<close> only.
\<close>

section \<open>Which rules apply\<close>

fun starts :: "'a \<Rightarrow> 'a rexp \<Rightarrow> bool" where
  "starts c Zero = False"
| "starts c One = False"
| "starts c (Cls b cs) = ((c \<in> set cs) = b)"
| "starts c (Alt p q) = (starts c p \<or> starts c q)"
| "starts c (Seq p q) = (starts c p \<or> nullable p \<and> starts c q)"
| "starts c (Star p) = starts c p"

lemma recog_starts: "recog r (c # w) \<Longrightarrow> starts c r"
proof (induction r "c # w" arbitrary: w rule: recog.induct)
  case (recog_Seq p v q w')
  then show ?case by (cases v) auto
next
  case (recog_Star1 p v w')
  then show ?case by (cases v) auto
qed auto

lemma first_rule_None: "first_rule rules w = None \<longleftrightarrow> (\<forall>(b, q) \<in> set rules. \<not> recog q w)"
  by (auto simp: first_rule_def find_None_iff)

lemma first_rule_least:
  "sorted_wrt (<) (map fst rules) \<Longrightarrow> (a, r) \<in> set rules \<Longrightarrow> recog r w \<Longrightarrow>
   (\<And>b q. (b, q) \<in> set rules \<Longrightarrow> recog q w \<Longrightarrow> a \<le> b) \<Longrightarrow> first_rule rules w = Some a"
proof (induction rules)
  case (Cons p rules)
  obtain b q where p: "p = (b, q)" by fastforce
  show ?case
  proof (cases "recog q w")
    case True
    have "a \<le> b" using Cons.prems(4) [of b q] True p by simp
    moreover have "b \<le> a" using Cons.prems(1,2) p by force
    ultimately show ?thesis using p True by (simp add: first_rule_def)
  next
    case False
    then have "(a, r) \<in> set rules" using Cons.prems(2,3) p by auto
    then have "first_rule rules w = Some a"
      using Cons.IH Cons.prems by (metis list.set_intros(2) list.simps(9) sorted_wrt.simps(2))
    then show ?thesis using p False by (simp add: first_rule_def)
  qed
qed simp

lemma rules_sorted: "sorted_wrt (<) (map fst (flex_rules condition bol))"
proof -
  have "list_all (\<lambda>rs. sorted_wrt (<) (map fst (rs @ [(42, none_of [])])))
      [rules_initial True, rules_initial False, rules_comment, rules_string, rules_include]"
    by code_simp
  then show ?thesis by (cases bol) (auto simp: flex_rules_def)
qed

text \<open>The match that the rules determine.\<close>

lemma match_by_rules:
  assumes "c \<in> {INITIAL, COMMENT, STRING, INCLUDE}" "u \<noteq> []" "first_rule (flex_rules c bol) u = Some a"
    "\<And>w z. w \<noteq> [] \<Longrightarrow> rest = w @ z \<Longrightarrow> first_rule (flex_rules c bol) (u @ w) = None"
  shows "yy_match (1 + 2 * c + (if bol then 1 else 0)) (u @ rest) 0 None = (a, length u)"
proof -
  obtain b n where m: "yy_match (1 + 2 * c + (if bol then 1 else 0)) (u @ rest) 0 None = (b, n)" by fastforce
  have "u @ rest \<noteq> []" using assms(2) by simp
  from tables_sound [OF assms(1) this m]
  have l: "n \<le> length (u @ rest)" "first_rule (flex_rules c bol) (take n (u @ rest)) = Some b"
    "\<forall>k \<in> {n<..length (u @ rest)}. first_rule (flex_rules c bol) (take k (u @ rest)) = None"
    by (auto simp: longest_match_def)
  have "\<not> n < length u" using l(3) assms(3) by (auto dest: bspec [of _ _ "length u"])
  moreover have "\<not> length u < n"
  proof
    assume n: "length u < n"
    have "take n (u @ rest) = u @ take (n - length u) rest" using n by simp
    moreover have "take (n - length u) rest \<noteq> []" using n l(1) by auto
    ultimately show False
      using assms(4) [of "take (n - length u) rest" "drop (n - length u) rest"] l(2) by simp
  qed
  ultimately have "n = length u" by simp
  then show ?thesis using m l(2) assms(3) by simp
qed

section \<open>Names, numbers and punctuation\<close>

text \<open>The characters that may follow a word: the rules for words do not mention them.\<close>

definition delims :: string where
  "delims = '' ,;'' @ [CHR 0x0A, CHR 0x09]"

definition word_rules :: "int list" where
  "word_rules = [27, 28, 29, 30, 31, 32, 33, 34]"

lemma word_rules_delims:
  assumes "(a, r) \<in> set (flex_rules INITIAL bol)" "a \<in> set word_rules" "d \<in> set delims"
  shows "\<not> mentions d r"
proof -
  have "list_all (\<lambda>(a, r). a \<in> set word_rules \<longrightarrow> list_all (\<lambda>d. \<not> mentions d r) delims) (flex_rules INITIAL True)"
    by code_simp
  moreover have "(a, r) \<in> set (flex_rules INITIAL True)"
    using assms(1) by (cases bol) (auto simp: flex_rules_def rules_initial_def)
  ultimately show ?thesis using assms(2,3) by (auto simp: list_all_iff)
qed

text \<open>Which rules a text can begin with: a word's rule, or one of the rules for single characters.\<close>

definition begins :: "char \<Rightarrow> int list \<Rightarrow> bool" where
  "begins x as \<longleftrightarrow> list_all (\<lambda>(b, q). starts x q \<longrightarrow> b \<in> set as \<or> b = 41 \<or> b = 42) (flex_rules INITIAL True)"

lemma single_rules: "(b, q) \<in> set (flex_rules INITIAL bol) \<Longrightarrow> b = 41 \<or> b = 42 \<Longrightarrow> recog q w \<Longrightarrow> length w = 1"
  by (auto simp: flex_rules_def rules_initial_def INITIAL_def no_newline_def none_of_def split: if_splits)

lemma begins_recog:
  assumes "begins x as" "(b, q) \<in> set (flex_rules INITIAL bol)" "recog q (x # w)"
  shows "b \<in> set as \<or> (b = 41 \<or> b = 42) \<and> w = []"
proof -
  have m: "(b, q) \<in> set (flex_rules INITIAL True)"
    using assms(2) by (cases bol) (auto simp: flex_rules_def rules_initial_def)
  have "starts x q" using recog_starts [OF assms(3)] .
  then have "b \<in> set as \<or> b = 41 \<or> b = 42" using assms(1) m by (auto simp: begins_def list_all_iff)
  then show ?thesis using single_rules [OF assms(2) _ assms(3)] by auto
qed

definition followed :: "string \<Rightarrow> bool" where
  "followed rest \<longleftrightarrow> rest = [] \<or> hd rest \<in> set delims"

text \<open>A word: the first rule that recognises it, if only rules for words can begin like it.\<close>

lemma word_match:
  assumes "begins x as" "set as \<subseteq> set word_rules" "(a, r) \<in> set (flex_rules INITIAL bol)" "a \<in> set as" "recog r (x # w)"
    "\<And>b q. (b, q) \<in> set (flex_rules INITIAL bol) \<Longrightarrow> b \<in> set as \<Longrightarrow> recog q (x # w) \<Longrightarrow> a \<le> b" "followed rest"
  shows "yy_match (1 + 2 * INITIAL + (if bol then 1 else 0)) ((x # w) @ rest) 0 None = (a, length (x # w))"
proof (rule match_by_rules)
  have "a \<le> 34" using assms(2,4) by (auto simp: word_rules_def)
  then show "first_rule (flex_rules INITIAL bol) (x # w) = Some a"
    using begins_recog [OF assms(1)] assms(6)
    by (intro first_rule_least [OF rules_sorted assms(3,5)]) fastforce
  fix v z
  assume v: "v \<noteq> []" "rest = v @ z"
  then obtain d v' where d: "v = d # v'" "d \<in> set delims" using assms(7) by (cases v) (auto simp: followed_def)
  have "\<not> recog q ((x # w) @ v)" if "(b, q) \<in> set (flex_rules INITIAL bol)" for b q
  proof
    assume q: "recog q ((x # w) @ v)"
    then have "b \<in> set as" using begins_recog [OF assms(1) that, of "w @ v"] v by auto
    then have "\<not> mentions d q" using word_rules_delims [OF that _ d(2)] assms(2) by blast
    then show False using recog_mentions [OF q, of d] d(1) by simp
  qed
  then show "first_rule (flex_rules INITIAL bol) ((x # w) @ v) = None" by (auto simp: first_rule_None)
qed simp_all

text \<open>Punctuation and white space: a single character that only rules for single characters begin with.\<close>

definition punctuation :: "(char \<times> int) list" where
  "punctuation = [(CHR ''='', 23), (CHR '':'', 23), (CHR '','', 24), (CHR ''{'', 25), (CHR ''}'', 26), (CHR ''['', 35),
     (CHR '']'', 36), (CHR ''('', 37), (CHR '')'', 38), (CHR '';'', 39), (CHR 0x0A, 21)]"

fun one_char :: "'a rexp \<Rightarrow> bool" where
  "one_char (Cls b cs) = True"
| "one_char r = False"

lemma punctuation_match:
  assumes "(x, a) \<in> set punctuation"
  shows "yy_match (1 + 2 * INITIAL + (if bol then 1 else 0)) ([x] @ rest) 0 None = (a, length [x])"
proof (rule match_by_rules)
  have p: "list_all (\<lambda>(x, a). first_rule (flex_rules INITIAL True) [x] = Some a \<and> first_rule (flex_rules INITIAL False) [x] = Some a \<and>
      list_all (\<lambda>(b, q). starts x q \<longrightarrow> one_char q) (flex_rules INITIAL True)) punctuation"
    by code_simp
  then show "first_rule (flex_rules INITIAL bol) [x] = Some a" using assms by (cases bol) (auto simp: list_all_iff)
  fix v z
  assume v: "v \<noteq> []" "rest = v @ z"
  have "\<not> recog q ([x] @ v)" if "(b, q) \<in> set (flex_rules INITIAL bol)" for b q
  proof
    assume q: "recog q ([x] @ v)"
    have "(b, q) \<in> set (flex_rules INITIAL True)"
      using that by (cases bol) (auto simp: flex_rules_def rules_initial_def)
    moreover have "starts x q" using recog_starts [of q x v] q by simp
    ultimately have "one_char q" using p assms by (fastforce simp: list_all_iff)
    then show False using q v(1) by (cases q) auto
  qed
  then show "first_rule (flex_rules INITIAL bol) ([x] @ v) = None" by (auto simp: first_rule_None)
qed simp_all

section \<open>Words\<close>

lemma char_range_iff: "c \<in> set (char_range a b) \<longleftrightarrow> code a \<le> code c \<and> code c \<le> code b"
proof -
  have i: "(of_char x :: int) = int (code x)" for x by (rule of_nat_of_char [symmetric])
  have "c \<in> set (char_range a b) \<longleftrightarrow> (\<exists>n. int (code a) \<le> n \<and> n \<le> int (code b) \<and> c = char_of n)"
    by (auto simp: char_range_def i)
  also have "\<dots> \<longleftrightarrow> code a \<le> code c \<and> code c \<le> code b"
  proof
    assume "\<exists>n. int (code a) \<le> n \<and> n \<le> int (code b) \<and> c = char_of n"
    then obtain n where n: "int (code a) \<le> n" "n \<le> int (code b)" "c = char_of n" by blast
    have "code b < 256" by simp
    then have "n mod 256 = n" using n(1,2) by (intro mod_pos_pos_trivial) linarith+
    then have "(of_char c :: int) = n" using n(3) by (simp add: of_char_of take_bit_eq_mod)
    then have "int (code c) = n" by (simp only: i)
    then show "code a \<le> code c \<and> code c \<le> code b" using n by simp
  next
    assume "code a \<le> code c \<and> code c \<le> code b"
    moreover have "c = char_of (int (code c))" by simp
    ultimately show "\<exists>n. int (code a) \<le> n \<and> n \<le> int (code b) \<and> c = char_of n"
      by (intro exI [of _ "int (code c)"]) (simp only: of_nat_le_iff simp_thms)
  qed
  finally show ?thesis .
qed

lemma char_codes:
  "code (CHR ''0'') = 48" "code (CHR ''9'') = 57" "code (CHR ''A'') = 65" "code (CHR ''Z'') = 90" "code (CHR ''a'') = 97"
  "code (CHR ''z'') = 122" "code (CHR ''F'') = 70" "code (CHR ''f'') = 102"
  by simp_all

lemma char_sets:
  "isdigit c \<longleftrightarrow> c \<in> set digits" "isalpha c \<longleftrightarrow> c \<in> set letters" "isxdigit c \<longleftrightarrow> c \<in> set xdigits"
  by (simp_all only: digits_def letters_def xdigits_def set_append Un_iff char_range_iff isdigit_def isalpha_def isxdigit_def char_codes)

lemma begins_words:
  "isdigit c \<Longrightarrow> begins c [30, 31, 32, 33, 34]" "begins (CHR ''-'') [30, 31, 32]"
  "isalpha c \<or> c = CHR ''*'' \<Longrightarrow> begins c [27, 28, 29]"
proof -
  have d: "list_all (\<lambda>c. begins c [30, 31, 32, 33, 34]) digits" by code_simp
  have l: "list_all (\<lambda>c. begins c [27, 28, 29]) (CHR ''*'' # letters)" by code_simp
  show "isdigit c \<Longrightarrow> begins c [30, 31, 32, 33, 34]" "isalpha c \<or> c = CHR ''*'' \<Longrightarrow> begins c [27, 28, 29]"
    using d l by (auto simp: list_all_iff char_sets)
  show "begins (CHR ''-'') [30, 31, 32]" by code_simp
qed

lemma word_rule_in:
  "(27, r_true) \<in> set (flex_rules INITIAL bol)" "(28, r_false) \<in> set (flex_rules INITIAL bol)" "(29, r_name) \<in> set (flex_rules INITIAL bol)"
  "(30, r_float) \<in> set (flex_rules INITIAL bol)" "(31, r_integer) \<in> set (flex_rules INITIAL bol)"
  "(32, r_integer64) \<in> set (flex_rules INITIAL bol)" "(33, r_hex) \<in> set (flex_rules INITIAL bol)" "(34, r_hex64) \<in> set (flex_rules INITIAL bol)"
  by (simp_all add: flex_rules_def rules_initial_def)

lemma word_rule_only:
  assumes "(b, q) \<in> set (flex_rules INITIAL bol)"
  shows "b = 27 \<Longrightarrow> q = r_true" "b = 28 \<Longrightarrow> q = r_false" "b = 30 \<Longrightarrow> q = r_float"
    "b = 30 \<or> b = 31 \<Longrightarrow> \<not> mentions (CHR ''L'') q" "b = 30 \<or> b = 31 \<or> b = 32 \<Longrightarrow> \<not> mentions (CHR ''x'') q"
    "b = 33 \<Longrightarrow> \<not> mentions (CHR ''L'') q"
proof -
  define good where "good = (\<lambda>(b, q). (b = (27::int) \<longrightarrow> q = r_true) \<and> (b = 28 \<longrightarrow> q = r_false) \<and> (b = 30 \<longrightarrow> q = r_float) \<and>
    (b = 30 \<or> b = 31 \<longrightarrow> \<not> mentions (CHR ''L'') q) \<and> (b = 30 \<or> b = 31 \<or> b = 32 \<longrightarrow> \<not> mentions (CHR ''x'') q) \<and>
    (b = 33 \<longrightarrow> \<not> mentions (CHR ''L'') q))"
  have "list_all good (flex_rules INITIAL True)" unfolding good_def by code_simp
  moreover have "(b, q) \<in> set (flex_rules INITIAL True)"
    using assms by (cases bol) (auto simp: flex_rules_def rules_initial_def)
  ultimately have "good (b, q)" by (auto simp: list_all_iff)
  then show "b = 27 \<Longrightarrow> q = r_true" "b = 28 \<Longrightarrow> q = r_false" "b = 30 \<Longrightarrow> q = r_float"
    "b = 30 \<or> b = 31 \<Longrightarrow> \<not> mentions (CHR ''L'') q" "b = 30 \<or> b = 31 \<or> b = 32 \<Longrightarrow> \<not> mentions (CHR ''x'') q"
    "b = 33 \<Longrightarrow> \<not> mentions (CHR ''L'') q"
    by (auto simp: good_def)
qed

text \<open>What the regular expressions of the words recognise.\<close>

lemma recog_Star_Cls: "\<forall>c \<in> set w. (c \<in> set cs) = b \<Longrightarrow> recog (Star (Cls b cs)) w"
proof (induction w)
  case (Cons c w)
  then show ?case using recog_Star1 [of "Cls b cs" "[c]" w] by simp
qed simp

lemma recog_plus1: "w \<noteq> [] \<Longrightarrow> \<forall>c \<in> set w. c \<in> set cs \<Longrightarrow> recog (plus1 (one_of cs)) w"
proof (cases w)
  case (Cons c v)
  assume "\<forall>c \<in> set w. c \<in> set cs"
  then show ?thesis
    using recog_Seq [of "Cls True cs" "[c]" "Star (Cls True cs)" v] recog_Star_Cls [of v cs True] Cons
    by (simp add: plus1_def one_of_def)
qed simp

lemma recog_opt: "recog (opt r) [] " "recog r w \<Longrightarrow> recog (opt r) w"
  by (simp_all add: opt_def)

lemma nullable_opt [simp]: "nullable (opt r)"
  by (simp add: opt_def)

lemma recog_one_of [simp]: "recog (one_of cs) w \<longleftrightarrow> (\<exists>c \<in> set cs. w = [c])"
  by (auto simp: one_of_def)

definition numeral_text :: "string \<Rightarrow> bool" where
  "numeral_text w \<longleftrightarrow> w \<noteq> [] \<and> (\<forall>c \<in> set w. c \<in> set digits)"

lemma numeral_show_nat: "numeral_text (show_nat n)"
  using show_nat_digits [of n] by (auto simp: numeral_text_def char_sets)

lemma recog_sign: "s = [] \<or> s = ''-'' \<or> s = ''+'' \<Longrightarrow> recog (opt (one_of ''-+'')) s"
  by (auto simp: opt_def)

lemma recog_integer: "s = [] \<or> s = ''-'' \<or> s = ''+'' \<Longrightarrow> numeral_text w \<Longrightarrow> recog r_integer (s @ w)"
  unfolding r_integer_def numeral_text_def by (intro recog_Seq recog_sign recog_plus1) auto

lemma recog_suffix: "recog r_suffix ''L''"
  by code_simp

lemma recog_integer64: "s = [] \<or> s = ''-'' \<or> s = ''+'' \<Longrightarrow> numeral_text w \<Longrightarrow> recog r_integer64 (s @ w @ ''L'')"
  unfolding r_integer64_def numeral_text_def by (intro recog_Seq recog_sign recog_plus1 recog_suffix) auto

lemma recog_0x: "recog (word [''0'', ''Xx'']) ''0x''"
  by code_simp

lemma recog_hex: "w \<noteq> [] \<Longrightarrow> \<forall>c \<in> set w. isxdigit c \<Longrightarrow> recog r_hex (''0x'' @ w)"
  unfolding r_hex_def by (intro recog_Seq recog_0x recog_plus1) (auto simp: char_sets)

lemma recog_hex64: "w \<noteq> [] \<Longrightarrow> \<forall>c \<in> set w. isxdigit c \<Longrightarrow> recog r_hex64 (''0x'' @ w @ ''L'')"
  unfolding r_hex64_def by (intro recog_Seq recog_0x recog_plus1 recog_suffix) (auto simp: char_sets)

lemma recog_name: "config_validate_name nm \<Longrightarrow> recog r_name nm"
proof (cases nm)
  case (Cons c v)
  assume "config_validate_name nm"
  then have v: "isalpha c \<or> c = CHR ''*''" "\<forall>d \<in> set v. isalpha d \<or> isdigit d \<or> d \<in> set ''*_-''"
    using Cons by (auto simp: config_validate_name_def list_all_iff)
  have "recog (one_of (letters @ ''*'')) [c]" using v(1) by (auto simp: char_sets)
  moreover have "recog (Star (one_of (''-_*'' @ letters @ digits))) v"
    unfolding one_of_def using v(2) by (intro recog_Star_Cls) (auto simp: char_sets)
  ultimately have "recog r_name ([c] @ v)" unfolding r_name_def by (rule recog_Seq)
  then show ?thesis using Cons by simp
qed (simp add: config_validate_name_def)

text \<open>Every text a rule recognises contains a character with the property.\<close>

fun needs :: "('a \<Rightarrow> bool) \<Rightarrow> 'a rexp \<Rightarrow> bool" where
  "needs P Zero = True"
| "needs P One = False"
| "needs P (Cls b cs) = (b \<and> list_all P cs)"
| "needs P (Alt p q) = (needs P p \<and> needs P q)"
| "needs P (Seq p q) = (needs P p \<or> needs P q)"
| "needs P (Star p) = False"

lemma recog_needs: "recog r w \<Longrightarrow> needs P r \<Longrightarrow> \<exists>c \<in> set w. P c"
  by (induction rule: recog.induct) (auto simp: list_all_iff)

lemma float_mark: "recog r_float w \<Longrightarrow> \<exists>c \<in> set w. c = CHR ''.'' \<or> c = CHR ''e'' \<or> c = CHR ''E''"
proof (rule recog_needs)
  show "needs (\<lambda>c. c = CHR ''.'' \<or> c = CHR ''e'' \<or> c = CHR ''E'') r_float" by code_simp
qed

definition fraction_text :: "string \<Rightarrow> bool" where
  "fraction_text w \<longleftrightarrow> (\<exists>ip fp. w = ip @ ''.'' @ fp \<and> numeral_text ip \<and> (\<forall>c \<in> set fp. c \<in> set digits))"

definition exponent_text :: "string \<Rightarrow> bool" where
  "exponent_text w \<longleftrightarrow> (\<exists>s ds. w = ''e'' @ s @ ds \<and> (s = ''+'' \<or> s = ''-'') \<and> numeral_text ds)"

lemma recog_exponent: "exponent_text w \<Longrightarrow> recog r_exponent w"
proof -
  assume "exponent_text w"
  then obtain s ds where w: "w = ''e'' @ s @ ds" "s = ''+'' \<or> s = ''-''" "numeral_text ds"
    by (auto simp: exponent_text_def)
  have "recog (one_of ''eE'') ''e''" by simp
  moreover have "recog (opt (one_of ''-+'')) s" using w(2) by (intro recog_sign) auto
  moreover have "recog (plus1 (one_of digits)) ds" using w(3) by (intro recog_plus1) (auto simp: numeral_text_def)
  ultimately show ?thesis unfolding r_exponent_def w(1) by (intro recog_Seq)
qed

lemma recog_float:
  assumes "s = [] \<or> s = ''-''" "numeral_text ip" "\<forall>c \<in> set fp. c \<in> set digits"
  shows "recog r_float (s @ ip @ ''.'' @ fp)"
    "exponent_text ex \<Longrightarrow> recog r_float (s @ ip @ ''.'' @ fp @ ex)"
    "exponent_text ex \<Longrightarrow> recog r_float (s @ ip @ ex)"
proof -
  have s: "recog (opt (one_of ''-+'')) s" using assms(1) by (intro recog_sign) auto
  have i: "recog (opt (Star (one_of digits))) ip" "recog (plus1 (one_of digits)) ip"
    using assms(2) by (auto simp: numeral_text_def one_of_def intro!: recog_opt recog_Star_Cls recog_plus1 [unfolded one_of_def])
  have f: "recog (Star (one_of digits)) fp"
    using assms(3) unfolding one_of_def by (intro recog_Star_Cls) auto
  have p: "recog (one_of ''.'') ''.''" by simp
  have "recog (Seq (opt (one_of ''-+'')) (Seq (opt (Star (one_of digits))) (Seq (one_of ''.'')
      (Seq (Star (one_of digits)) (opt r_exponent))))) (s @ ip @ ''.'' @ fp @ e)" if "recog (opt r_exponent) e" for e
    using s i(1) p f that by (intro recog_Seq)
  from this [of "[]"] this [of ex]
  show "recog r_float (s @ ip @ ''.'' @ fp)" "exponent_text ex \<Longrightarrow> recog r_float (s @ ip @ ''.'' @ fp @ ex)"
    unfolding r_float_def by (simp_all add: recog_opt recog_exponent)
  show "recog r_float (s @ ip @ ex)" if "exponent_text ex"
  proof -
    have "recog (Seq (opt (one_of ''-+'')) (Seq (plus1 (one_of digits)) (Seq (opt (Seq (one_of ''.'') (Star (one_of digits)))) r_exponent)))
        (s @ ip @ [] @ ex)"
      using s i(2) recog_opt(1) recog_exponent [OF that] by (intro recog_Seq)
    then show ?thesis unfolding r_float_def by simp
  qed
qed

section \<open>Matches\<close>

definition reserved :: "string \<Rightarrow> bool" where
  "reserved nm \<longleftrightarrow> recog r_true nm \<or> recog r_false nm"

lemma name_match:
  assumes "config_validate_name nm" "\<not> reserved nm" "followed rest"
  shows "yy_match (1 + 2 * INITIAL + (if bol then 1 else 0)) (nm @ rest) 0 None = (29, length nm)"
proof -
  obtain x w where nm: "nm = x # w" using assms(1) by (cases nm) (auto simp: config_validate_name_def)
  have "isalpha x \<or> x = CHR ''*''" using assms(1) nm by (simp add: config_validate_name_def)
  then have b: "begins x [27, 28, 29]" by (rule begins_words(3))
  show ?thesis unfolding nm
  proof (rule word_match [OF b _ word_rule_in(3) _ _ _ assms(3)])
    show "recog r_name (x # w)" using recog_name [OF assms(1)] nm by simp
    show "29 \<le> b" if "(b, q) \<in> set (flex_rules INITIAL bol)" "b \<in> set [27, 28, 29]" "recog q (x # w)" for b q
      using word_rule_only(1,2) [OF that(1)] that(2,3) assms(2) nm by (auto simp: reserved_def)
  qed (auto simp: word_rules_def)
qed

lemma bool_match:
  assumes "followed rest"
  shows "yy_match (1 + 2 * INITIAL + (if bol then 1 else 0)) (''true'' @ rest) 0 None = (27, length ''true'')"
    "yy_match (1 + 2 * INITIAL + (if bol then 1 else 0)) (''false'' @ rest) 0 None = (28, length ''false'')"
proof -
  have b: "begins (CHR ''t'') [27, 28, 29]" "begins (CHR ''f'') [27, 28, 29]"
    by (rule begins_words(3), simp add: isalpha_def)+
  have r: "recog r_true ''true''" "recog r_false ''false''" "\<not> recog r_true ''false''" by code_simp+
  show "yy_match (1 + 2 * INITIAL + (if bol then 1 else 0)) (''true'' @ rest) 0 None = (27, length ''true'')"
    by (rule word_match [OF b(1) _ word_rule_in(1) _ r(1) _ assms]) (auto simp: word_rules_def)
  show "yy_match (1 + 2 * INITIAL + (if bol then 1 else 0)) (''false'' @ rest) 0 None = (28, length ''false'')"
    by (rule word_match [OF b(2) _ word_rule_in(2) _ r(2) _ assms]) (use r(3) word_rule_only(1) in \<open>auto simp: word_rules_def\<close>)
qed

text \<open>A number begins with a digit or a minus sign.\<close>

lemma number_match:
  assumes "isdigit x \<and> a \<in> {30..34} \<or> x = CHR ''-'' \<and> a \<in> {30..32}" "(a, r) \<in> set (flex_rules INITIAL bol)" "recog r (x # w)"
    "\<And>b q. (b, q) \<in> set (flex_rules INITIAL bol) \<Longrightarrow> 30 \<le> b \<Longrightarrow> b < a \<Longrightarrow> \<not> recog q (x # w)" "followed rest"
  shows "yy_match (1 + 2 * INITIAL + (if bol then 1 else 0)) ((x # w) @ rest) 0 None = (a, length (x # w))"
  using assms(1)
proof
  assume x: "isdigit x \<and> a \<in> {30..34}"
  show ?thesis
  proof (rule word_match [OF begins_words(1) _ assms(2) _ assms(3) _ assms(5)])
    show "a \<in> set [30, 31, 32, 33, 34]" using x by auto
    show "a \<le> b" if "(b, q) \<in> set (flex_rules INITIAL bol)" "b \<in> set [30, 31, 32, 33, 34]" "recog q (x # w)" for b q
      using assms(4) [OF that(1)] that(2,3) by (cases "a \<le> b") auto
  qed (use x in \<open>auto simp: word_rules_def\<close>)
next
  assume x: "x = CHR ''-'' \<and> a \<in> {30..32}"
  show ?thesis unfolding conjunct1 [OF x]
  proof (rule word_match [OF begins_words(2) _ assms(2) _ assms(3) [unfolded conjunct1 [OF x]] _ assms(5)])
    show "a \<in> set [30, 31, 32]" using x by auto
    show "a \<le> b" if "(b, q) \<in> set (flex_rules INITIAL bol)" "b \<in> set [30, 31, 32]" "recog q (CHR ''-'' # w)" for b q
      using assms(4) [OF that(1)] that(2,3) x by (cases "a \<le> b") auto
  qed (auto simp: word_rules_def)
qed

lemma show_int_parts:
  obtains s ds where "show_int i = s @ ds" "s = [] \<or> s = ''-''" "numeral_text ds"
proof (cases "i < 0")
  case True
  show ?thesis by (rule that [of "''-''"]) (use True in \<open>auto simp: show_int_def numeral_show_nat\<close>)
next
  case False
  show ?thesis by (rule that [of "[]"]) (use False in \<open>auto simp: show_int_def numeral_show_nat\<close>)
qed

lemma signed_first: "s = [] \<or> s = ''-'' \<Longrightarrow> numeral_text ds \<Longrightarrow> \<exists>x w. s @ ds @ e = x # w \<and> (isdigit x \<or> x = CHR ''-'')"
  by (cases ds) (auto simp: numeral_text_def char_sets)

lemma no_marks: "s = [] \<or> s = ''-'' \<Longrightarrow> numeral_text ds \<Longrightarrow> c \<in> set (s @ ds) \<Longrightarrow> c \<noteq> CHR ''.'' \<and> c \<noteq> CHR ''e'' \<and> c \<noteq> CHR ''E''"
proof -
  assume a: "s = [] \<or> s = ''-''" "numeral_text ds" "c \<in> set (s @ ds)"
  then have "c = CHR ''-'' \<or> isdigit c" by (auto simp: numeral_text_def char_sets)
  then show ?thesis by (auto simp: isdigit_def)
qed

lemma integer_match:
  assumes "followed rest"
  shows "yy_match (1 + 2 * INITIAL + (if bol then 1 else 0)) (show_int i @ rest) 0 None = (31, length (show_int i))"
proof -
  obtain s ds where p: "show_int i = s @ ds" "s = [] \<or> s = ''-''" "numeral_text ds" by (rule show_int_parts)
  obtain x w where x: "show_int i = x # w" "isdigit x \<or> x = CHR ''-''" using signed_first [OF p(2,3), of "[]"] p(1) by auto
  show ?thesis unfolding x(1)
  proof (rule number_match [OF _ word_rule_in(5) _ _ assms])
    show "recog r_integer (x # w)" using recog_integer [of s ds] p x(1) by auto
    show "\<not> recog q (x # w)" if "(b, q) \<in> set (flex_rules INITIAL bol)" "30 \<le> b" "b < 31" for b q
    proof
      assume "recog q (x # w)"
      then have "recog r_float (s @ ds)" using word_rule_only(3) [OF that(1)] that(2,3) p(1) x(1) by auto
      then show False using float_mark no_marks [OF p(2,3)] by blast
    qed
  qed (use x in auto)
qed

lemma integer64_match:
  assumes "followed rest"
  shows "yy_match (1 + 2 * INITIAL + (if bol then 1 else 0)) ((show_int i @ ''L'') @ rest) 0 None = (32, length (show_int i @ ''L''))"
proof -
  obtain s ds where p: "show_int i = s @ ds" "s = [] \<or> s = ''-''" "numeral_text ds" by (rule show_int_parts)
  obtain x w where x: "show_int i @ ''L'' = x # w" "isdigit x \<or> x = CHR ''-''" using signed_first [OF p(2,3), of "''L''"] p(1) by auto
  have L: "CHR ''L'' \<in> set (x # w)" unfolding x(1) [symmetric] by simp
  show ?thesis unfolding x(1)
  proof (rule number_match [OF _ word_rule_in(6) _ _ assms])
    show "recog r_integer64 (x # w)" using recog_integer64 [of s ds] p unfolding x(1) [symmetric] by auto
    show "\<not> recog q (x # w)" if "(b, q) \<in> set (flex_rules INITIAL bol)" "30 \<le> b" "b < 32" for b q
      using word_rule_only(4) [OF that(1)] that(2,3) recog_mentions [of q "x # w", OF _ L] by fastforce
  qed (use x in auto)
qed

lemma show_hex_digits: "show_hex n \<noteq> [] \<and> (\<forall>c \<in> set (show_hex n). isxdigit c)"
proof (induction n rule: show_hex.induct)
  case (1 n)
  have d: "isxdigit (Xdigit k)" if "k < 16" for k
    using that by (auto simp: Xdigit_def isxdigit_def isdigit_def digit_def)
  show ?case using 1 d by (cases "n < 16") (auto simp: show_hex.simps [of n])
qed

lemma hex_match:
  assumes "followed rest"
  shows "yy_match (1 + 2 * INITIAL + (if bol then 1 else 0)) ((''0x'' @ show_hex n) @ rest) 0 None = (33, length (''0x'' @ show_hex n))"
    "yy_match (1 + 2 * INITIAL + (if bol then 1 else 0)) ((''0x'' @ show_hex n @ ''L'') @ rest) 0 None = (34, length (''0x'' @ show_hex n @ ''L''))"
proof -
  have no: "\<not> recog q (CHR ''0'' # CHR ''x'' # v)" if "(b, q) \<in> set (flex_rules INITIAL bol)" "30 \<le> b" "b < 33" for b q v
    using word_rule_only(5) [OF that(1)] that(2,3) recog_mentions [of q "CHR ''0'' # CHR ''x'' # v" "CHR ''x''"] by fastforce
  have no2: "\<not> recog q (v @ ''L'')" if "(33, q) \<in> set (flex_rules INITIAL bol)" for q v
    using word_rule_only(6) [OF that] recog_mentions [of q "v @ ''L''" "CHR ''L''"] by auto
  have "yy_match (1 + 2 * INITIAL + (if bol then 1 else 0)) ((CHR ''0'' # CHR ''x'' # show_hex n) @ rest) 0 None
      = (33, length (CHR ''0'' # CHR ''x'' # show_hex n))"
  proof (rule number_match [OF _ word_rule_in(7) _ _ assms])
    show "recog r_hex (CHR ''0'' # CHR ''x'' # show_hex n)" using recog_hex [of "show_hex n"] show_hex_digits [of n] by simp
  qed (use no in \<open>auto simp: isdigit_def\<close>)
  then show "yy_match (1 + 2 * INITIAL + (if bol then 1 else 0)) ((''0x'' @ show_hex n) @ rest) 0 None = (33, length (''0x'' @ show_hex n))"
    by simp
  have "yy_match (1 + 2 * INITIAL + (if bol then 1 else 0)) ((CHR ''0'' # CHR ''x'' # show_hex n @ ''L'') @ rest) 0 None
      = (34, length (CHR ''0'' # CHR ''x'' # show_hex n @ ''L''))"
  proof (rule number_match [OF _ word_rule_in(8) _ _ assms])
    show "recog r_hex64 (CHR ''0'' # CHR ''x'' # show_hex n @ ''L'')"
      using recog_hex64 [of "show_hex n"] show_hex_digits [of n] by simp
    show "\<not> recog q (CHR ''0'' # CHR ''x'' # show_hex n @ ''L'')"
      if "(b, q) \<in> set (flex_rules INITIAL bol)" "30 \<le> b" "b < 34" for b q
    proof (cases "b = 33")
      case True
      then show ?thesis using no2 [of q "CHR ''0'' # CHR ''x'' # show_hex n"] that(1) by simp
    next
      case False
      then show ?thesis using no [OF that(1,2)] that(3) by simp
    qed
  qed (auto simp: isdigit_def)
  then show "yy_match (1 + 2 * INITIAL + (if bol then 1 else 0)) ((''0x'' @ show_hex n @ ''L'') @ rest) 0 None = (34, length (''0x'' @ show_hex n @ ''L''))"
    by simp
qed

lemma float_match:
  assumes "recog r_float w" "w \<noteq> []" "isdigit (hd w) \<or> hd w = CHR ''-''" "followed rest"
  shows "yy_match (1 + 2 * INITIAL + (if bol then 1 else 0)) (w @ rest) 0 None = (30, length w)"
proof -
  obtain x v where w: "w = x # v" using assms(2) by (cases w) auto
  show ?thesis unfolding w
    by (rule number_match [OF _ word_rule_in(4) _ _ assms(4)]) (use assms w in auto)
qed

section \<open>Steps of the scanner\<close>

definition scanner_at :: "yy_buffer scan_context \<Rightarrow> string \<Rightarrow> int \<Rightarrow> string \<Rightarrow> bool \<Rightarrow> nat \<Rightarrow> scanner" where
  "scanner_at ctx out condition w b l =
     \<lparr>yy_start = 1 + 2 * condition, yy_buffer = \<lparr>yb_rest = w, yb_at_bol = b, yb_lineno = l\<rparr>, yyextra = ctx, yyout = out\<rparr>"

lemma loop_step: "yy_scan fo sc = (sc1, None) \<Longrightarrow> yylex_loop fo sc = yylex_loop fo sc1"
  by (subst yylex_loop.simps) simp

lemma loop_token: "yy_scan fo sc = (sc1, Some x) \<Longrightarrow> yylex_loop fo sc = Some (sc1, x)"
  by (subst yylex_loop.simps) simp

lemma scan_rule:
  assumes "yy_match (1 + 2 * c + (if b then 1 else 0)) (u @ rest) 0 None = (a, length u)" "u \<noteq> []" "a \<noteq> 40"
  shows "\<exists>b' l'. yy_scan fo (scanner_at ctx out c (u @ rest) b l) = yy_action fo a u (scanner_at ctx out c rest b' l')"
  using assms by (auto simp: yy_scan_def scanner_at_def yy_before_action_def Let_def)

text \<open>
  The text \<open>u\<close> is read as a token: whatever follows (\<open>free\<close>), or if a delimiter
  or nothing follows.
\<close>

definition reads_as :: "bool \<Rightarrow> string \<Rightarrow> lexed \<Rightarrow> bool" where
  "reads_as free u x \<longleftrightarrow>
     (\<forall>fo ctx out rest b l. sc_string ctx = strbuf_zero \<longrightarrow> free \<or> followed rest \<longrightarrow>
        (\<exists>b' l'. yylex_loop fo (scanner_at ctx out INITIAL (u @ rest) b l) = Some (scanner_at ctx out INITIAL rest b' l', x)))"

lemma reads_rule:
  assumes "\<And>bol rest. free \<or> followed rest \<Longrightarrow> yy_match (1 + 2 * INITIAL + (if bol then 1 else 0)) (u @ rest) 0 None = (a, length u)"
    "u \<noteq> []" "yy_token a u = Some x" "23 \<le> a" "a \<noteq> 40" "a \<noteq> 42"
  shows "reads_as free u x"
  unfolding reads_as_def
proof (intro allI impI)
  fix fo ctx out rest b l
  assume "free \<or> followed rest"
  from scan_rule [OF assms(1) [OF this] assms(2,5), where fo = fo and ctx = ctx and out = out and l = l and b = b]
  obtain b' l' where s: "yy_scan fo (scanner_at ctx out INITIAL (u @ rest) b l) = yy_action fo a u (scanner_at ctx out INITIAL rest b' l')"
    by blast
  have "yy_action fo a u sc = (sc, Some x)" for sc
    using assms(3,4,6) by (simp add: yy_action_def yy_silent_action_def)
  then show "\<exists>b' l'. yylex_loop fo (scanner_at ctx out INITIAL (u @ rest) b l) = Some (scanner_at ctx out INITIAL rest b' l', x)"
    using loop_token s by metis
qed

section \<open>White space\<close>

definition white :: "char \<Rightarrow> bool" where
  "white c \<longleftrightarrow> c \<in> set blanks \<or> c = CHR 0x0A"

definition white_ends :: "string \<Rightarrow> bool" where
  "white_ends w \<longleftrightarrow> w = [] \<or> hd w \<notin> set blanks \<and> hd w \<noteq> CHR ''@''"

lemma include_open_at:
  assumes "recog r_include_open (bs @ d # v)" "set bs \<subseteq> set blanks" "d \<notin> set blanks"
  shows "d = CHR ''@''"
proof -
  obtain y z where yz: "bs @ d # v = y @ CHR ''@'' # z" "recog (Star (one_of blanks)) y"
    using assms(1) by (auto simp: r_include_open_def recog_Seq_iff)
  have "\<not> mentions c (Star (one_of blanks))" if "c \<notin> set blanks" for c using that by (simp add: one_of_def)
  then have y: "set y \<subseteq> set blanks" using recog_mentions [OF yz(2)] by blast
  have at: "CHR ''@'' \<notin> set blanks" by (simp add: blanks_def)
  have "takeWhile (\<lambda>c. c \<in> set blanks) (bs @ d # v) = bs" using assms(2,3) by (auto simp: takeWhile_append2 subset_iff)
  moreover have "takeWhile (\<lambda>c. c \<in> set blanks) (y @ CHR ''@'' # z) = y" using y at by (auto simp: takeWhile_append2 subset_iff)
  ultimately have "bs = y" using yz(1) by simp
  then show ?thesis using yz(1) by simp
qed

lemma blank_match:
  assumes "bs \<noteq> []" "set bs \<subseteq> set blanks" "white_ends rest"
  shows "yy_match (1 + 2 * INITIAL + (if bol then 1 else 0)) (bs @ rest) 0 None = (22, length bs)"
proof -
  obtain x w where x: "bs = x # w" using assms(1) by (cases bs) auto
  have "list_all (\<lambda>x. begins x [16, 22]) blanks" by code_simp
  then have b: "begins x [16, 22]" using assms(2) x by (auto simp: list_all_iff)
  have in22: "(22, plus1 (one_of blanks)) \<in> set (flex_rules INITIAL bol)" by (simp add: flex_rules_def rules_initial_def)
  have only: "(q = plus1 (one_of blanks) \<or> q = r_include_open)" if "(b, q) \<in> set (flex_rules INITIAL bol)" "b = 16 \<or> b = 22" for b q
  proof -
    have "list_all (\<lambda>(b, q). b = 16 \<or> b = 22 \<longrightarrow> q = plus1 (one_of blanks) \<or> q = r_include_open) (flex_rules INITIAL True)"
      by code_simp
    moreover have "(b, q) \<in> set (flex_rules INITIAL True)"
      using that(1) by (cases bol) (auto simp: flex_rules_def rules_initial_def)
    ultimately show ?thesis using that(2) by (auto simp: list_all_iff)
  qed
  have inc: "\<not> recog r_include_open bs"
  proof
    assume "recog r_include_open bs"
    moreover have "needs (\<lambda>c. c = CHR ''@'') r_include_open" by code_simp
    ultimately have "CHR ''@'' \<in> set bs" using recog_needs by blast
    then show False using assms(2) by (auto simp: blanks_def)
  qed
  have sixteen: "q = r_include_open" if "(16, q) \<in> set (flex_rules INITIAL bol)" for q
    using that by (auto simp: flex_rules_def rules_initial_def split: if_splits)
  show ?thesis
  proof (rule match_by_rules)
    have "22 \<le> b" if q: "(b, q) \<in> set (flex_rules INITIAL bol)" "recog q bs" for b q
    proof -
      have "b \<noteq> 16" using q sixteen inc by blast
      then show ?thesis using begins_recog [OF b q(1), of w] q(2) x by auto
    qed
    then show "first_rule (flex_rules INITIAL bol) bs = Some 22"
      using recog_plus1 [OF assms(1), of blanks] assms(2) by (intro first_rule_least [OF rules_sorted in22]) auto
    fix v z
    assume v: "v \<noteq> []" "rest = v @ z"
    then obtain d v' where d: "v = d # v'" "d \<notin> set blanks" "d \<noteq> CHR ''@''"
      using assms(3) by (cases v) (auto simp: white_ends_def)
    have "\<not> recog q (bs @ v)" if q: "(b, q) \<in> set (flex_rules INITIAL bol)" for b q
    proof
      assume r: "recog q (bs @ v)"
      then have "b = 16 \<or> b = 22" using begins_recog [OF b q, of "w @ v"] v x by auto
      from only [OF q this] show False
      proof
        assume "q = plus1 (one_of blanks)"
        then have "mentions d (plus1 (one_of blanks))" using recog_mentions [OF r, of d] d(1) by simp
        then show False using d(2) by (simp add: plus1_def one_of_def)
      next
        assume "q = r_include_open"
        then show False using include_open_at [of bs d v'] r d assms(2) by simp
      qed
    qed
    then show "first_rule (flex_rules INITIAL bol) (bs @ v) = None" by (auto simp: first_rule_None)
  qed (use assms(1) in simp_all)
qed

lemma skip_white:
  assumes "\<forall>c \<in> set ws. white c" "white_ends w"
  shows "\<exists>b' l'. yylex_loop fo (scanner_at ctx out INITIAL (ws @ w) b l) = yylex_loop fo (scanner_at ctx out INITIAL w b' l')"
  using assms(1)
proof (induction "length ws" arbitrary: ws b l rule: less_induct)
  case less
  show ?case
  proof (cases ws)
    case (Cons c ws')
    define bs where "bs = (if c = CHR 0x0A then [c] else takeWhile (\<lambda>c. c \<in> set blanks) ws)"
    define a :: int where "a = (if c = CHR 0x0A then 21 else 22)"
    define vs where "vs = (if c = CHR 0x0A then ws' else dropWhile (\<lambda>c. c \<in> set blanks) ws)"
    have c: "c = CHR 0x0A \<or> c \<in> set blanks" using less(2) Cons by (auto simp: white_def)
    have bv: "ws = bs @ vs" "bs \<noteq> []" using Cons c by (auto simp: bs_def vs_def)
    have m: "yy_match (1 + 2 * INITIAL + (if b then 1 else 0)) (bs @ (vs @ w)) 0 None = (a, length bs)"
    proof (cases "c = CHR 0x0A")
      case True
      then show ?thesis using punctuation_match [of c 21 b "vs @ w"] by (simp add: punctuation_def bs_def a_def)
    next
      case False
      have "white_ends (vs @ w)"
      proof (cases vs)
        case Nil
        then show ?thesis using assms(2) by simp
      next
        case (Cons d ds)
        then have "d \<notin> set blanks" using False hd_dropWhile [of "\<lambda>c. c \<in> set blanks" ws] by (auto simp: vs_def)
        moreover have "white d" using less(2) bv(1) Cons by simp
        ultimately show ?thesis using Cons by (auto simp: white_ends_def white_def)
      qed
      moreover have "set bs \<subseteq> set blanks" using False by (auto simp: bs_def dest: set_takeWhileD)
      ultimately show ?thesis using blank_match [of bs "vs @ w" b] bv(2) False by (simp add: a_def)
    qed
    have "a \<noteq> 40" by (simp add: a_def)
    from scan_rule [OF m bv(2) this, where fo = fo and ctx = ctx and out = out and l = l]
    obtain b1 l1 where s: "yy_scan fo (scanner_at ctx out INITIAL (bs @ vs @ w) b l) = yy_action fo a bs (scanner_at ctx out INITIAL (vs @ w) b1 l1)"
      by blast
    have "yy_action fo a bs sc = (sc, None)" for sc
      by (simp add: yy_action_def yy_silent_action_def yy_token_def a_def)
    then have "yylex_loop fo (scanner_at ctx out INITIAL (ws @ w) b l) = yylex_loop fo (scanner_at ctx out INITIAL (vs @ w) b1 l1)"
      using loop_step s bv(1) by simp
    then show ?thesis using less(1) [of vs b1 l1] less(2) bv by auto
  qed auto
qed

section \<open>Strings\<close>

definition plain_char :: "char \<Rightarrow> bool" where
  "plain_char c \<longleftrightarrow> c \<noteq> CHR 0x22 \<and> c \<noteq> CHR 0x5C \<and> 32 \<le> code c"

definition quoting :: string where
  "quoting = [CHR 0x22, CHR 0x5C]"

lemma string_rules: "flex_rules STRING bol =
    [(6, plus1 (none_of quoting)), (7, escape ''n''), (8, escape ''r''), (9, escape ''t''), (10, escape ''f''),
     (11, escape [CHR 0x5C]), (12, escape [CHR 0x22]), (13, r_hexchar), (14, one_of [CHR 0x5C]), (15, one_of [CHR 0x22]),
     (42, none_of [])]"
  by (simp add: flex_rules_def rules_string_def INITIAL_def COMMENT_def STRING_def quoting_def)

text \<open>An exact text: after it no rule goes on.\<close>

lemma recog_derivs: "recog r (u @ w) \<longleftrightarrow> recog (foldl (\<lambda>r c. deriv c r) r u) w"
  by (induction u arbitrary: r) (simp_all del: recog_deriv add: recog_deriv [symmetric])

definition exact :: "(int \<times> char rexp) list \<Rightarrow> string \<Rightarrow> int \<Rightarrow> bool" where
  "exact rules u a \<longleftrightarrow> u \<noteq> [] \<and> first_rule rules u = Some a \<and>
     list_all (\<lambda>(b, q). foldl (\<lambda>r c. deriv c r) q u = Zero \<or> foldl (\<lambda>r c. deriv c r) q u = One) rules"

lemma exact_match:
  assumes "exact (flex_rules c bol) u a" "c \<in> {INITIAL, COMMENT, STRING, INCLUDE}"
  shows "yy_match (1 + 2 * c + (if bol then 1 else 0)) (u @ rest) 0 None = (a, length u)"
proof (rule match_by_rules [OF assms(2)])
  fix v z
  assume v: "v \<noteq> []" "rest = v @ z"
  have "\<not> recog q (u @ v)" if "(b, q) \<in> set (flex_rules c bol)" for b q
    using assms(1) that v(1) by (fastforce simp: exact_def list_all_iff recog_derivs)
  then show "first_rule (flex_rules c bol) (u @ v) = None" by (auto simp: first_rule_None)
qed (use assms(1) in \<open>auto simp: exact_def\<close>)

text \<open>What the writer makes of a character that is not plain, and the rule that reads it.\<close>

definition escape_rule :: "char \<Rightarrow> int" where
  "escape_rule c =
     (if c = CHR 0x0A then 7 else if c = CHR 0x0D then 8 else if c = CHR 0x09 then 9 else if c = CHR 0x0C then 10
      else if c = CHR 0x5C then 11 else if c = CHR 0x22 then 12 else 13)"

lemma escapes_exact:
  assumes "\<not> plain_char c" "c \<noteq> CHR 0x00"
  shows "exact (flex_rules STRING bol) (write_char c) (escape_rule c)"
    "escape_rule c = 13 \<Longrightarrow> hex_char (write_char c) = [c]"
proof -
  define special where "special = [CHR 0x22, CHR 0x5C] @ map char_of [1::int..31]"
  have "list_all (\<lambda>c. exact (flex_rules STRING True) (write_char c) (escape_rule c) \<and>
      (escape_rule c = 13 \<longrightarrow> hex_char (write_char c) = [c])) special"
    unfolding special_def by code_simp
  moreover have "c \<in> set special"
  proof (cases "c = CHR 0x22 \<or> c = CHR 0x5C")
    case False
    then have "code c < 32" using assms(1) by (simp add: plain_char_def)
    moreover have "code c \<noteq> 0"
    proof
      assume "code c = 0"
      moreover have "(char_of (0::nat) :: char) = CHR 0x00" by code_simp
      moreover have "char_of (code c) = c" by simp
      ultimately show False using assms(2) by simp
    qed
    moreover have "c = char_of (int (code c))" by simp
    ultimately have "c \<in> char_of ` {1..31::int}" by (intro image_eqI [of _ _ "int (code c)"]) auto
    then show ?thesis by (simp add: special_def)
  qed (auto simp: special_def)
  moreover have "flex_rules STRING bol = flex_rules STRING True" by (simp add: string_rules)
  ultimately show "exact (flex_rules STRING bol) (write_char c) (escape_rule c)"
    "escape_rule c = 13 \<Longrightarrow> hex_char (write_char c) = [c]"
    by (simp_all add: list_all_iff)
qed

lemma plain_match:
  assumes "p \<noteq> []" "\<forall>c \<in> set p. plain_char c" "rest \<noteq> []" "hd rest \<in> set quoting"
  shows "yy_match (1 + 2 * STRING + (if bol then 1 else 0)) (p @ rest) 0 None = (6, length p)"
proof (rule match_by_rules)
  obtain x w where x: "p = x # w" "plain_char x" using assms(1,2) by (cases p) auto
  have six: "b = 6 \<and> q = plus1 (none_of quoting) \<or> b = 42 \<and> q = none_of []"
    if "(b, q) \<in> set (flex_rules STRING bol)" "recog q (x # v)" for b q v
    using that(1) recog_starts [OF that(2)] x(2)
    by (auto simp: string_rules escape_def one_of_def r_hexchar_def plain_char_def)
  have "recog (plus1 (none_of quoting)) ([x] @ w)"
    unfolding plus1_def none_of_def using assms(2) x
    by (intro recog_Seq recog_Star_Cls) (auto simp: plain_char_def quoting_def)
  then have r: "recog (plus1 (none_of quoting)) p" using x(1) by simp
  have "6 \<le> b" if "(b, q) \<in> set (flex_rules STRING bol)" "recog q p" for b q
    using six [OF that(1), of w] that(2) x(1) by auto
  then show "first_rule (flex_rules STRING bol) p = Some 6"
    using r by (intro first_rule_least [OF rules_sorted, of _ "plus1 (none_of quoting)"]) (auto simp: string_rules)
  fix v z
  assume v: "v \<noteq> []" "rest = v @ z"
  then obtain d v' where d: "v = d # v'" "d \<in> set quoting" using assms(4) by (cases v) auto
  have "\<not> recog q (p @ v)" if "(b, q) \<in> set (flex_rules STRING bol)" for b q
  proof
    assume r: "recog q (p @ v)"
    from six [OF that, of "w @ v"] r x(1) consider "q = plus1 (none_of quoting)" | "q = none_of []" by auto
    then show False
    proof cases
      case 1
      then have "mentions d (plus1 (none_of quoting))" using recog_mentions [OF r, of d] d(1) by simp
      then show False using d(2) by (simp add: plus1_def none_of_def)
    next
      case 2
      then show False using r x(1) v(1) by (simp add: none_of_def)
    qed
  qed
  then show "first_rule (flex_rules STRING bol) (p @ v) = None" by (auto simp: first_rule_None)
qed (use assms(1) in simp_all)

lemma not_control: "32 \<le> code c \<Longrightarrow> c \<noteq> CHR 0x09 \<and> c \<noteq> CHR 0x0A \<and> c \<noteq> CHR 0x0C \<and> c \<noteq> CHR 0x0D"
  by auto

lemma plain_write: "plain_char c \<Longrightarrow> write_char c = [c]"
  using not_control [of c] by (simp add: write_char_def plain_char_def)

lemma escape_write: "\<not> plain_char c \<Longrightarrow> write_char c \<noteq> [] \<and> hd (write_char c) = CHR 0x5C"
  by (simp add: write_char_def plain_char_def) blast

lemma string_scan:
  assumes "strbuf_ok (sc_string ctx)" "CHR 0x00 \<notin> set s"
  shows "\<exists>b' l'. yylex_loop fo (scanner_at ctx out STRING (concat (map write_char s) @ [CHR 0x22] @ rest) b l) =
    Some (scanner_at (ctx\<lparr>sc_string := strbuf_zero\<rparr>) out INITIAL rest b' l',
          lexed_value TOK_STRING (YSval (contents (sc_string ctx) @ s)))"
  using assms
proof (induction "length s" arbitrary: s ctx b l rule: less_induct)
  case less
  show ?case
  proof (cases s)
    case Nil
    have "exact (flex_rules STRING True) [CHR 0x22] 15" by code_simp
    then have "exact (flex_rules STRING b) [CHR 0x22] 15" by (simp add: string_rules)
    from scan_rule [OF exact_match [OF this], where fo = fo and ctx = ctx and out = out and l = l and rest = rest]
    obtain b' l' where s: "yy_scan fo (scanner_at ctx out STRING ([CHR 0x22] @ rest) b l) =
        yy_action fo 15 [CHR 0x22] (scanner_at ctx out STRING rest b' l')"
      by auto
    have "yy_action fo 15 [CHR 0x22] (scanner_at ctx out STRING rest b' l') =
        (scanner_at (ctx\<lparr>sc_string := strbuf_zero\<rparr>) out INITIAL rest b' l', Some (lexed_value TOK_STRING (YSval (contents (sc_string ctx)))))"
      by (simp add: yy_action_def take_string_action_def scanctx_take_string_def strbuf_release_def scanner_at_def BEGIN_def
          contents_def)
    then show ?thesis using loop_token s Nil by (metis append_Nil2 concat.simps(1) list.simps(8) append_Nil)
  next
    case (Cons c s')
    define p where "p = (if plain_char c then takeWhile plain_char s else [c])"
    define s1 where "s1 = drop (length p) s"
    define u where "u = concat (map write_char p)"
    define a where "a = (if plain_char c then 6 else escape_rule c)"
    have ps: "s = p @ s1" "p \<noteq> []"
    proof -
      show "p \<noteq> []" using Cons by (simp add: p_def)
      have "dropWhile plain_char s = drop (length (takeWhile plain_char s)) s" by (rule dropWhile_eq_drop)
      then have "takeWhile plain_char s @ drop (length (takeWhile plain_char s)) s = s" by (metis takeWhile_dropWhile_id)
      then show "s = p @ s1" using Cons by (auto simp: p_def s1_def)
    qed
    have c0: "c \<noteq> CHR 0x00" using less(3) Cons by auto
    have uu: "u = p" if "plain_char c"
    proof -
      have "map write_char p = map (\<lambda>d. [d]) p"
        by (rule map_cong [OF refl]) (use that in \<open>auto simp: p_def plain_write dest: set_takeWhileD\<close>)
      then have "u = concat (map (\<lambda>d. [d]) p)" by (simp only: u_def)
      then show ?thesis by simp
    qed
    have ue: "u = write_char c" if "\<not> plain_char c" using that by (simp add: u_def p_def)
    define w where "w = concat (map write_char s1) @ [CHR 0x22] @ rest"
    have m: "yy_match (1 + 2 * STRING + (if b then 1 else 0)) (u @ w) 0 None = (a, length u)"
    proof (cases "plain_char c")
      case True
      have "hd w \<in> set quoting"
      proof (cases s1)
        case Nil
        then show ?thesis by (simp add: w_def quoting_def)
      next
        case (Cons d ds)
        have "s1 = dropWhile plain_char s" using True by (simp add: s1_def p_def dropWhile_eq_drop)
        then have "\<not> plain_char d" using Cons by (metis hd_dropWhile list.distinct(1) list.sel(1))
        then have "write_char d \<noteq> []" "hd (write_char d) = CHR 0x5C" using escape_write by blast+
        then show ?thesis using Cons by (simp add: w_def quoting_def)
      qed
      moreover have "w \<noteq> []" by (simp add: w_def)
      moreover have "\<forall>d \<in> set p. plain_char d" using True by (auto simp: p_def dest: set_takeWhileD)
      ultimately show ?thesis using plain_match [OF ps(2), of w b] uu [OF True] True by (simp add: a_def)
    next
      case False
      then show ?thesis using exact_match [OF escapes_exact(1) [OF False c0]] ue by (simp add: a_def)
    qed
    have une: "u \<noteq> []" using uu ue ps(2) by (cases "plain_char c") (auto simp: write_char_def)
    have "a \<noteq> 40" by (simp add: a_def escape_rule_def)
    from scan_rule [OF m une this, where fo = fo and ctx = ctx and out = out and l = l]
    obtain b1 l1 where s: "yy_scan fo (scanner_at ctx out STRING (u @ w) b l) = yy_action fo a u (scanner_at ctx out STRING w b1 l1)"
      by blast
    define ctx1 where "ctx1 = scanctx_append_string ctx p"
    have act: "yy_action fo a u (scanner_at ctx out STRING w b1 l1) = (scanner_at ctx1 out STRING w b1 l1, None)"
    proof (cases "plain_char c")
      case True
      have "CHR 0x00 \<notin> set p" using less(3) ps(1) by auto
      then have "c_text u = p" using uu [OF True] unfolding c_text_def by (simp add: takeWhile_eq_all_conv) metis
      then show ?thesis using True
        by (simp add: a_def yy_action_def yy_silent_action_def yy_token_def append_text_def scanner_at_def ctx1_def)
    next
      case False
      have h: "escape_rule c = 13 \<Longrightarrow> hex_char u = [c]" using escapes_exact(2) [OF False c0] ue [OF False] by simp
      have pc: "p = [c]" using False by (simp add: p_def)
      show ?thesis using False h unfolding pc ctx1_def
        by (auto simp: a_def yy_action_def yy_silent_action_def yy_token_def append_text_def scanner_at_def escape_rule_def
            split: if_splits)
    qed
    have ok: "strbuf_ok (sc_string ctx1)" "contents (sc_string ctx1) = contents (sc_string ctx) @ p"
      "ctx1\<lparr>sc_string := strbuf_zero\<rparr> = ctx\<lparr>sc_string := strbuf_zero\<rparr>"
      using less(2) by (simp_all add: ctx1_def scanctx_append_string_def strbuf_append_ok)
    have "length s1 < length s" using ps by simp
    from less(1) [OF this ok(1), of b1 l1] less(3) ps(1) ok(2,3)
    obtain b' l' where "yylex_loop fo (scanner_at ctx1 out STRING w b1 l1) =
        Some (scanner_at (ctx\<lparr>sc_string := strbuf_zero\<rparr>) out INITIAL rest b' l', lexed_value TOK_STRING (YSval (contents (sc_string ctx) @ s)))"
      by (auto simp: w_def)
    moreover have "concat (map write_char s) @ [CHR 0x22] @ rest = u @ w" using ps(1) by (simp add: u_def w_def)
    ultimately show ?thesis using loop_step s act by metis
  qed
qed

end
