(* ===== verification/TokenTexts.thy ===== *)
theory TokenTexts
  imports Lexing
begin

text \<open>
  What \<open>config_write\<close> writes is read back by \<open>config_read\<close>: every token of the
  text, the tokens of whole values and settings, and the tree that is built.
\<close>

section \<open>Tokens\<close>

lemma name_reads: "config_validate_name nm \<Longrightarrow> \<not> reserved nm \<Longrightarrow> reads_as False nm (lexed_value TOK_NAME (YSval nm))"
  by (rule reads_rule [where a = 29]) (auto simp: name_match yy_token_def config_validate_name_def)

lemma bool_reads: "reads_as False (if b then ''true'' else ''false'') (lexed_value TOK_BOOLEAN (YIval (if b then 1 else 0)))"
proof (cases b)
  case True
  have "reads_as False ''true'' (lexed_value TOK_BOOLEAN (YIval 1))"
    by (rule reads_rule [where a = 27]) (use bool_match in \<open>auto simp: yy_token_def\<close>)
  then show ?thesis using True by simp
next
  case False
  have "reads_as False ''false'' (lexed_value TOK_BOOLEAN (YIval 0))"
    by (rule reads_rule [where a = 28]) (use bool_match in \<open>auto simp: yy_token_def\<close>)
  then show ?thesis using False by simp
qed

lemma show_int_nonempty: "show_int i \<noteq> []"
  by (simp add: show_int_def)

lemma int_reads: "reads_as False (show_int (sint (i :: word32))) (lexed_value TOK_INTEGER (YIval i))"
  by (rule reads_rule [where a = 31]) (auto simp: integer_match yy_token_def atoi_show_int show_int_nonempty)

lemma atoll_show_int: "atoll (show_int (sint (i :: word64)) @ ''L'') = i"
proof -
  have "strtol10 (show_int (sint i) @ ''L'') = sint i"
    using sint_greater_eq [of i] sint_less [of i] by (intro strtol10_show_int) (auto simp: isdigit_def)
  then show ?thesis by (simp add: atoll_def)
qed

lemma int64_reads: "reads_as False (show_int (sint (i :: word64)) @ ''L'') (lexed_value TOK_INTEGER64 (YLlval i))"
  by (rule reads_rule [where a = 32]) (use integer64_match in \<open>auto simp: yy_token_def atoll_show_int\<close>)

lemma hex_val_append: "hex_val a (xs @ ys) = hex_val (hex_val a xs) ys"
  by (simp add: hex_val_def)

lemma xdigit_val_Xdigit: "k < 16 \<Longrightarrow> xdigit_val (Xdigit k) = k"
  by (auto simp: xdigit_val_def Xdigit_def digit_def isdigit_def)

lemma hex_val_show_hex: "hex_val 0 (show_hex n) = n"
proof (induction n rule: show_hex.induct)
  case (1 n)
  then show ?case
    by (cases "n < 16") (auto simp: show_hex.simps [of n] hex_val_append xdigit_val_Xdigit, auto simp: hex_val_def xdigit_val_Xdigit)
qed

lemma strtoul16_show_hex: "strtoul16 (''0x'' @ show_hex n @ e) = min (2 ^ 64 - 1) n" if "e = [] \<or> \<not> isxdigit (hd e)"
proof -
  have "takeWhile isxdigit (show_hex n @ e) = show_hex n"
    using show_hex_digits [of n] that by (cases e) (auto simp: takeWhile_append2)
  then show ?thesis by (simp add: strtoul16_def hex_val_show_hex)
qed

lemma hex_reads:
  "reads_as False (''0x'' @ show_hex (unat (i :: word32))) (lexed_value TOK_HEX (YIval i))"
  "reads_as False (''0x'' @ show_hex (unat (j :: word64)) @ ''L'') (lexed_value TOK_HEX64 (YLlval j))"
proof -
  have "unat i < 2 ^ 32" "unat j < 2 ^ 64" using unsigned_less [of i] unsigned_less [of j] by simp_all
  then have i: "unat i \<le> 2 ^ 64 - 1" and j: "unat j \<le> 2 ^ 64 - 1" by simp_all
  have "strtoul16 (''0x'' @ show_hex (unat i) @ []) = unat i" using i by (subst strtoul16_show_hex) auto
  moreover have "strtoul16 (''0x'' @ show_hex (unat j) @ ''L'') = unat j"
    using j by (subst strtoul16_show_hex) (auto simp: isxdigit_def isdigit_def)
  ultimately have v: "of_nat (strtoul16 (''0x'' @ show_hex (unat i))) = i" "fromhex (''0x'' @ show_hex (unat j) @ ''L'') = j"
    by (simp_all add: fromhex_def)
  show "reads_as False (''0x'' @ show_hex (unat i)) (lexed_value TOK_HEX (YIval i))"
    by (rule reads_rule [where a = 33]) (use hex_match v in \<open>auto simp: yy_token_def\<close>)
  show "reads_as False (''0x'' @ show_hex (unat j) @ ''L'') (lexed_value TOK_HEX64 (YLlval j))"
    by (rule reads_rule [where a = 34]) (use hex_match v in \<open>auto simp: yy_token_def\<close>)
qed

lemma punctuation_reads:
  "reads_as True ''='' (lexed_token TOK_EQUALS)" "reads_as True '':'' (lexed_token TOK_EQUALS)" "reads_as True '','' (lexed_token TOK_COMMA)"
  "reads_as True ''{'' (lexed_token TOK_GROUP_START)" "reads_as True ''}'' (lexed_token TOK_GROUP_END)"
  "reads_as True ''['' (lexed_token TOK_ARRAY_START)" "reads_as True '']'' (lexed_token TOK_ARRAY_END)"
  "reads_as True ''('' (lexed_token TOK_LIST_START)" "reads_as True '')'' (lexed_token TOK_LIST_END)"
  "reads_as True '';'' (lexed_token TOK_SEMICOLON)"
proof -
  have p: "reads_as True [c] x" if "(c, a) \<in> set punctuation" "yy_token a [c] = Some x" "23 \<le> a" "a \<noteq> 40" "a \<noteq> 42" for c a x
    by (rule reads_rule [OF punctuation_match [OF that(1)] _ that(2-5)]) simp
  show "reads_as True ''='' (lexed_token TOK_EQUALS)" "reads_as True '':'' (lexed_token TOK_EQUALS)"
    by (rule p [where a = 23], simp_all add: punctuation_def yy_token_def)+
  show "reads_as True '','' (lexed_token TOK_COMMA)" by (rule p [where a = 24]) (simp_all add: punctuation_def yy_token_def)
  show "reads_as True ''{'' (lexed_token TOK_GROUP_START)" by (rule p [where a = 25]) (simp_all add: punctuation_def yy_token_def)
  show "reads_as True ''}'' (lexed_token TOK_GROUP_END)" by (rule p [where a = 26]) (simp_all add: punctuation_def yy_token_def)
  show "reads_as True ''['' (lexed_token TOK_ARRAY_START)" by (rule p [where a = 35]) (simp_all add: punctuation_def yy_token_def)
  show "reads_as True '']'' (lexed_token TOK_ARRAY_END)" by (rule p [where a = 36]) (simp_all add: punctuation_def yy_token_def)
  show "reads_as True ''('' (lexed_token TOK_LIST_START)" by (rule p [where a = 37]) (simp_all add: punctuation_def yy_token_def)
  show "reads_as True '')'' (lexed_token TOK_LIST_END)" by (rule p [where a = 38]) (simp_all add: punctuation_def yy_token_def)
  show "reads_as True '';'' (lexed_token TOK_SEMICOLON)" by (rule p [where a = 39]) (simp_all add: punctuation_def yy_token_def)
qed

definition string_contents :: "string option \<Rightarrow> string" where
  "string_contents s = (case s of None \<Rightarrow> [] | Some t \<Rightarrow> t)"

lemma string_reads:
  assumes "CHR 0x00 \<notin> set (string_contents s)"
  shows "reads_as True (write_string s) (lexed_value TOK_STRING (YSval (string_contents s)))"
  unfolding reads_as_def
proof (intro allI impI)
  fix fo out rest b l and ctx :: "yy_buffer scan_context"
  assume z: "sc_string ctx = strbuf_zero"
  have w: "write_string s = [CHR 0x22] @ concat (map write_char (string_contents s)) @ [CHR 0x22]"
    by (cases s) (simp_all add: write_string_def string_contents_def)
  define v where "v = concat (map write_char (string_contents s)) @ [CHR 0x22] @ rest"
  have "exact (flex_rules INITIAL True) [CHR 0x22] 5" "exact (flex_rules INITIAL False) [CHR 0x22] 5" by code_simp+
  then have "exact (flex_rules INITIAL b) [CHR 0x22] 5" by (cases b) simp_all
  from scan_rule [OF exact_match [OF this], where fo = fo and ctx = ctx and out = out and l = l and rest = v]
  obtain b1 l1 where "yy_scan fo (scanner_at ctx out INITIAL ([CHR 0x22] @ v) b l) =
      yy_action fo 5 [CHR 0x22] (scanner_at ctx out INITIAL v b1 l1)"
    by auto
  moreover have "yy_action fo 5 [CHR 0x22] (scanner_at ctx out INITIAL v b1 l1) = (scanner_at ctx out STRING v b1 l1, None)"
    by (simp add: yy_action_def yy_silent_action_def yy_token_def scanner_at_def BEGIN_def)
  ultimately have step: "yylex_loop fo (scanner_at ctx out INITIAL ([CHR 0x22] @ v) b l) = yylex_loop fo (scanner_at ctx out STRING v b1 l1)"
    using loop_step by metis
  have ctx: "ctx\<lparr>sc_string := strbuf_zero\<rparr> = ctx" using z by simp
  show "\<exists>b' l'. yylex_loop fo (scanner_at ctx out INITIAL (write_string s @ rest) b l) =
      Some (scanner_at ctx out INITIAL rest b' l', lexed_value TOK_STRING (YSval (string_contents s)))"
    using string_scan [of ctx "string_contents s" fo out rest b1 l1] assms z step ctx by (simp add: w v_def)
qed

section \<open>Floating-point numbers\<close>

text \<open>
  Ten significant digits do not tell every double from every other.  The text
  of a double has at most 17 characters.
\<close>

definition float_ok :: "cdouble \<Rightarrow> bool" where
  "float_ok d \<longleftrightarrow> (case d of Finite s m e \<Rightarrow> True | _ \<Rightarrow> False) \<and> length (show_g FLOAT_PRECISION d) \<le> 60 \<and> atof (write_float d) = d"

lemma strip_zeros_point: "c \<noteq> CHR ''0'' \<Longrightarrow> strip_zeros (a @ c # b) = a @ c # strip_zeros b"
  by (auto simp: strip_zeros_def dropWhile_append)

lemma strip_zeros_subset: "set (strip_zeros s) \<subseteq> set s"
  using set_dropWhileD [of _ _ "rev s"] by (auto simp: strip_zeros_def)

definition fraction :: "string \<Rightarrow> bool" where
  "fraction f \<longleftrightarrow> f = [] \<or> (\<exists>fp. f = ''.'' @ fp \<and> (\<forall>c \<in> set fp. c \<in> set digits))"

lemma with_fraction_form:
  assumes "numeral_text ip" "\<forall>c \<in> set fp. c \<in> set digits"
  shows "\<exists>f. with_fraction ip fp = ip @ f \<and> fraction f"
  using assms strip_zeros_subset [of fp] by (auto simp: with_fraction_def fraction_def Let_def)

lemma digit_chars: "CHR ''0'' \<in> set digits" "CHR ''e'' \<notin> set digits" "CHR ''.'' \<notin> set digits" "CHR ''-'' \<notin> set digits"
  by (simp_all only: char_sets(1) [symmetric]) (simp_all add: isdigit_def)

lemma numeral_zero: "numeral_text w \<Longrightarrow> numeral_text (CHR ''0'' # w)" "numeral_text ''0''"
  by (simp_all add: numeral_text_def digit_chars)

lemma show_exponent_form: "exponent_text (show_exponent x)"
proof -
  have e: "exponent_text (''e'' @ s @ ds)" if "s = ''+'' \<or> s = ''-''" "numeral_text ds" for s ds
    using that unfolding exponent_text_def by blast
  define ds where "ds = show_nat (nat \<bar>x\<bar>)"
  have "numeral_text (if length ds < 2 then ''0'' @ ds else ds)"
    using numeral_zero(1) [OF numeral_show_nat] numeral_show_nat by (simp add: ds_def)
  then show ?thesis unfolding show_exponent_def Let_def ds_def [symmetric] by (rule e [rotated]) simp
qed

lemma numeral_parts:
  "numeral_text ds \<Longrightarrow> numeral_text (take (Suc k) ds)" "numeral_text ds \<Longrightarrow> \<forall>c \<in> set (drop k ds). c \<in> set digits"
  by (auto simp: numeral_text_def dest: in_set_takeD in_set_dropD)

lemma show_g_ratio_form:
  "\<exists>ip f ex. show_g_ratio p n d = ip @ f @ ex \<and> numeral_text ip \<and> fraction f \<and> (ex = [] \<or> exponent_text ex)"
proof -
  have z: "numeral_text ''0''" by (rule numeral_zero)
  obtain q x where q: "g_digits p n d = (q, x)" by fastforce
  define ds where "ds = show_nat q"
  have ds: "numeral_text ds" unfolding ds_def by (rule numeral_show_nat)
  have zs: "\<forall>c \<in> set (replicate k (CHR ''0'') @ ds). c \<in> set digits" for k
    using ds z by (auto simp: numeral_text_def)
  note nz = numeral_parts [OF ds]
  consider "n = 0" | "n \<noteq> 0" "x < - 4 \<or> int p \<le> x" | "n \<noteq> 0" "\<not> (x < - 4 \<or> int p \<le> x)" "0 \<le> x"
    | "n \<noteq> 0" "\<not> (x < - 4 \<or> int p \<le> x)" "\<not> 0 \<le> x" by blast
  then show ?thesis
  proof cases
    case 1
    then have "show_g_ratio p n d = ''0'' @ [] @ []" by (simp add: show_g_ratio_def)
    moreover have "fraction []" by (simp add: fraction_def)
    ultimately show ?thesis using z by metis
  next
    case 2
    then have "show_g_ratio p n d = with_fraction (take (Suc 0) ds) (drop 1 ds) @ show_exponent x"
      by (simp add: show_g_ratio_def q ds_def Let_def)
    moreover obtain f where "with_fraction (take (Suc 0) ds) (drop 1 ds) = take (Suc 0) ds @ f" "fraction f"
      using with_fraction_form [OF nz(1) nz(2)] by blast
    ultimately have "show_g_ratio p n d = take (Suc 0) ds @ f @ show_exponent x" "fraction f" by simp_all
    then show ?thesis using nz(1) show_exponent_form by blast
  next
    case 3
    then have "show_g_ratio p n d = with_fraction (take (Suc (nat x)) ds) (drop (nat x + 1) ds) @ []"
      by (simp add: show_g_ratio_def q ds_def Let_def)
    moreover obtain f where "with_fraction (take (Suc (nat x)) ds) (drop (nat x + 1) ds) = take (Suc (nat x)) ds @ f" "fraction f"
      using with_fraction_form [OF nz(1) nz(2)] by blast
    ultimately have "show_g_ratio p n d = take (Suc (nat x)) ds @ f @ []" "fraction f" by simp_all
    then show ?thesis using nz(1) by blast
  next
    case 4
    then have "show_g_ratio p n d = with_fraction ''0'' (replicate (nat (- x) - 1) (CHR ''0'') @ ds) @ []"
      by (simp add: show_g_ratio_def q ds_def Let_def)
    moreover obtain f where "with_fraction ''0'' (replicate (nat (- x) - 1) (CHR ''0'') @ ds) = ''0'' @ f" "fraction f"
      using with_fraction_form [OF z zs] by blast
    ultimately have "show_g_ratio p n d = ''0'' @ f @ []" "fraction f" by simp_all
    then show ?thesis using z by blast
  qed
qed

lemma write_float_form:
  assumes "show_g FLOAT_PRECISION v = s @ ip @ f @ ex" "length (show_g FLOAT_PRECISION v) \<le> 60" "s = [] \<or> s = ''-''"
    "numeral_text ip" "fraction f" "ex = [] \<or> exponent_text ex"
  shows "recog r_float (write_float v) \<and> (\<exists>u. write_float v = s @ ip @ u)"
proof -
  have t: "take 60 (show_g FLOAT_PRECISION v) = s @ ip @ f @ ex" using assms(1,2) by simp
  show ?thesis
  proof (cases "ex = []")
    case False
    then have x: "exponent_text ex" using assms(6) by simp
    then have "CHR ''e'' \<in> set ex" by (auto simp: exponent_text_def)
    then have w: "write_float v = s @ ip @ f @ ex" by (simp add: write_float_def t)
    show ?thesis
    proof (cases "f = []")
      case True
      then show ?thesis using recog_float(3) [OF assms(3,4) _ x, of "[]"] w by simp
    next
      case False
      then obtain fp where "f = ''.'' @ fp" "\<forall>c \<in> set fp. c \<in> set digits" using assms(5) by (auto simp: fraction_def)
      then show ?thesis using recog_float(2) [OF assms(3,4) _ x, of fp] w by simp
    qed
  next
    case True
    have e: "CHR ''e'' \<notin> set (s @ ip @ f)" "CHR ''.'' \<notin> set (s @ ip)"
      using assms(3-5) digit_chars by (auto simp: numeral_text_def fraction_def)
    show ?thesis
    proof (cases "f = []")
      case no: True
      then have "write_float v = s @ ip @ ''.'' @ ''0''" using e t True by (simp add: write_float_def)
      moreover have "\<forall>c \<in> set ''0''. c \<in> set digits" by (simp add: digit_chars)
      ultimately show ?thesis using recog_float(1) [OF assms(3,4)] by metis
    next
      case False
      then obtain fp where fp: "f = ''.'' @ fp" "\<forall>c \<in> set fp. c \<in> set digits" using assms(5) by (auto simp: fraction_def)
      have "strip_zeros ((s @ ip) @ CHR ''.'' # fp) = (s @ ip) @ CHR ''.'' # strip_zeros fp" by (rule strip_zeros_point) simp
      moreover have "ip \<noteq> []" using assms(4) by (simp add: numeral_text_def)
      ultimately have "write_float v = s @ ip @ ''.'' @ strip_zeros fp"
        using e t True fp(1) by (cases ip) (auto simp: write_float_def cut_zeros_def Let_def)
      then show ?thesis using recog_float(1) [OF assms(3,4), of "strip_zeros fp"] strip_zeros_subset [of fp] fp(2) by auto
    qed
  qed
qed

lemma float_text:
  assumes "float_ok d"
  obtains x v where "write_float d = x # v" "isdigit x \<or> x = CHR ''-''" "recog r_float (x # v)"
proof -
  obtain sg m e where f: "d = Finite sg m e" using assms by (auto simp: float_ok_def split: cdouble.splits)
  define s where "s = (if sg then ''-'' else [])"
  have s: "s = [] \<or> s = ''-''" by (simp add: s_def)
  obtain ip fr ex where "show_g FLOAT_PRECISION d = s @ ip @ fr @ ex" and ip: "numeral_text ip" and "fraction fr" "ex = [] \<or> exponent_text ex"
    using show_g_ratio_form [of FLOAT_PRECISION "m * 2 ^ nat e" 1] show_g_ratio_form [of FLOAT_PRECISION m "2 ^ nat (- e)"]
    by (cases "0 \<le> e") (auto simp: f show_g_def s_def)
  from write_float_form [OF this(1) _ s ip this(3,4)] assms obtain u where w: "recog r_float (write_float d)" "write_float d = s @ ip @ u"
    by (auto simp: float_ok_def)
  obtain x v where "s @ ip @ u = x # v" "isdigit x \<or> x = CHR ''-''" using signed_first [OF s ip, of u] by blast
  then show ?thesis using that w by simp
qed

lemma float_reads: "float_ok d \<Longrightarrow> reads_as False (write_float d) (lexed_value TOK_FLOAT (YFval d))"
proof -
  assume d: "float_ok d"
  then obtain x v where x: "write_float d = x # v" "isdigit x \<or> x = CHR ''-''" "recog r_float (x # v)" by (rule float_text)
  have m: "yy_match (1 + 2 * INITIAL + (if bol then 1 else 0)) (write_float d @ rest) 0 None = (30, length (write_float d))"
    if "followed rest" for bol rest
    by (rule float_match [OF _ _ _ that]) (use x in auto)
  have "yy_token 30 (write_float d) = Some (lexed_value TOK_FLOAT (YFval d))" using d by (simp add: yy_token_def float_ok_def)
  then show ?thesis by (rule reads_rule [rotated 2]) (use m x in auto)
qed

end
