(* ===== verification/ReadBack.thy ===== *)
theory ReadBack
  imports TokenTexts
begin

text \<open>
  \<open>config_write\<close> against \<open>config_read\<close>: the tokens of written values and
  settings, and the tree that is built when the text is read.
\<close>

section \<open>Texts and their tokens\<close>

text \<open>The tokens \<open>ts\<close>, without an error, lead the scanner from \<open>sc\<close> to \<open>sc'\<close>.\<close>

fun lexes :: "(string \<Rightarrow> string option) \<Rightarrow> scanner \<Rightarrow> token list \<Rightarrow> scanner \<Rightarrow> bool" where
  "lexes fo sc [] sc' \<longleftrightarrow> sc' = sc"
| "lexes fo sc (t # ts) sc' \<longleftrightarrow>
     (\<exists>sc1 x. yylex_loop fo sc = Some (sc1, x) \<and> lx_error x = None \<and> (lex_token x, lx_value x) = t \<and> lexes fo sc1 ts sc')"

lemma lexes_append: "lexes fo sc ts sc1 \<Longrightarrow> lexes fo sc1 us sc2 \<Longrightarrow> lexes fo sc (ts @ us) sc2"
  by (induction ts arbitrary: sc) auto

text \<open>
  The text \<open>w\<close>, behind any white space, is read as the tokens \<open>ts\<close>, and white
  space at its end is left to be skipped: whatever follows (\<open>free\<close>), or if a
  delimiter or nothing follows.
\<close>

definition text_toks :: "bool \<Rightarrow> string \<Rightarrow> token list \<Rightarrow> bool" where
  "text_toks free w ts \<longleftrightarrow>
     (\<forall>fo ctx out pre rest b l. sc_string ctx = strbuf_zero \<longrightarrow> list_all white pre \<longrightarrow> free \<or> followed rest \<longrightarrow>
        (\<exists>post b' l'. list_all white post \<and>
           lexes fo (scanner_at ctx out INITIAL (pre @ w @ rest) b l) ts (scanner_at ctx out INITIAL (post @ rest) b' l')))"

lemma text_toksI:
  "(\<And>fo ctx out pre rest b l. sc_string ctx = strbuf_zero \<Longrightarrow> list_all white pre \<Longrightarrow> free \<or> followed rest \<Longrightarrow>
      \<exists>post b' l'. list_all white post \<and>
        lexes fo (scanner_at ctx out INITIAL (pre @ w @ rest) b l) ts (scanner_at ctx out INITIAL (post @ rest) b' l')) \<Longrightarrow>
   text_toks free w ts"
  unfolding text_toks_def by blast

lemma text_toksD:
  assumes "text_toks free w ts" "sc_string ctx = strbuf_zero" "list_all white pre" "free \<or> followed rest"
  shows "\<exists>post b' l'. list_all white post \<and>
    lexes fo (scanner_at ctx out INITIAL (pre @ w @ rest) b l) ts (scanner_at ctx out INITIAL (post @ rest) b' l')"
  using assms unfolding text_toks_def by blast

lemma text_white: "list_all white w \<Longrightarrow> text_toks True w []"
proof (rule text_toksI)
  fix fo out pre rest b l and ctx :: "yy_buffer scan_context"
  assume "list_all white w" "list_all white pre"
  then show "\<exists>post b' l'. list_all white post \<and>
      lexes fo (scanner_at ctx out INITIAL (pre @ w @ rest) b l) [] (scanner_at ctx out INITIAL (post @ rest) b' l')"
    by (intro exI [of _ "pre @ w"] exI [of _ b] exI [of _ l]) simp
qed

lemma text_token:
  assumes "reads_as free u x" "u \<noteq> []" "white_ends u" "lx_error x = None"
  shows "text_toks free u [(lex_token x, lx_value x)]"
proof (rule text_toksI)
  fix fo out pre rest b l and ctx :: "yy_buffer scan_context"
  assume z: "sc_string ctx = strbuf_zero" and p: "list_all white pre" and f: "free \<or> followed rest"
  have "white_ends (u @ rest)" using assms(2,3) by (simp add: white_ends_def)
  then obtain b1 l1 where s: "yylex_loop fo (scanner_at ctx out INITIAL (pre @ u @ rest) b l) = yylex_loop fo (scanner_at ctx out INITIAL (u @ rest) b1 l1)"
    using skip_white [of pre "u @ rest" fo ctx out b l] p by (auto simp: list_all_iff)
  obtain b2 l2 where "yylex_loop fo (scanner_at ctx out INITIAL (u @ rest) b1 l1) = Some (scanner_at ctx out INITIAL rest b2 l2, x)"
    using assms(1) z f unfolding reads_as_def by blast
  then show "\<exists>post b' l'. list_all white post \<and>
      lexes fo (scanner_at ctx out INITIAL (pre @ u @ rest) b l) [(lex_token x, lx_value x)] (scanner_at ctx out INITIAL (post @ rest) b' l')"
    using s assms(4) by (intro exI [of _ "[]"] exI [of _ b2] exI [of _ l2]) auto
qed

definition delimited :: "string \<Rightarrow> bool" where
  "delimited w \<longleftrightarrow> w \<noteq> [] \<and> hd w \<in> set delims"

lemma text_append:
  assumes "text_toks free w ts" "free \<or> delimited v" "text_toks free' v us"
  shows "text_toks free' (w @ v) (ts @ us)"
proof (rule text_toksI)
  fix fo out pre rest b l and ctx :: "yy_buffer scan_context"
  assume z: "sc_string ctx = strbuf_zero" and p: "list_all white pre" and f: "free' \<or> followed rest"
  have "free \<or> followed (v @ rest)" using assms(2) by (auto simp: delimited_def followed_def)
  from text_toksD [OF assms(1) z p this] obtain post b1 l1 where 1: "list_all white post"
    "lexes fo (scanner_at ctx out INITIAL (pre @ w @ v @ rest) b l) ts (scanner_at ctx out INITIAL (post @ v @ rest) b1 l1)"
    by blast
  from text_toksD [OF assms(3) z 1(1) f] obtain post' b2 l2 where 2: "list_all white post'"
    "lexes fo (scanner_at ctx out INITIAL (post @ v @ rest) b1 l1) us (scanner_at ctx out INITIAL (post' @ rest) b2 l2)"
    by blast
  show "\<exists>post b' l'. list_all white post \<and>
      lexes fo (scanner_at ctx out INITIAL (pre @ (w @ v) @ rest) b l) (ts @ us) (scanner_at ctx out INITIAL (post @ rest) b' l')"
    using lexes_append [OF 1(2) 2(2)] 2(1) by auto
qed

lemma text_weaken: "text_toks True w ts \<Longrightarrow> text_toks free w ts"
  unfolding text_toks_def by blast

text \<open>The end of the input.\<close>

lemma end_of_input:
  assumes "list_all white post" "sc_files ctx = []"
  shows "\<exists>sc'. lexes fo (scanner_at ctx out INITIAL post b l) [(0, None)] sc'"
proof -
  obtain b1 l1 where s: "yylex_loop fo (scanner_at ctx out INITIAL (post @ []) b l) = yylex_loop fo (scanner_at ctx out INITIAL [] b1 l1)"
    using skip_white [of post "[]" fo ctx out b l] assms(1) by (auto simp: list_all_iff white_ends_def)
  have "yy_scan fo (scanner_at ctx out INITIAL [] b1 l1) = (scanner_at ctx out INITIAL [] b1 l1, Some (lexed_token YYEOF))"
    using assms(2) by (simp add: yy_scan_def scanner_at_def yy_eof_action_def scanctx_pop_include_def sc_depth_def)
  from loop_token [OF this] s show ?thesis by (simp add: lexed_token_def lex_token_def tok_codes)
qed

text \<open>The tokens a scanner delivers to the parser.\<close>

lemma lexes_stream:
  "lexes fo sc ts sc' \<Longrightarrow>
     spells (stream (flex_lexer fo) (length ts) sc v) ts \<and> (\<forall>i<length ts. lx_error (token_at (flex_lexer fo) i sc) = None)"
proof (induction ts arbitrary: sc v)
  case (Cons t ts)
  obtain sc1 x where x: "yylex_loop fo sc = Some (sc1, x)" "lx_error x = None" "(lex_token x, lx_value x) = t" "lexes fo sc1 ts sc'"
    using Cons.prems by auto
  have y: "yylex (flex_lexer fo) sc = (sc1, x)" using x(1) by (simp add: flex_lexer_def)
  have "lx_error (token_at (flex_lexer fo) i sc) = None" if "i < length (t # ts)" for i
    using that Cons.IH [OF x(4)] x(2) y by (cases i) auto
  then show ?case using Cons.IH [OF x(4)] x(3) y by (auto simp: Let_def split: option.split)
qed simp

section \<open>Written values and settings\<close>

lemma white_chars: "white (CHR '' '')" "white (CHR 0x09)" "white (CHR 0x0A)"
  by (simp_all add: white_def blanks_def)

lemma indent_white: "text_toks True (if d > e then config_indent d w else []) []"
  by (rule text_white) (auto simp: config_indent_def list_all_iff white_chars)

lemma text_blank: "text_toks True '' '' []" "text_toks True [CHR 0x0A] []" "text_toks True [] []"
  by (rule text_white, simp add: white_chars)+

lemma text_punctuation:
  "text_toks True ''='' [(11, None)]" "text_toks True '':'' [(11, None)]" "text_toks True '','' [(17, None)]"
  "text_toks True ''['' [(13, None)]" "text_toks True '']'' [(14, None)]" "text_toks True ''('' [(15, None)]" "text_toks True '')'' [(16, None)]"
  "text_toks True ''{'' [(18, None)]" "text_toks True ''}'' [(19, None)]" "text_toks True '';'' [(20, None)]"
proof -
  have p: "text_toks True u [(n, None)]" if "reads_as True u (lexed_token t)" "u \<noteq> []" "white_ends u" "lex_token (lexed_token t) = n" for u t n
    using text_token [OF that(1-3)] that(4) by (simp add: lexed_token_def)
  show "text_toks True ''='' [(11, None)]" "text_toks True '':'' [(11, None)]" "text_toks True '','' [(17, None)]"
    "text_toks True ''['' [(13, None)]" "text_toks True '']'' [(14, None)]" "text_toks True ''('' [(15, None)]" "text_toks True '')'' [(16, None)]"
    "text_toks True ''{'' [(18, None)]" "text_toks True ''}'' [(19, None)]" "text_toks True '';'' [(20, None)]"
    by (rule p [OF punctuation_reads(1)] p [OF punctuation_reads(2)] p [OF punctuation_reads(3)] p [OF punctuation_reads(6)]
        p [OF punctuation_reads(7)] p [OF punctuation_reads(8)] p [OF punctuation_reads(9)] p [OF punctuation_reads(4)]
        p [OF punctuation_reads(5)] p [OF punctuation_reads(10)]; code_simp)+
qed

lemma delimited_simps [simp]:
  "delimited (CHR '' '' # w)" "delimited (CHR '','' # w)" "delimited (CHR '';'' # w)" "delimited (CHR 0x0A # w)"
  by (simp_all add: delimited_def delims_def)

lemma text_elements: "list_all2 (text_toks False) ws tss \<Longrightarrow> text_toks True (write_elements ws) (commas tss)"
proof (induction ws arbitrary: tss rule: write_elements.induct)
  case 1
  then show ?case by (simp add: text_blank)
next
  case (2 x)
  then obtain ts where ts: "tss = [ts]" "text_toks False x ts" by (auto simp: list_all2_Cons1)
  then show ?case using text_append [OF ts(2) _ text_blank(1)] by simp
next
  case (3 x y ys)
  then obtain ts us r where ts: "tss = ts # us # r" "text_toks False x ts" "list_all2 (text_toks False) (y # ys) (us # r)"
    by (auto simp: list_all2_Cons1)
  have "text_toks True ('','' @ '' '') ([(17, None)] @ [])"
    by (rule text_append [OF text_punctuation(3) _ text_blank(1)]) simp
  then have "text_toks True (('','' @ '' '') @ write_elements (y # ys)) (([(17, None)] @ []) @ commas (us # r))"
    using text_append 3(1) [OF ts(3)] by blast
  then have "text_toks True (x @ (('','' @ '' '') @ write_elements (y # ys))) (ts @ (([(17, None)] @ []) @ commas (us # r)))"
    using text_append [OF ts(2), of "('','' @ '' '') @ write_elements (y # ys)"] by simp
  then show ?case using ts(1) by simp
qed

lemma text_concat: "list_all2 (text_toks True) ws tss \<Longrightarrow> text_toks True (concat ws) (concat tss)"
proof (induction rule: list_all2_induct)
  case (Cons w ws ts tss)
  then show ?case using text_append [of True w ts "concat ws" True "concat tss"] by simp
qed (simp add: text_blank)

section \<open>What can be written\<close>

text \<open>
  A tree that the writer can express: no setting without a type, floating-point
  numbers that ten digits tell apart, strings without NUL (as in C), and no
  setting named like a boolean.
\<close>

function expressible :: "config_setting \<Rightarrow> bool" where
  "expressible s \<longleftrightarrow>
     (case s_type s of
        CONFIG_TYPE_NONE \<Rightarrow> False
      | CONFIG_TYPE_FLOAT \<Rightarrow> float_ok (fval s)
      | CONFIG_TYPE_STRING \<Rightarrow> CHR 0x00 \<notin> set (string_contents (sval s))
      | CONFIG_TYPE_GROUP \<Rightarrow> (\<forall>e \<in> set (elems s). \<not> reserved (string_contents (s_name e)) \<and> expressible e)
      | CONFIG_TYPE_ARRAY \<Rightarrow> (\<forall>e \<in> set (elems s). expressible e)
      | CONFIG_TYPE_LIST \<Rightarrow> (\<forall>e \<in> set (elems s). expressible e)
      | _ \<Rightarrow> True)"
  by pat_completeness auto
termination
  by (relation "measure size") (auto dest: elem_size)

text \<open>How deep arrays, lists and groups are nested.\<close>

function nesting :: "config_setting \<Rightarrow> nat" where
  "nesting s = (if is_aggregate s then Suc (max_list (map nesting (elems s))) else 0)"
  by pat_completeness auto
termination
  by (relation "measure size") (auto dest: elem_size)

text \<open>
  The tree without what is not written: positions, hooks, the format of settings
  that are no integers, and the difference between no string and the empty one.
  Booleans are 0 or 1, and an integer's format is explicit.
\<close>

definition written_format :: "config \<Rightarrow> config_setting \<Rightarrow> int" where
  "written_format cfg s =
     (if s_type s \<in> {CONFIG_TYPE_INT, CONFIG_TYPE_INT64} \<and> config_setting_get_format cfg s = CONFIG_FORMAT_HEX
      then CONFIG_FORMAT_HEX else CONFIG_FORMAT_DEFAULT)"

function canonical :: "config \<Rightarrow> config_setting \<Rightarrow> config_setting" where
  "canonical cfg s =
     Setting (s_name s) (s_type s) (written_format cfg s)
       (case s_type s of
          CONFIG_TYPE_BOOL \<Rightarrow> VIval (if ival s \<noteq> 0 then 1 else 0)
        | CONFIG_TYPE_INT \<Rightarrow> VIval (ival s)
        | CONFIG_TYPE_INT64 \<Rightarrow> VLlval (llval s)
        | CONFIG_TYPE_FLOAT \<Rightarrow> VFval (fval s)
        | CONFIG_TYPE_STRING \<Rightarrow> VSval (string_contents (sval s))
        | CONFIG_TYPE_NONE \<Rightarrow> VZero
        | _ \<Rightarrow> list_value (map (canonical cfg) (elems s)))
       None 0 None"
  by pat_completeness auto
termination
  by (relation "measure (\<lambda>(cfg, s). size s)") (auto dest: elem_size)

text \<open>The syntax of the written text.\<close>

function ast_of :: "config \<Rightarrow> config_setting \<Rightarrow> ast" where
  "ast_of cfg s =
     (case s_type s of
        CONFIG_TYPE_BOOL \<Rightarrow> ABool (if ival s \<noteq> 0 then 1 else 0)
      | CONFIG_TYPE_INT \<Rightarrow> AInt (written_format cfg s = CONFIG_FORMAT_HEX) (ival s)
      | CONFIG_TYPE_INT64 \<Rightarrow> AInt64 (written_format cfg s = CONFIG_FORMAT_HEX) (llval s)
      | CONFIG_TYPE_FLOAT \<Rightarrow> AFloat (fval s)
      | CONFIG_TYPE_STRING \<Rightarrow> AString [string_contents (sval s)]
      | CONFIG_TYPE_ARRAY \<Rightarrow> AArray (map (ast_of cfg) (elems s))
      | CONFIG_TYPE_LIST \<Rightarrow> AList (map (ast_of cfg) (elems s))
      | _ \<Rightarrow> AGroup (map (\<lambda>e. Member (string_contents (s_name e)) (ast_of cfg e) Sep_semicolon) (elems s)))"
  by pat_completeness auto
termination
  by (relation "measure (\<lambda>(cfg, s). size s)") (auto dest: elem_size)

declare expressible.simps [simp del] nesting.simps [simp del] canonical.simps [simp del] ast_of.simps [simp del]

definition written_member :: "config \<Rightarrow> config_setting \<Rightarrow> member" where
  "written_member cfg e = Member (string_contents (s_name e)) (ast_of cfg e) Sep_semicolon"

text \<open>Induction over a tree along its elements.\<close>

lemma tree_induct: "(\<And>s. (\<And>e. e \<in> set (elems s) \<Longrightarrow> P e) \<Longrightarrow> P s) \<Longrightarrow> P s"
  by (induction s rule: measure_induct_rule [of size]) (blast dest: elem_size)

lemma expressible_type: "expressible s \<Longrightarrow> s_type s \<noteq> CONFIG_TYPE_NONE"
  by (auto simp: expressible.simps [of s])

lemma expressible_elem: "expressible s \<Longrightarrow> is_aggregate s \<Longrightarrow> e \<in> set (elems s) \<Longrightarrow> expressible e"
  by (auto simp: expressible.simps [of s] is_aggregate_def)

lemma elems_of_aggregate: "well_typed s \<Longrightarrow> e \<in> set (elems s) \<Longrightarrow> is_aggregate s \<and> well_typed e"
  using elems_aggregate [of s] well_typed_iff [of s] by (metis in_set_conv_nth)

lemma aggregate_types: "is_aggregate s \<longleftrightarrow> s_type s = CONFIG_TYPE_GROUP \<or> s_type s = CONFIG_TYPE_LIST \<or> s_type s = CONFIG_TYPE_ARRAY"
  by (auto simp: is_aggregate_def)

lemma member_names: "well_typed s \<Longrightarrow> s_type s = CONFIG_TYPE_GROUP \<Longrightarrow> e \<in> set (elems s) \<Longrightarrow>
    s_name e = Some (string_contents (s_name e)) \<and> config_validate_name (string_contents (s_name e))"
  using well_typed_iff [of s] by (auto simp: names_ok_def string_contents_def)

lemma element_names: "well_typed s \<Longrightarrow> is_aggregate s \<Longrightarrow> s_type s \<noteq> CONFIG_TYPE_GROUP \<Longrightarrow> e \<in> set (elems s) \<Longrightarrow> s_name e = None"
  using well_typed_iff [of s] by (auto simp: names_ok_def)

section \<open>The syntax denotes the tree\<close>

lemma ast_type_of: "s_type s \<noteq> CONFIG_TYPE_NONE \<Longrightarrow> ast_type (ast_of cfg s) = s_type s"
  by (auto simp: ast_of.simps [of cfg s] ast_type_def split: ctype.split)

lemma denote_ast_of: "well_typed s \<Longrightarrow> expressible s \<Longrightarrow> denote (s_name s) (ast_of cfg s) = canonical cfg s"
proof (induction s rule: tree_induct)
  case (1 s)
  have e: "denote (s_name e) (ast_of cfg e) = canonical cfg e" if "e \<in> set (elems s)" for e
    using 1 that elems_of_aggregate [OF 1(2) that] expressible_elem [OF 1(3) _ that] by blast
  have l: "map (denote None) (map (ast_of cfg) (elems s)) = map (canonical cfg) (elems s)"
    if "is_aggregate s" "s_type s \<noteq> CONFIG_TYPE_GROUP"
    using e element_names [OF 1(2) that] by force
  have g: "map denote_member (map (\<lambda>e. Member (string_contents (s_name e)) (ast_of cfg e) Sep_semicolon) (elems s)) = map (canonical cfg) (elems s)"
    if "s_type s = CONFIG_TYPE_GROUP"
    using e member_names [OF 1(2) that] by force
  show ?case
    using expressible_type [OF 1(3)] l g
    by (cases "s_type s")
      (simp_all add: ast_of.simps [of cfg s] canonical.simps [of cfg s] written_format_def aggregate_types
        CONFIG_FORMAT_HEX_def CONFIG_FORMAT_DEFAULT_def del: list.map_comp map_map)
qed

lemma wf_ast_of: "well_typed s \<Longrightarrow> expressible s \<Longrightarrow> wf_ast (ast_of cfg s)"
proof (induction s rule: tree_induct)
  case (1 s)
  have e: "wf_ast (ast_of cfg e) \<and> s_type e \<noteq> CONFIG_TYPE_NONE" if "e \<in> set (elems s)" for e
    using 1 that elems_of_aggregate [OF 1(2) that] expressible_elem [OF 1(3) _ that] expressible_type by blast
  have g: "good_names (map (\<lambda>e. string_contents (s_name e)) (elems s))" if "s_type s = CONFIG_TYPE_GROUP"
  proof -
    have "map s_name (elems s) = map Some (map (\<lambda>e. string_contents (s_name e)) (elems s))"
      using member_names [OF 1(2) that] by simp
    moreover have "distinct (map s_name (elems s))" using 1(2) that well_typed_iff [of s] by (simp add: names_ok_def)
    ultimately have "distinct (map (\<lambda>e. string_contents (s_name e)) (elems s))" by (metis distinct_map)
    then show ?thesis using member_names [OF 1(2) that] by (auto simp: good_names_def list_all_iff)
  qed
  have a: "list_all (\<lambda>a. is_scalar (ast_type a) \<and> ast_type a = ast_type (hd (map (ast_of cfg) (elems s)))) (map (ast_of cfg) (elems s))"
    if "s_type s = CONFIG_TYPE_ARRAY"
    using 1(2) that well_typed_iff [of s] ast_type_of e by (cases "elems s") (auto simp: scalars_def list_all_iff)
  have w: "list_all wf_ast (map (ast_of cfg) (elems s))"
    "list_all wf_member (map (\<lambda>e. Member (string_contents (s_name e)) (ast_of cfg e) Sep_semicolon) (elems s))"
    using e by (auto simp: list_all_iff)
  show ?case using expressible_type [OF 1(3)] g a w
    by (cases "s_type s") (simp_all add: ast_of.simps [of cfg s] comp_def del: list.pred_map)
qed

lemma depth_ast_of: "well_typed s \<Longrightarrow> expressible s \<Longrightarrow> ast_depth (ast_of cfg s) = nesting s"
proof (induction s rule: tree_induct)
  case (1 s)
  have e: "ast_depth (ast_of cfg e) = nesting e" if "e \<in> set (elems s)" for e
    using 1 that elems_of_aggregate [OF 1(2) that] expressible_elem [OF 1(3) _ that] by blast
  then have m: "map (\<lambda>e. ast_depth (ast_of cfg e)) (elems s) = map nesting (elems s)" by simp
  show ?case using expressible_type [OF 1(3)]
    by (cases "s_type s") (simp_all add: ast_of.simps [of cfg s] nesting.simps [of s] aggregate_types comp_def m del: map_eq_conv)
qed

section \<open>The text has the tokens of the syntax\<close>

lemma text_value_token:
  assumes "reads_as free u x" "u \<noteq> []" "white_ends u" "x = lexed_value t v" "lex_token x = n"
  shows "text_toks False u [(n, Some v)]"
proof (cases free)
  case True
  then show ?thesis using text_weaken text_token [OF assms(1-3)] assms(4,5) by (simp add: lexed_value_def)
next
  case False
  then show ?thesis using text_token [OF assms(1-3)] assms(4,5) by (simp add: lexed_value_def)
qed

lemma word_first: "c \<in> set letters \<or> c \<in> set digits \<or> c = CHR ''*'' \<or> c = CHR ''-'' \<or> c = CHR 0x22 \<Longrightarrow> white_ends (c # w)"
proof -
  have "list_all (\<lambda>c. white_ends [c]) (letters @ digits @ [CHR ''*'', CHR ''-'', CHR 0x22])" by code_simp
  then show "c \<in> set letters \<or> c \<in> set digits \<or> c = CHR ''*'' \<or> c = CHR ''-'' \<or> c = CHR 0x22 \<Longrightarrow> white_ends (c # w)"
    by (auto simp: white_ends_def list_all_iff)
qed

lemma value_codes:
  "lex_token (lexed_value TOK_BOOLEAN v) = 3" "lex_token (lexed_value TOK_INTEGER v) = 4" "lex_token (lexed_value TOK_HEX v) = 5"
  "lex_token (lexed_value TOK_INTEGER64 v) = 6" "lex_token (lexed_value TOK_HEX64 v) = 7" "lex_token (lexed_value TOK_FLOAT v) = 8"
  "lex_token (lexed_value TOK_STRING v) = 9" "lex_token (lexed_value TOK_NAME v) = 10"
  by code_simp+

lemma show_int_first: "white_ends (show_int i @ e)"
proof -
  obtain s ds where p: "show_int i = s @ ds" "s = [] \<or> s = ''-''" "numeral_text ds" by (rule show_int_parts)
  obtain x w where "s @ ds @ e = x # w" "isdigit x \<or> x = CHR ''-''" using signed_first [OF p(2,3)] by blast
  then show ?thesis using word_first [of x w] p(1) by (auto simp: char_sets)
qed

lemma text_bool: "text_toks False (if b then ''true'' else ''false'') [(3, Some (YIval (if b then 1 else 0)))]"
  by (rule text_value_token [OF bool_reads _ _ refl value_codes(1)]) (auto simp: white_ends_def blanks_def)

lemma text_ints:
  "text_toks False (show_int (sint (i :: word32))) [(4, Some (YIval i))]"
  "text_toks False (show_int (sint (j :: word64)) @ ''L'') [(6, Some (YLlval j))]"
  "text_toks False (''0x'' @ show_hex (unat i)) [(5, Some (YIval i))]"
  "text_toks False (''0x'' @ show_hex (unat j) @ ''L'') [(7, Some (YLlval j))]"
proof -
  show "text_toks False (show_int (sint i)) [(4, Some (YIval i))]"
    by (rule text_value_token [OF int_reads show_int_nonempty _ refl value_codes(2)]) (use show_int_first [of _ "[]"] in simp)
  show "text_toks False (show_int (sint j) @ ''L'') [(6, Some (YLlval j))]"
    by (rule text_value_token [OF int64_reads _ show_int_first refl value_codes(4)]) simp
  show "text_toks False (''0x'' @ show_hex (unat i)) [(5, Some (YIval i))]"
    by (rule text_value_token [OF hex_reads(1) _ _ refl value_codes(3)]) (auto simp: white_ends_def blanks_def)
  show "text_toks False (''0x'' @ show_hex (unat j) @ ''L'') [(7, Some (YLlval j))]"
    by (rule text_value_token [OF hex_reads(2) _ _ refl value_codes(5)]) (auto simp: white_ends_def blanks_def)
qed

lemma text_string: "CHR 0x00 \<notin> set (string_contents s) \<Longrightarrow> text_toks False (write_string s) [(9, Some (YSval (string_contents s)))]"
  by (rule text_value_token [OF string_reads _ _ refl value_codes(7)]) (auto simp: write_string_def white_ends_def blanks_def)

lemma text_float: "float_ok d \<Longrightarrow> text_toks False (write_float d) [(8, Some (YFval d))]"
proof -
  assume d: "float_ok d"
  then obtain x v where x: "write_float d = x # v" "isdigit x \<or> x = CHR ''-''" by (rule float_text)
  show ?thesis by (rule text_value_token [OF float_reads [OF d] _ _ refl value_codes(6)]) (use x word_first [of x v] in \<open>auto simp: char_sets\<close>)
qed

lemma text_name:
  assumes "config_validate_name nm" "\<not> reserved nm"
  shows "text_toks True (nm @ '' '' @ (if b then '':'' else ''='') @ '' '') [(10, Some (YSval nm)), (11, None)]"
proof -
  obtain x w where nm: "nm = x # w" "isalpha x \<or> x = CHR ''*''" using assms(1) by (cases nm) (auto simp: config_validate_name_def)
  have "white_ends nm" unfolding nm(1) by (rule word_first) (use nm(2) in \<open>auto simp: char_sets\<close>)
  then have n: "text_toks False nm [(10, Some (YSval nm))]"
    using text_value_token [OF name_reads [OF assms] _ _ refl value_codes(8)] nm by simp
  have "text_toks True (if b then '':'' else ''='') [(11, None)]" using text_punctuation(1,2) by simp
  then have "text_toks True ((if b then '':'' else ''='') @ '' '') ([(11, None)] @ [])"
    using text_append text_blank(1) by blast
  then have "text_toks True ('' '' @ (if b then '':'' else ''='') @ '' '') ([] @ [(11, None)] @ [])"
    using text_append text_blank(1) by blast
  from text_append [OF n _ this] show ?thesis by simp
qed

section \<open>Values and settings\<close>

text \<open>Below the root: the written text of a value has the tokens of its syntax.\<close>

definition value_text :: "config \<Rightarrow> config_setting \<Rightarrow> bool" where
  "value_text cfg s \<longleftrightarrow> (\<forall>depth > 0. text_toks False (write_value cfg s depth) (value_toks (ast_of cfg s)))"

lemma setting_text:
  assumes "value_text cfg e" "s_name e = Some nm" "config_validate_name nm" "\<not> reserved nm" "0 < depth"
  shows "text_toks True (write_setting cfg e depth) (member_toks (Member nm (ast_of cfg e) Sep_semicolon))"
proof -
  have n: "text_toks True (write_name e) [(10, Some (YSval nm)), (11, None)]"
    using text_name [OF assms(3,4), of "s_type e = CONFIG_TYPE_GROUP"] assms(2) by (simp add: write_name_def)
  have v: "text_toks False (write_value cfg e depth) (value_toks (ast_of cfg e))"
    using assms(1,5) by (simp add: value_text_def)
  have "text_toks True ('';'' @ [CHR 0x0A]) ([(20, None)] @ [])"
    using text_append text_punctuation(10) text_blank(2) by blast
  from text_append [OF v _ this]
  have "text_toks True (write_value cfg e depth @ '';'' @ [CHR 0x0A]) (value_toks (ast_of cfg e) @ [(20, None)] @ [])" by simp
  then have "text_toks True ((if depth > 1 then config_indent depth (tab_width cfg) else []) @ write_name e @ write_value cfg e depth @ '';'' @ [CHR 0x0A])
      ([] @ [(10, Some (YSval nm)), (11, None)] @ value_toks (ast_of cfg e) @ [(20, None)] @ [])"
    using text_append indent_white n by blast
  then show ?thesis using assms(5) by (simp add: write_setting.simps [of cfg e] sep_toks_def)
qed

lemma members_text:
  assumes "well_typed s" "expressible s" "s_type s = CONFIG_TYPE_GROUP" "\<forall>e \<in> set (elems s). value_text cfg e" "0 < depth"
  shows "text_toks True (concat (map (\<lambda>e. write_setting cfg e depth) (elems s))) (concat (map member_toks (map (written_member cfg) (elems s))))"
proof (rule text_concat)
  have "text_toks True (write_setting cfg e depth) (member_toks (written_member cfg e))" if "e \<in> set (elems s)" for e
    unfolding written_member_def
  proof (rule setting_text)
    show "s_name e = Some (string_contents (s_name e))" "config_validate_name (string_contents (s_name e))"
      using member_names [OF assms(1,3) that] by blast+
    show "\<not> reserved (string_contents (s_name e))" using assms(2,3) that by (simp add: expressible.simps [of s])
  qed (use assms(4,5) that in auto)
  then show "list_all2 (text_toks True) (map (\<lambda>e. write_setting cfg e depth) (elems s)) (map member_toks (map (written_member cfg) (elems s)))"
    by (simp add: list_all2_map1 list_all2_map2 list.rel_refl_strong)
qed

lemma elements_text:
  assumes "\<forall>e \<in> set (elems s). value_text cfg e" "0 < depth" "text_toks True op [(m, None)]" "text_toks True cl [(n, None)]"
  shows "text_toks True ((op @ '' '') @ write_elements (map (\<lambda>e. write_value cfg e (depth + 1)) (elems s)) @ cl)
    ((m, None) # commas (map value_toks (map (ast_of cfg) (elems s))) @ [(n, None)])"
proof -
  have "list_all2 (text_toks False) (map (\<lambda>e. write_value cfg e (depth + 1)) (elems s)) (map value_toks (map (ast_of cfg) (elems s)))"
    using assms(1,2) by (auto simp: list_all2_map1 list_all2_map2 value_text_def intro!: list.rel_refl_strong)
  note e = text_elements [OF this]
  have "text_toks True (op @ '' '') ([(m, None)] @ [])" using text_append assms(3) text_blank(1) by blast
  moreover have "text_toks True (write_elements (map (\<lambda>e. write_value cfg e (depth + 1)) (elems s)) @ cl)
      (commas (map value_toks (map (ast_of cfg) (elems s))) @ [(n, None)])"
    using text_append e assms(4) by blast
  ultimately have "text_toks True ((op @ '' '') @ write_elements (map (\<lambda>e. write_value cfg e (depth + 1)) (elems s)) @ cl)
      (([(m, None)] @ []) @ commas (map value_toks (map (ast_of cfg) (elems s))) @ [(n, None)])"
    using text_append by blast
  then show ?thesis by simp
qed

lemma group_text:
  assumes "well_typed s" "expressible s" "s_type s = CONFIG_TYPE_GROUP" "\<forall>e \<in> set (elems s). value_text cfg e" "0 < depth"
  shows "text_toks True (write_value cfg s depth) (value_toks (ast_of cfg s))"
proof -
  let ?ind = "if depth > 1 then config_indent depth (tab_width cfg) else []"
  let ?ms = "concat (map (\<lambda>e. write_setting cfg e (depth + 1)) (elems s))"
  have m: "text_toks True ?ms (concat (map member_toks (map (written_member cfg) (elems s))))"
    by (rule members_text [OF assms(1-4)]) (use assms(5) in simp)
  have "text_toks True ([CHR 0x0A] @ ?ind @ ''{'' @ [CHR 0x0A] @ ?ms @ ?ind @ ''}'')
      ([] @ [] @ [(18, None)] @ [] @ concat (map member_toks (map (written_member cfg) (elems s))) @ [] @ [(19, None)])"
    by (intro text_append [OF _ disjI1 [OF TrueI]] text_blank indent_white text_punctuation m)
  then show ?thesis using assms(3,5)
    by (cases "1 < depth") (simp_all add: write_value.simps [of cfg s] ast_of.simps [of cfg s] written_member_def [abs_def])
qed

lemma values_text: "well_typed s \<Longrightarrow> expressible s \<Longrightarrow> value_text cfg s"
proof (induction s rule: tree_induct)
  case (1 s)
  have e: "\<forall>e \<in> set (elems s). value_text cfg e"
    using 1 elems_of_aggregate [OF 1(2)] expressible_elem [OF 1(3)] by blast
  show ?case unfolding value_text_def
  proof (intro allI impI)
    fix depth :: int
    assume d: "0 < depth"
    note t = write_value.simps [of cfg s depth] ast_of.simps [of cfg s]
    show "text_toks False (write_value cfg s depth) (value_toks (ast_of cfg s))"
    proof (cases "s_type s")
      case CONFIG_TYPE_GROUP
      then show ?thesis using text_weaken [OF group_text [OF 1(2,3) _ e d]] by blast
    next
      case CONFIG_TYPE_ARRAY
      then show ?thesis using text_weaken [OF elements_text [OF e d text_punctuation(4,5)]] t by simp
    next
      case CONFIG_TYPE_LIST
      then show ?thesis using text_weaken [OF elements_text [OF e d text_punctuation(6,7)]] t by simp
    next
      case CONFIG_TYPE_INT
      then show ?thesis using text_ints(1,3) t
        by (auto simp: write_number_def written_format_def CONFIG_FORMAT_HEX_def CONFIG_FORMAT_DEFAULT_def)
    next
      case CONFIG_TYPE_INT64
      then show ?thesis using text_ints(2,4) t
        by (auto simp: write_number_def written_format_def CONFIG_FORMAT_HEX_def CONFIG_FORMAT_DEFAULT_def)
    next
      case CONFIG_TYPE_BOOL
      then show ?thesis using text_bool [of "ival s \<noteq> 0"] t by simp
    next
      case CONFIG_TYPE_FLOAT
      then show ?thesis using text_float 1(3) t by (simp add: expressible.simps [of s])
    next
      case CONFIG_TYPE_STRING
      then show ?thesis using text_string 1(3) t by (simp add: expressible.simps [of s])
    next
      case CONFIG_TYPE_NONE
      then show ?thesis using expressible_type [OF 1(3)] by simp
    qed
  qed
qed

section \<open>Reading what was written\<close>

lemma root_text:
  assumes "well_typed (root cfg)" "expressible (root cfg)" "s_type (root cfg) = CONFIG_TYPE_GROUP" "s_name (root cfg) = None"
  shows "text_toks True (config_write cfg) (concat (map member_toks (map (written_member cfg) (elems (root cfg)))))"
proof -
  have "\<forall>e \<in> set (elems (root cfg)). value_text cfg e"
    using values_text elems_of_aggregate [OF assms(1)] expressible_elem [OF assms(2)] by blast
  then have "text_toks True (concat (map (\<lambda>e. write_setting cfg e 1) (elems (root cfg))))
      (concat (map member_toks (map (written_member cfg) (elems (root cfg)))))"
    by (rule members_text [OF assms(1-3)]) simp
  then show ?thesis
    using assms(3,4) by (simp add: config_write_def write_setting.simps [of cfg "root cfg"] write_value.simps [of cfg "root cfg"] write_name_def)
qed

lemma stream_of_text:
  assumes "text_toks True w ts"
  shows "spells (stream (flex_lexer fo) (Suc (length ts)) (read_scanner cfg filename w) YUndef) (ts @ [(0, None)]) \<and>
    (\<forall>i<Suc (length ts). lx_error (token_at (flex_lexer fo) i (read_scanner cfg filename w)) = None)"
proof -
  define ctx :: "yy_buffer scan_context" where "ctx = scanctx_init (include_dir cfg) filename"
  have sc: "read_scanner cfg filename w = scanner_at ctx [] INITIAL w True 1"
    by (simp add: read_scanner_def scanner_init_def scanner_at_def new_buffer_def INITIAL_def ctx_def)
  have z: "sc_string ctx = strbuf_zero" "sc_files ctx = []" by (auto simp: ctx_def scanctx_init_def scanctx_add_filename_def Let_def split: option.splits)
  obtain post b l where t: "list_all white post" "lexes fo (read_scanner cfg filename w) ts (scanner_at ctx [] INITIAL post b l)"
    using text_toksD [OF assms z(1), of "[]" "[]" fo "[]" True 1] sc by auto
  obtain sc' where "lexes fo (scanner_at ctx [] INITIAL post b l) [(0, None)] sc'" using end_of_input [OF t(1) z(2)] by blast
  from lexes_stream [OF lexes_append [OF t(2) this], of YUndef] show ?thesis by simp
qed

lemma reads_back:
  assumes "well_typed (root cfg)" "s_type (root cfg) = CONFIG_TYPE_GROUP" "s_name (root cfg) = None"
    "expressible (root cfg)" "nesting (root cfg) \<le> MAX_NEST"
  shows "\<exists>fuel cfg'. config_read_with fuel fopen cfg0 filename (config_write cfg) = Some (cfg', config_destroy cfg0, True)
    \<and> erase (root cfg') = canonical cfg (root cfg)"
proof -
  define ms where "ms = map (written_member cfg) (elems (root cfg))"
  have a: "ast_of cfg (root cfg) = AGroup ms" using assms(2) by (simp add: ast_of.simps [of cfg "root cfg"] ms_def written_member_def [abs_def])
  define ts where "ts = concat (map member_toks ms)"
  define n where "n = Suc (length ts)"
  have t: "spells (stream (flex_lexer fopen) n (read_scanner cfg0 filename (config_write cfg)) YUndef) (concat (map member_toks ms) @ [(0, None)])"
    "\<forall>i<n. lx_error (token_at (flex_lexer fopen) i (read_scanner cfg0 filename (config_write cfg))) = None"
    using stream_of_text [OF root_text [OF assms(1,4,2,3)]] unfolding ms_def ts_def n_def by blast+
  have "wf_ast (AGroup ms)" "ast_depth (AGroup ms) \<le> MAX_NEST"
    using wf_ast_of [OF assms(1,4), of cfg] depth_ast_of [OF assms(1,4), of cfg] assms(5) a by simp_all
  from builds_tree [OF t this config_reinit_root] obtain p t where
    "yyparse (flex_lexer fopen) (12 * n) (read_scanner cfg0 filename (config_write cfg)) (parsectx_init (config_reinit cfg0)) = Stop 0 p"
    "pc_config (ps_ctx p) = (config_reinit cfg0)\<lparr>root := t\<rparr>" "erase t = denote None (AGroup ms)"
    by blast
  moreover have "denote None (AGroup ms) = canonical cfg (root cfg)" using denote_ast_of [OF assms(1,4), of cfg] a assms(3) by simp
  ultimately show ?thesis by (intro exI [of _ "12 * n"]) (auto simp: config_read_with_scanner)
qed

text \<open>
  C1. What \<open>config_write\<close> writes, \<open>config_read\<close> reads: into whatever
  configuration, with whatever file system, reading the text of a
  well-typed tree that can be written succeeds and builds the same tree, but
  for what is not written.
\<close>

theorem config_read_write:
  assumes "well_typed (root cfg)" "s_type (root cfg) = CONFIG_TYPE_GROUP" "s_name (root cfg) = None"
    "expressible (root cfg)" "nesting (root cfg) \<le> MAX_NEST"
  shows "\<exists>fuel cfg'. config_read fuel fopen cfg0 (config_write cfg) = Some (cfg', config_destroy cfg0, True)
    \<and> erase (root cfg') = canonical cfg (root cfg)"
  unfolding config_read_def by (rule reads_back [OF assms])

lemma names_ok_code [code]:
  "names_ok t xs \<longleftrightarrow>
     (if t = CONFIG_TYPE_GROUP
      then (\<forall>x\<in>set xs. case s_name x of None \<Rightarrow> False | Some n \<Rightarrow> config_validate_name n) \<and> distinct (map s_name xs)
      else (\<forall>x\<in>set xs. s_name x = None))"
  by (auto simp: names_ok_def split: option.splits)

definition sample_config :: config where
  "sample_config = config_init\<lparr>root := Setting None CONFIG_TYPE_GROUP 0 (VList
     [Setting (Some ''a'') CONFIG_TYPE_ARRAY 0 (VList [Setting None CONFIG_TYPE_INT 1 (VIval 10) None 3 None,
        Setting None CONFIG_TYPE_INT 0 VZero None 3 None]) None 3 None,
      Setting (Some ''b'') CONFIG_TYPE_GROUP 0 (VList
        [Setting (Some ''c-d'') CONFIG_TYPE_STRING 0 (VSval [CHR ''x'', CHR 0x22, CHR 0x0A, CHR 0x01]) (Some 7) 4 None,
         Setting (Some ''e'') CONFIG_TYPE_FLOAT 0 (VFval (Finite True 3 (- 1))) None 5 (Some ''f'')]) None 4 None]) None 0 None\<rparr>"

text \<open>The number -1.5, computed.\<close>

declare show_nat.simps [simp del]

lemma sample_digits:
  "digit 0 = CHR ''0''" "digit (Suc 0) = CHR ''1''" "digit 5 = CHR ''5''" "with_fraction ''1'' ''500000000'' = ''1.5''"
  by code_simp+

lemma sample_show: "show_g FLOAT_PRECISION (Finite True 3 (- 1)) = ''-1.5''"
proof -
  have n: "show_nat 1500000000 = ''1500000000''" "show_nat 1 = ''1''" by (simp_all add: show_nat.simps sample_digits)
  then have "decimal_exponent 3 2 = 0" by (simp add: decimal_exponent_def)
  then have "g_digits 10 3 2 = (1500000000, 0)" by (simp add: g_digits_def round_half_even_def Let_def)
  then show ?thesis by (simp add: show_g_def show_g_ratio_def FLOAT_PRECISION_def n sample_digits Let_def)
qed

lemma sample_float: "float_ok (Finite True 3 (- 1))"
proof -
  have w: "write_float (Finite True 3 (- 1)) = ''-1.5''"
    unfolding write_float_def sample_show by code_simp
  have "bitlen 15 = 4" "bitlen 10 = 4" "bitlen 6755399441055744 = 53" "reduce 6755399441055744 (- 52) = (3, - 1)"
    by (simp_all add: bitlen.simps reduce.simps)
  then have "double_of_ratio True 15 10 = Finite True 3 (- 1)"
    by (simp add: double_of_ratio_def Let_def scale2_def round_half_even_def)
  moreover have "atof ''-1.5'' = double_of_ratio True 15 10"
    by (simp add: atof_def split_sign_def isspace_def isdigit_def exponent_part_def dec_val_def Let_def)
  ultimately show ?thesis by (simp add: float_ok_def w sample_show)
qed

theorem config_read_write_witness:
  "\<exists>fuel cfg'. config_read fuel (\<lambda>_. None) config_init (config_write sample_config) = Some (cfg', config_destroy config_init, True)
    \<and> erase (root cfg') = canonical sample_config (root sample_config)"
proof (rule config_read_write)
  show "well_typed (root sample_config)" by code_simp
  show "s_type (root sample_config) = CONFIG_TYPE_GROUP" "s_name (root sample_config) = None" by (simp_all add: sample_config_def)
  have "\<not> reserved ''a''" "\<not> reserved ''b''" "\<not> reserved ''c-d''" "\<not> reserved ''e''" by code_simp+
  then show "expressible (root sample_config)"
    by (simp add: sample_config_def expressible.simps elems_def list_ptr_def string_contents_def fval_def sval_def sample_float)
  show "nesting (root sample_config) \<le> MAX_NEST" by code_simp
qed

end
