(* ===== verification/CopySetting.thy ===== *)
theory CopySetting
  imports ReadBack
begin

text \<open>
  Copying a setting with everything below it to another place
  (\<open>contrib/copy_setting.c\<close>), with the operations of \<open>lib/libconfig.c\<close>.  The
  source must not contain the parent.  A pointer is \<open>None\<close> for NULL; an outer
  \<open>None\<close> is a run that dereferences NULL.
\<close>

section \<open>Copying scalars\<close>

definition config_setting_type :: "config_setting \<Rightarrow> int" where
  "config_setting_type s = toTypeCode (s_type s)"

text \<open>Writing through the pointer to an element.\<close>

definition write_elem :: "config_setting \<Rightarrow> nat \<Rightarrow> config_setting \<Rightarrow> config_setting" where
  "write_elem p i s = set_value (VList ((elems p)[i := s])) p"

definition copy_value :: "config \<Rightarrow> config \<Rightarrow> config_setting \<Rightarrow> config_setting \<Rightarrow> config_setting" where
  "copy_value scfg dcfg st src =
     (case s_type src of
        CONFIG_TYPE_INT \<Rightarrow>
          fst (config_setting_set_format (fst (config_setting_set_int dcfg st (config_setting_get_int scfg src))) (s_format src))
      | CONFIG_TYPE_INT64 \<Rightarrow>
          fst (config_setting_set_format (fst (config_setting_set_int64 dcfg st (config_setting_get_int64 scfg src))) (s_format src))
      | CONFIG_TYPE_FLOAT \<Rightarrow> fst (config_setting_set_float dcfg st (config_setting_get_float scfg src))
      | CONFIG_TYPE_STRING \<Rightarrow> fst (config_setting_set_string st (config_setting_get_string src))
      | CONFIG_TYPE_BOOL \<Rightarrow> fst (config_setting_set_bool st (config_setting_get_bool src))
      | _ \<Rightarrow> st)"

definition copy_scalar :: "config \<Rightarrow> config \<Rightarrow> config_setting option \<Rightarrow> config_setting \<Rightarrow> config_setting option option" where
  "copy_scalar scfg dcfg p src =
     (case config_setting_add p (s_name src) (config_setting_type src) of
        None \<Rightarrow> None
      | Some (p', r) \<Rightarrow>
          if s_type src = CONFIG_TYPE_NONE then Some p'
          else (case (p', r) of
                  (Some q, Some i) \<Rightarrow> Some (Some (write_elem q i (copy_value scfg dcfg (elems q ! i) src)))
                | _ \<Rightarrow> None))"

definition format_elem :: "config_setting \<times> nat option \<Rightarrow> int \<Rightarrow> config_setting option option" where
  "format_elem vr format =
     (case vr of
        (v, None) \<Rightarrow> None
      | (v, Some i) \<Rightarrow> Some (Some (write_elem v i (fst (config_setting_set_format (elems v ! i) format)))))"

definition copy_scalar_elem :: "config \<Rightarrow> config \<Rightarrow> config_setting option \<Rightarrow> config_setting \<Rightarrow> config_setting option option" where
  "copy_scalar_elem scfg dcfg p src =
     (if s_type src = CONFIG_TYPE_NONE then Some p
      else case p of
             None \<Rightarrow> None
           | Some v \<Rightarrow>
               (case s_type src of
                  CONFIG_TYPE_INT \<Rightarrow> format_elem (config_setting_set_int_elem dcfg v (-1) (config_setting_get_int scfg src)) (s_format src)
                | CONFIG_TYPE_INT64 \<Rightarrow> format_elem (config_setting_set_int64_elem dcfg v (-1) (config_setting_get_int64 scfg src)) (s_format src)
                | CONFIG_TYPE_FLOAT \<Rightarrow> Some (Some (fst (config_setting_set_float_elem dcfg v (-1) (config_setting_get_float scfg src))))
                | CONFIG_TYPE_STRING \<Rightarrow> Some (Some (fst (config_setting_set_string_elem v (-1) (config_setting_get_string src))))
                | CONFIG_TYPE_BOOL \<Rightarrow> Some (Some (fst (config_setting_set_bool_elem v (-1) (config_setting_get_bool src))))
                | _ \<Rightarrow> Some p))"

section \<open>Copying trees\<close>

lemma size_elems: "is_aggregate s \<Longrightarrow> size_list size (elems s) < size s"
  by (cases s) (auto simp: elems_def list_ptr_def split: config_value.splits)

text \<open>The loop of the aggregate copy runs over the elements in their order.\<close>

function config_setting_copy_simple :: "config \<Rightarrow> config \<Rightarrow> config_setting option \<Rightarrow> config_setting \<Rightarrow> config_setting option option"
  and config_setting_copy_elem :: "config \<Rightarrow> config \<Rightarrow> config_setting option \<Rightarrow> config_setting \<Rightarrow> config_setting option option"
  and config_setting_copy_aggregate :: "config \<Rightarrow> config \<Rightarrow> config_setting option \<Rightarrow> config_setting \<Rightarrow> config_setting option option"
  and copy_elements :: "config \<Rightarrow> config \<Rightarrow> bool \<Rightarrow> config_setting option \<Rightarrow> config_setting list \<Rightarrow> config_setting option option"
where
  "config_setting_copy_simple scfg dcfg p src =
     (if is_aggregate src then config_setting_copy_aggregate scfg dcfg p src else copy_scalar scfg dcfg p src)"
| "config_setting_copy_elem scfg dcfg p src =
     (if is_aggregate src then config_setting_copy_aggregate scfg dcfg p src else copy_scalar_elem scfg dcfg p src)"
| "config_setting_copy_aggregate scfg dcfg p src =
     (case config_setting_add p (s_name src) (config_setting_type src) of
        None \<Rightarrow> None
      | Some (p', r) \<Rightarrow>
          if \<not> is_aggregate src then Some p'
          else (case (p', r) of
             (Some q, Some i) \<Rightarrow>
               (case copy_elements scfg dcfg (s_type src = CONFIG_TYPE_GROUP) (Some (elems q ! i)) (elems src) of
                  Some (Some new) \<Rightarrow> Some (Some (write_elem q i new))
                | _ \<Rightarrow> None)
           | _ \<Rightarrow>
               (case copy_elements scfg dcfg (s_type src = CONFIG_TYPE_GROUP) None (elems src) of
                  None \<Rightarrow> None
                | Some _ \<Rightarrow> Some p')))"
| "copy_elements scfg dcfg grp new es =
     (case es of
        [] \<Rightarrow> Some new
      | e # es' \<Rightarrow>
          (case (if grp then config_setting_copy_simple scfg dcfg new e else config_setting_copy_elem scfg dcfg new e) of
             None \<Rightarrow> None
           | Some new' \<Rightarrow> copy_elements scfg dcfg grp new' es'))"
  by pat_completeness auto
termination
  by (relation "measures [case_sum (case_sum (\<lambda>(_, _, _, s). size s) (\<lambda>(_, _, _, s). size s))
                                   (case_sum (\<lambda>(_, _, _, s). size s) (\<lambda>(_, _, _, _, es). size_list size es)),
                          case_sum (\<lambda>_. 1) (\<lambda>_. 0)]")
    (auto simp: size_elems)

declare config_setting_copy_simple.simps [simp del] config_setting_copy_elem.simps [simp del]
  config_setting_copy_aggregate.simps [simp del] copy_elements.simps [simp del]

text \<open>The parent after the call, and the result.\<close>

definition config_setting_copy :: "config \<Rightarrow> config \<Rightarrow> config_setting \<Rightarrow> config_setting \<Rightarrow> (config_setting \<times> bool) option" where
  "config_setting_copy scfg dcfg parent src =
     (if s_type parent \<noteq> CONFIG_TYPE_GROUP \<and> s_type parent \<noteq> CONFIG_TYPE_LIST then Some (parent, False)
      else case (if is_aggregate src then config_setting_copy_aggregate scfg dcfg (Some parent) src
                 else config_setting_copy_simple scfg dcfg (Some parent) src) of
             Some (Some parent') \<Rightarrow> Some (parent', True)
           | _ \<Rightarrow> None)"

section \<open>What a copy is\<close>

text \<open>
  The same tree under a new name, without hook and position, with every value
  written; elements of lists without a type are left out.
\<close>

function copied :: "string option \<Rightarrow> config_setting \<Rightarrow> config_setting" where
  "copied nm s =
     Setting nm (s_type s)
       (if s_type s \<in> {CONFIG_TYPE_INT, CONFIG_TYPE_INT64} \<and> s_format s \<in> {CONFIG_FORMAT_DEFAULT, CONFIG_FORMAT_HEX}
        then s_format s else CONFIG_FORMAT_DEFAULT)
       (case s_type s of
          CONFIG_TYPE_BOOL \<Rightarrow> VIval (ival s)
        | CONFIG_TYPE_INT \<Rightarrow> VIval (ival s)
        | CONFIG_TYPE_INT64 \<Rightarrow> VLlval (llval s)
        | CONFIG_TYPE_FLOAT \<Rightarrow> VFval (fval s)
        | CONFIG_TYPE_STRING \<Rightarrow> string_value (sval s)
        | CONFIG_TYPE_NONE \<Rightarrow> VZero
        | CONFIG_TYPE_GROUP \<Rightarrow> list_value (map (\<lambda>e. copied (s_name e) e) (elems s))
        | _ \<Rightarrow> list_value (map (copied None) (filter (\<lambda>e. s_type e \<noteq> CONFIG_TYPE_NONE) (elems s))))
       None 0 None"
  by pat_completeness auto
termination
  by (relation "measure (\<lambda>(nm, s). size s)") (auto dest: elem_size)

declare copied.simps [simp del]

lemma copied_sels [simp]: "s_name (copied nm s) = nm" "s_type (copied nm s) = s_type s"
  by (simp_all add: copied.simps)

definition append_elem :: "config_setting \<Rightarrow> config_setting \<Rightarrow> config_setting" where
  "append_elem p x = set_value (VList (elems p @ [x])) p"

text \<open>A place for a setting of a name: a list or an array, or a group that takes the name.\<close>

definition fits :: "config_setting \<Rightarrow> string option \<Rightarrow> bool" where
  "fits p nm \<longleftrightarrow> s_type p \<in> {CONFIG_TYPE_ARRAY, CONFIG_TYPE_LIST} \<or>
     s_type p = CONFIG_TYPE_GROUP \<and> (\<exists>n. nm = Some n \<and> config_validate_name n \<and> config_setting_get_member p n = None)"

definition stored_name :: "config_setting \<Rightarrow> string option \<Rightarrow> string option" where
  "stored_name p nm = (if s_type p = CONFIG_TYPE_GROUP then nm else None)"

lemma add_fits:
  "fits p nm \<Longrightarrow> config_setting_add (Some p) nm (config_setting_type s)
     = Some (Some (append_elem p (new_setting (stored_name p nm) (s_type s))), Some (length (elems p)))"
  by (auto simp: fits_def config_setting_add_def config_setting_type_def type_code_inv Let_def stored_name_def
      config_setting_create_spec is_aggregate_def append_elem_def)

lemma write_appended [simp]: "write_elem (append_elem p x) (length (elems p)) y = append_elem p y"
  by (simp add: write_elem_def append_elem_def set_value_def elems_def list_ptr_def)

lemma appended_last [simp]: "elems (append_elem p x) ! length (elems p) = x"
  by (simp add: append_elem_def)

lemma copy_value_new: "\<not> is_aggregate s \<Longrightarrow> copy_value scfg dcfg (new_setting nm (s_type s)) s = copied nm s"
  by (cases "s_type s")
    (auto simp: copy_value_def copied.simps [of nm s] new_setting_def config_setting_set_int_def config_setting_get_int_def
      get_int_value_def config_setting_set_int64_def config_setting_get_int64_def get_int64_value_def
      config_setting_set_float_def config_setting_get_float_def get_float_value_def config_setting_set_string_def
      config_setting_get_string_def config_setting_set_bool_def config_setting_get_bool_def config_setting_set_format_def
      set_value_def set_format_def is_aggregate_def CONFIG_FORMAT_DEFAULT_def)

lemma copy_scalar_fits:
  assumes "fits p (s_name s)" "\<not> is_aggregate s"
  shows "copy_scalar scfg dcfg (Some p) s = Some (Some (append_elem p (copied (stored_name p (s_name s)) s)))"
proof -
  have "copy_value scfg dcfg (new_setting nm (s_type s)) s = copied nm s" for nm by (rule copy_value_new [OF assms(2)])
  moreover have "s_type s = CONFIG_TYPE_NONE \<Longrightarrow> new_setting nm CONFIG_TYPE_NONE = copied nm s" for nm
    using calculation [of nm] by (simp add: copy_value_def)
  ultimately show ?thesis by (simp add: copy_scalar_def add_fits [OF assms(1)])
qed

lemma elem_checks:
  assumes "s_type p \<in> {CONFIG_TYPE_ARRAY, CONFIG_TYPE_LIST}" "s_type p = CONFIG_TYPE_ARRAY \<Longrightarrow> elems p \<noteq> [] \<Longrightarrow> s_type (elems p ! 0) = t"
  shows "config_vector_checktype p t" "config_setting_create p None t = (append_elem p (new_setting None t), Some (length (elems p)))"
  using assms by (auto simp: config_vector_checktype_def config_setting_create_spec is_aggregate_def append_elem_def
      elems_def split: option.split)

lemma put_appended: "put_elem (append_elem p x) (length (elems p)) (y, True) = (append_elem p y, Some (length (elems p)))"
  by (simp add: put_elem_def append_elem_def set_value_def elems_def list_ptr_def)

lemma copy_scalar_elem_fits:
  assumes p: "s_type p \<in> {CONFIG_TYPE_ARRAY, CONFIG_TYPE_LIST}"
    and t: "s_type p = CONFIG_TYPE_ARRAY \<Longrightarrow> elems p \<noteq> [] \<Longrightarrow> s_type (elems p ! 0) = s_type s"
    and s: "\<not> is_aggregate s" "s_type s \<noteq> CONFIG_TYPE_NONE"
  shows "copy_scalar_elem scfg dcfg (Some p) s = Some (Some (append_elem p (copied None s)))"
proof -
  note chk = elem_checks [OF p t]
  have c: "copy_value scfg dcfg (new_setting None (s_type s)) s = copied None s" by (rule copy_value_new [OF s(1)])
  have v: "\<not> (s_type p \<noteq> CONFIG_TYPE_ARRAY \<and> s_type p \<noteq> CONFIG_TYPE_LIST)" using p by auto
  show ?thesis
    using s v chk c
    by (cases "s_type s")
      (auto simp: copy_scalar_elem_def is_aggregate_def config_setting_set_int_elem_def config_setting_set_int64_elem_def
        config_setting_set_float_elem_def config_setting_set_string_elem_def config_setting_set_bool_elem_def
        config_setting_set_int_def config_setting_set_int64_def config_setting_set_float_def config_setting_set_string_def
        config_setting_set_bool_def put_appended format_elem_def copy_value_def)
qed

section \<open>Copying builds the copy\<close>

text \<open>The copy of an aggregate while its elements are copied.\<close>

definition agg :: "string option \<Rightarrow> ctype \<Rightarrow> config_setting list \<Rightarrow> config_setting" where
  "agg nm t xs = Setting nm t 0 (list_value xs) None 0 None"

lemma agg_simps [simp]:
  "s_type (agg nm t xs) = t" "elems (agg nm t xs) = xs" "append_elem (agg nm t xs) x = agg nm t (xs @ [x])"
  "new_setting nm t = agg nm t []"
  by (simp_all add: agg_def append_elem_def set_value_def list_value_def elems_def list_ptr_def new_setting_def)

text \<open>What the induction gives for an element.\<close>

definition copies :: "config \<Rightarrow> config \<Rightarrow> config_setting \<Rightarrow> bool" where
  "copies scfg dcfg e \<longleftrightarrow> is_aggregate e \<longrightarrow> (\<forall>p. fits p (s_name e) \<longrightarrow>
     config_setting_copy_aggregate scfg dcfg (Some p) e = Some (Some (append_elem p (copied (stored_name p (s_name e)) e))))"

lemma simple_copies:
  "copies scfg dcfg e \<Longrightarrow> fits p (s_name e) \<Longrightarrow>
   config_setting_copy_simple scfg dcfg (Some p) e = Some (Some (append_elem p (copied (stored_name p (s_name e)) e)))"
  by (simp add: copies_def config_setting_copy_simple.simps copy_scalar_fits)

lemma group_fits:
  assumes "\<And>x. x \<in> set acc \<Longrightarrow> s_name x \<noteq> s_name e"
    "\<And>x. x \<in> insert e (set acc) \<Longrightarrow> \<exists>n. s_name x = Some n \<and> config_validate_name n"
  shows "fits (agg nm CONFIG_TYPE_GROUP acc) (s_name e)"
proof -
  obtain n where n: "s_name e = Some n" "config_validate_name n" using assms(2) by blast
  have "config_list_search acc n = None"
    unfolding config_list_search_None using assms n by (metis insert_iff name_part_valid option.inject)
  then show ?thesis using n by (simp add: fits_def config_setting_get_member_def)
qed

lemma copy_group_elements:
  assumes "\<And>e. e \<in> set es \<Longrightarrow> copies scfg dcfg e" "distinct (map s_name (acc @ es))"
    "\<And>x. x \<in> set (acc @ es) \<Longrightarrow> \<exists>n. s_name x = Some n \<and> config_validate_name n"
  shows "copy_elements scfg dcfg True (Some (agg nm CONFIG_TYPE_GROUP acc)) es
    = Some (Some (agg nm CONFIG_TYPE_GROUP (acc @ map (\<lambda>e. copied (s_name e) e) es)))"
  using assms
proof (induction es arbitrary: acc)
  case Nil
  then show ?case by (simp add: copy_elements.simps)
next
  case (Cons e es)
  have f: "fits (agg nm CONFIG_TYPE_GROUP acc) (s_name e)"
    using Cons.prems(2,3) by (intro group_fits) (auto, metis imageI)
  let ?acc = "acc @ [copied (s_name e) e]"
  have "distinct (map s_name (?acc @ es))" "\<And>x. x \<in> set (?acc @ es) \<Longrightarrow> \<exists>n. s_name x = Some n \<and> config_validate_name n"
    using Cons.prems(2,3) by auto
  then show ?case
    using Cons.IH [of ?acc] Cons.prems(1) simple_copies [OF Cons.prems(1) f]
    by (subst copy_elements.simps) (simp add: stored_name_def)
qed

lemma copy_vector_elements:
  assumes t: "t = CONFIG_TYPE_LIST \<or> t = CONFIG_TYPE_ARRAY" and "\<And>e. e \<in> set es \<Longrightarrow> copies scfg dcfg e"
    "t = CONFIG_TYPE_ARRAY \<Longrightarrow> \<forall>x \<in> set (acc @ es). is_scalar (s_type x) \<and> s_type x = u"
  shows "copy_elements scfg dcfg False (Some (agg nm t acc)) es
    = Some (Some (agg nm t (acc @ map (copied None) (filter (\<lambda>e. s_type e \<noteq> CONFIG_TYPE_NONE) es))))"
  using assms(2,3)
proof (induction es arbitrary: acc)
  case Nil
  then show ?case by (simp add: copy_elements.simps)
next
  case (Cons e es)
  let ?acc = "if s_type e = CONFIG_TYPE_NONE then acc else acc @ [copied None e]"
  have f: "fits (agg nm t acc) (s_name e)" using t by (auto simp: fits_def)
  have n: "stored_name (agg nm t acc) (s_name e) = None" using t by (auto simp: stored_name_def)
  have "config_setting_copy_elem scfg dcfg (Some (agg nm t acc)) e = Some (Some (agg nm t ?acc))"
  proof (cases "is_aggregate e")
    case True
    then show ?thesis using Cons.prems(1) [of e] f n
      by (auto simp: config_setting_copy_elem.simps copies_def is_aggregate_def)
  next
    case False
    have "s_type (agg nm t acc) = CONFIG_TYPE_ARRAY \<Longrightarrow> elems (agg nm t acc) \<noteq> [] \<Longrightarrow> s_type (elems (agg nm t acc) ! 0) = s_type e"
      using Cons.prems(2) by (cases acc) auto
    from copy_scalar_elem_fits [OF _ this False] t False show ?thesis
      by (auto simp: config_setting_copy_elem.simps copy_scalar_elem_def)
  qed
  then have "copy_elements scfg dcfg False (Some (agg nm t acc)) (e # es) = copy_elements scfg dcfg False (Some (agg nm t ?acc)) es"
    by (subst copy_elements.simps) simp
  also have "... = Some (Some (agg nm t (?acc @ map (copied None) (filter (\<lambda>e. s_type e \<noteq> CONFIG_TYPE_NONE) es))))"
    using Cons.prems by (intro Cons.IH) auto
  finally show ?case by (cases "s_type e = CONFIG_TYPE_NONE") simp_all
qed

lemma copy_aggregate_copies: "well_typed s \<Longrightarrow> copies scfg dcfg s"
proof (induction s rule: tree_induct)
  case (1 s)
  have e: "copies scfg dcfg e" if "e \<in> set (elems s)" for e
    using 1(1) [OF that] elems_of_aggregate [OF 1(2) that] by blast
  note w = 1(2) [unfolded well_typed_iff [of s]]
  have loop: "copy_elements scfg dcfg (s_type s = CONFIG_TYPE_GROUP) (Some (agg nm (s_type s) [])) (elems s) = Some (Some (copied nm s))"
    if a: "is_aggregate s" for nm
  proof (cases "s_type s = CONFIG_TYPE_GROUP")
    case True
    then show ?thesis
      using copy_group_elements [of "elems s" scfg dcfg "[]" nm, OF e] w
      by (simp add: copied.simps [of nm s] agg_def names_ok_def CONFIG_FORMAT_DEFAULT_def)
  next
    case False
    then have t: "s_type s = CONFIG_TYPE_LIST \<or> s_type s = CONFIG_TYPE_ARRAY" using a by (auto simp: is_aggregate_def)
    have "copy_elements scfg dcfg False (Some (agg nm (s_type s) [])) (elems s)
        = Some (Some (agg nm (s_type s) ([] @ map (copied None) (filter (\<lambda>e. s_type e \<noteq> CONFIG_TYPE_NONE) (elems s)))))"
      using w by (intro copy_vector_elements [OF t e, where u = "s_type (elems s ! 0)"]) (auto simp: scalars_def)
    then show ?thesis
      using t False by (auto simp: copied.simps [of nm s] agg_def CONFIG_FORMAT_DEFAULT_def)
  qed
  show ?case
    unfolding copies_def
  proof (intro impI allI)
    fix p assume "is_aggregate s" "fits p (s_name s)"
    then show "config_setting_copy_aggregate scfg dcfg (Some p) s = Some (Some (append_elem p (copied (stored_name p (s_name s)) s)))"
      by (simp add: config_setting_copy_aggregate.simps add_fits loop)
  qed
qed

text \<open>Copying to NULL does nothing, and crashes on the first scalar.\<close>

function scalar_below :: "config_setting \<Rightarrow> bool" where
  "scalar_below s = (if is_aggregate s then \<exists>e \<in> set (elems s). scalar_below e else s_type s \<noteq> CONFIG_TYPE_NONE)"
  by pat_completeness auto
termination
  by (relation "measure size") (auto dest: elem_size)

declare scalar_below.simps [simp del]

lemma add_null: "config_setting_add None nm (config_setting_type s) = Some (None, None)"
  by (simp add: config_setting_add_def config_setting_type_def type_code_inv)

lemma copy_elements_null:
  assumes "\<And>e. e \<in> set es \<Longrightarrow> is_aggregate e \<Longrightarrow>
    config_setting_copy_aggregate scfg dcfg None e = (if scalar_below e then None else Some None)"
  shows "copy_elements scfg dcfg grp None es = (if \<exists>e \<in> set es. scalar_below e then None else Some None)"
  using assms
proof (induction es)
  case Nil
  then show ?case by (simp add: copy_elements.simps)
next
  case (Cons e es)
  have "(if grp then config_setting_copy_simple scfg dcfg None e else config_setting_copy_elem scfg dcfg None e)
      = (if scalar_below e then None else Some None)"
    using Cons.prems [of e]
    by (auto simp: config_setting_copy_simple.simps config_setting_copy_elem.simps copy_scalar_def copy_scalar_elem_def
        add_null scalar_below.simps [of e])
  then show ?case using Cons by (subst copy_elements.simps) simp
qed

lemma copy_aggregate_null:
  "is_aggregate s \<Longrightarrow> config_setting_copy_aggregate scfg dcfg None s = (if scalar_below s then None else Some None)"
proof (induction s rule: tree_induct)
  case (1 s)
  then have "copy_elements scfg dcfg grp None (elems s) = (if \<exists>e \<in> set (elems s). scalar_below e then None else Some None)" for grp
    by (intro copy_elements_null) auto
  then show ?case using 1(2) by (simp add: config_setting_copy_aggregate.simps add_null scalar_below.simps [of s])
qed

text \<open>A group that does not take the name.\<close>

lemma copy_refused:
  assumes "s_type p = CONFIG_TYPE_GROUP" "s_name s = Some n" "\<not> fits p (Some n)"
  shows "(if is_aggregate s then config_setting_copy_aggregate scfg dcfg (Some p) s else config_setting_copy_simple scfg dcfg (Some p) s)
    = (if scalar_below s then None else Some (Some p))"
proof -
  have a: "config_setting_add (Some p) (s_name s) (config_setting_type s) = Some (Some p, None)"
    using assms by (auto simp: fits_def config_setting_add_def config_setting_type_def type_code_inv)
  have "copy_elements scfg dcfg grp None (elems s) = (if \<exists>e \<in> set (elems s). scalar_below e then None else Some None)" for grp
    by (intro copy_elements_null copy_aggregate_null)
  then show ?thesis
    using a by (auto simp: config_setting_copy_aggregate.simps config_setting_copy_simple.simps copy_scalar_def scalar_below.simps [of s])
qed

lemma tag_list_value: "t \<in> {CONFIG_TYPE_GROUP, CONFIG_TYPE_LIST, CONFIG_TYPE_ARRAY} \<Longrightarrow> tag_ok t (list_value xs)"
  by (auto simp: list_value_def)

lemma elems_copied: "elems (copied nm s) =
    (if s_type s = CONFIG_TYPE_GROUP then map (\<lambda>e. copied (s_name e) e) (elems s)
     else if is_aggregate s then map (copied None) (filter (\<lambda>e. s_type e \<noteq> CONFIG_TYPE_NONE) (elems s)) else [])"
  by (cases "s_type s") (auto simp: copied.simps [of nm s] elems_def list_ptr_def list_value_def is_aggregate_def string_value_def
      split: option.split)

lemma well_typed_copied: "well_typed s \<Longrightarrow> well_typed (copied nm s)"
proof (induction s arbitrary: nm rule: tree_induct)
  case (1 s)
  note w = 1(2) [unfolded well_typed_iff [of s]]
  have "well_typed (copied n e)" if "e \<in> set (elems s)" for n e
    using 1(1) [OF that] elems_of_aggregate [OF 1(2) that] by blast
  then have e: "\<forall>x \<in> set (elems (copied nm s)). well_typed x" by (auto simp: elems_copied)
  have t: "tag_ok (s_type s) (s_value (copied nm s))"
    by (cases "s_type s") (simp_all add: copied.simps [of nm s] tag_list_value string_value_def split: option.split)
  have n: "names_ok (s_type s) (elems (copied nm s))"
    using w by (auto simp: names_ok_def elems_copied o_def)
  have "scalars (elems (copied nm s))" if "s_type s = CONFIG_TYPE_ARRAY"
  proof -
    have sc: "\<forall>x \<in> set (elems s). is_scalar (s_type x) \<and> s_type x = s_type (elems s ! 0)"
      using w that unfolding scalars_def by blast
    then have "filter (\<lambda>e. s_type e \<noteq> CONFIG_TYPE_NONE) (elems s) = elems s"
      by (auto simp: filter_id_conv is_scalar_def)
    then have "elems (copied nm s) = map (copied None) (elems s)" using that by (simp add: elems_copied is_aggregate_def)
    then show ?thesis using sc by (cases "elems s") (auto simp: scalars_def)
  qed
  then show ?case using e t n by (simp add: well_typed_iff [of "copied nm s"])
qed

lemma fits_names:
  "s_type p = CONFIG_TYPE_GROUP \<Longrightarrow> fits p (s_name s) \<Longrightarrow> names_ok CONFIG_TYPE_GROUP (elems p) \<Longrightarrow>
   names_ok CONFIG_TYPE_GROUP (elems p @ [copied (s_name s) s])"
  by (fastforce simp: fits_def names_ok_def config_setting_get_member_def config_list_search_None)

text \<open>
  C20. Copying a setting: into a list or a group that takes its name, the call
  succeeds and appends an equal tree, every value written anew, and the parent
  stays well-typed; into a group that has the name, it crashes, unless there is
  no scalar to copy, when it reports success and has copied nothing; into
  anything else it fails and changes nothing.
\<close>

theorem config_setting_copy_effect:
  assumes "well_typed parent" "well_typed src"
  shows "(s_type parent = CONFIG_TYPE_LIST \<or> s_type parent = CONFIG_TYPE_GROUP \<and> fits parent (s_name src) \<longrightarrow>
      config_setting_copy scfg dcfg parent src
        = Some (append_elem parent (copied (if s_type parent = CONFIG_TYPE_GROUP then s_name src else None) src), True) \<and>
      well_typed (append_elem parent (copied (if s_type parent = CONFIG_TYPE_GROUP then s_name src else None) src))) \<and>
    (s_type parent = CONFIG_TYPE_GROUP \<and> s_name src \<noteq> None \<and> \<not> fits parent (s_name src) \<longrightarrow>
      config_setting_copy scfg dcfg parent src = (if scalar_below src then None else Some (parent, True))) \<and>
    (s_type parent \<noteq> CONFIG_TYPE_GROUP \<and> s_type parent \<noteq> CONFIG_TYPE_LIST \<longrightarrow>
      config_setting_copy scfg dcfg parent src = Some (parent, False))"
proof (intro conjI impI)
  let ?nm = "if s_type parent = CONFIG_TYPE_GROUP then s_name src else None"
  assume p: "s_type parent = CONFIG_TYPE_LIST \<or> s_type parent = CONFIG_TYPE_GROUP \<and> fits parent (s_name src)"
  then have f: "fits parent (s_name src)" by (auto simp: fits_def)
  have "(if is_aggregate src then config_setting_copy_aggregate scfg dcfg (Some parent) src
         else config_setting_copy_simple scfg dcfg (Some parent) src) = Some (Some (append_elem parent (copied ?nm src)))"
    using copy_aggregate_copies [OF assms(2), of scfg dcfg] simple_copies [OF _ f] f by (simp add: copies_def stored_name_def)
  then show "config_setting_copy scfg dcfg parent src = Some (append_elem parent (copied ?nm src), True)"
    using p by (auto simp: config_setting_copy_def)
  note w = assms(1) [unfolded well_typed_iff [of parent]]
  have "names_ok (s_type parent) (elems parent @ [copied ?nm src])"
    using p
  proof
    assume "s_type parent = CONFIG_TYPE_LIST"
    then show ?thesis using w by (auto simp: names_ok_def)
  next
    assume g: "s_type parent = CONFIG_TYPE_GROUP \<and> fits parent (s_name src)"
    then show ?thesis using w fits_names [OF _ f] by simp
  qed
  then show "well_typed (append_elem parent (copied ?nm src))"
    unfolding append_elem_def using w well_typed_copied [OF assms(2)] p
    by (intro well_typed_set_list) (auto simp: is_aggregate_def)
next
  assume "s_type parent = CONFIG_TYPE_GROUP \<and> s_name src \<noteq> None \<and> \<not> fits parent (s_name src)"
  then show "config_setting_copy scfg dcfg parent src = (if scalar_below src then None else Some (parent, True))"
    using copy_refused [of parent src _ scfg dcfg] by (auto simp: config_setting_copy_def)
next
  assume "s_type parent \<noteq> CONFIG_TYPE_GROUP \<and> s_type parent \<noteq> CONFIG_TYPE_LIST"
  then show "config_setting_copy scfg dcfg parent src = Some (parent, False)" by (simp add: config_setting_copy_def)
qed

definition copy_source :: config_setting where
  "copy_source = Setting (Some ''window'') CONFIG_TYPE_GROUP 0
     (VList [Setting (Some ''width'') CONFIG_TYPE_INT 1 (VIval 640) None 3 None,
             Setting (Some ''tags'') CONFIG_TYPE_LIST 0 (VList [Setting None CONFIG_TYPE_STRING 0 (VSval ''a'') None 4 None]) None 4 None])
     None 2 None"

definition copy_target :: config_setting where
  "copy_target = Setting (Some ''grp1'') CONFIG_TYPE_GROUP 0
     (VList [Setting (Some ''window'') CONFIG_TYPE_BOOL 0 (VIval 1) None 7 None]) None 6 None"

theorem config_setting_copy_effect_witness:
  "config_setting_copy config_init config_init copy_target copy_source = None \<and>
   config_setting_copy config_init config_init (new_setting (Some ''grp1'') CONFIG_TYPE_GROUP) copy_source
     = Some (append_elem (new_setting (Some ''grp1'') CONFIG_TYPE_GROUP) (copied (Some ''window'') copy_source), True)"
proof -
  have t: "well_typed copy_target" "well_typed copy_source" by code_simp+
  have n: "s_type copy_target = CONFIG_TYPE_GROUP" "s_name copy_source = Some ''window''"
    by (simp_all add: copy_target_def copy_source_def)
  have "config_setting_get_member copy_target ''window'' = Some 0" by code_simp
  then have f: "\<not> fits copy_target (s_name copy_source)" using n by (simp add: fits_def)
  have s: "scalar_below copy_source"
    unfolding scalar_below.simps [of copy_source]
    by (simp add: copy_source_def is_aggregate_def elems_def list_ptr_def scalar_below.simps)
  have "config_validate_name ''window''" by code_simp
  then have g: "fits (new_setting (Some ''grp1'') CONFIG_TYPE_GROUP) (s_name copy_source)"
    using n(2) by (simp add: fits_def config_setting_get_member_def)
  show ?thesis
    using config_setting_copy_effect [OF t, of config_init config_init] n f s
      config_setting_copy_effect [OF well_typed_new t(2), of "Some ''grp1''" CONFIG_TYPE_GROUP config_init config_init] g
    by (simp del: agg_simps)
qed

end
