(* ===== verification/ConfigCpp.thy ===== *)
theory ConfigCpp
  imports ConfigIO
begin

text \<open>
  Class \<open>Config\<close> of the C++ interface and the rest of class \<open>Setting\<close>
  (\<open>lib/libconfigcpp.c++\<close>, \<open>lib/libconfig.h++\<close>): options, reading and writing
  with exceptions, and the attributes of settings.
\<close>

section \<open>Exceptions\<close>

definition what :: "cfg_exn \<Rightarrow> string" where
  "what e =
     (case e of
        SettingTypeException p \<Rightarrow> ''SettingTypeException''
      | SettingNotFoundException p \<Rightarrow> ''SettingNotFoundException''
      | SettingNameException p \<Rightarrow> ''SettingNameException''
      | ParseException f l t \<Rightarrow> ''ParseException''
      | FileIOException \<Rightarrow> ''FileIOException'')"

section \<open>Configurations and their options\<close>

text \<open>The C configuration, and the format the object remembers itself.\<close>

record Config =
  c_config :: config
  c_defaultFormat :: int

definition Config_new :: Config where
  "Config_new = \<lparr>c_config = config_set_destructor config_init True, c_defaultFormat = CONFIG_FORMAT_DEFAULT\<rparr>"

definition setAutoConvert :: "bool \<Rightarrow> Config \<Rightarrow> Config" where
  "setAutoConvert flag c = c\<lparr>c_config := config_set_auto_convert (c_config c) flag\<rparr>"

definition getAutoConvert :: "Config \<Rightarrow> bool" where
  "getAutoConvert c = config_get_auto_convert (c_config c)"

definition setDefaultFormat :: "int \<Rightarrow> Config \<Rightarrow> Config" where
  "setDefaultFormat format c =
     (let f = (if format = CONFIG_FORMAT_HEX then CONFIG_FORMAT_HEX else CONFIG_FORMAT_DEFAULT)
      in c\<lparr>c_defaultFormat := f, c_config := config_set_default_format (c_config c) f\<rparr>)"

definition getDefaultFormat :: "Config \<Rightarrow> int" where
  "getDefaultFormat c = c_defaultFormat c"

definition setTabWidth :: "16 word \<Rightarrow> Config \<Rightarrow> Config" where
  "setTabWidth width c = c\<lparr>c_config := config_set_tab_width (c_config c) width\<rparr>"

definition getTabWidth :: "Config \<Rightarrow> 16 word" where
  "getTabWidth c = tab_width (c_config c)"

definition setIncludeDir :: "string \<Rightarrow> Config \<Rightarrow> Config" where
  "setIncludeDir dir c = c\<lparr>c_config := config_set_include_dir (c_config c) dir\<rparr>"

definition getIncludeDir :: "Config \<Rightarrow> string option" where
  "getIncludeDir c = include_dir (c_config c)"

section \<open>Reading and writing\<close>

text \<open>
  A call of the C function, then \<open>handleError\<close> if it failed: the object
  after the call, with the exception if one is thrown.
\<close>

definition or_throw :: "Config \<Rightarrow> (config \<times> nat list \<times> bool) option \<Rightarrow> (Config \<times> (cfg_exn + unit)) option" where
  "or_throw c result =
     (case result of
        None \<Rightarrow> None
      | Some (config, hooks, ok) \<Rightarrow> Some (c\<lparr>c_config := config\<rparr>, if ok then Inr () else handleError config))"

definition Config_read :: "nat \<Rightarrow> (string \<Rightarrow> string option) \<Rightarrow> Config \<Rightarrow> string \<Rightarrow> (Config \<times> (cfg_exn + unit)) option" where
  "Config_read fuel fopen c input = or_throw c (config_read fuel fopen (c_config c) input)"

definition Config_readString :: "nat \<Rightarrow> (string \<Rightarrow> string option) \<Rightarrow> Config \<Rightarrow> string \<Rightarrow> (Config \<times> (cfg_exn + unit)) option" where
  "Config_readString fuel fopen c str = or_throw c (config_read_string fuel fopen (c_config c) str)"

definition Config_readFile :: "nat \<Rightarrow> (string \<Rightarrow> string option) \<Rightarrow> Config \<Rightarrow> string \<Rightarrow> (Config \<times> (cfg_exn + unit)) option" where
  "Config_readFile fuel fopen c filename = or_throw c (config_read_file fuel fopen (c_config c) filename)"

definition Config_write :: "Config \<Rightarrow> string" where
  "Config_write c = config_write (c_config c)"

definition Config_writeFile :: "(string \<Rightarrow> bool) \<Rightarrow> Config \<Rightarrow> string \<Rightarrow> Config \<times> string option \<times> (cfg_exn + unit)" where
  "Config_writeFile can_open c filename =
     (case config_write_file can_open (c_config c) filename of
        (config, written, ok) \<Rightarrow> (c\<lparr>c_config := config\<rparr>, written, if ok then Inr () else handleError config))"

definition getRoot :: "Config \<Rightarrow> nat list" where
  "getRoot c = []"

section \<open>Attributes of settings\<close>

definition getType :: "config \<Rightarrow> nat list \<Rightarrow> ctype" where
  "getType cfg ip = s_type (node cfg ip)"

definition isGroup :: "config \<Rightarrow> nat list \<Rightarrow> bool" where
  "isGroup cfg ip \<longleftrightarrow> getType cfg ip = CONFIG_TYPE_GROUP"

definition isArray :: "config \<Rightarrow> nat list \<Rightarrow> bool" where
  "isArray cfg ip \<longleftrightarrow> getType cfg ip = CONFIG_TYPE_ARRAY"

definition isList :: "config \<Rightarrow> nat list \<Rightarrow> bool" where
  "isList cfg ip \<longleftrightarrow> getType cfg ip = CONFIG_TYPE_LIST"

text \<open>The order of the enumeration \<open>Type\<close>: none, the scalar types, the aggregate types.\<close>

definition type_rank :: "ctype \<Rightarrow> nat" where
  "type_rank t =
     (case t of
        CONFIG_TYPE_NONE \<Rightarrow> 0 | CONFIG_TYPE_INT \<Rightarrow> 1 | CONFIG_TYPE_INT64 \<Rightarrow> 2 | CONFIG_TYPE_FLOAT \<Rightarrow> 3
      | CONFIG_TYPE_STRING \<Rightarrow> 4 | CONFIG_TYPE_BOOL \<Rightarrow> 5
      | CONFIG_TYPE_GROUP \<Rightarrow> 6 | CONFIG_TYPE_ARRAY \<Rightarrow> 7 | CONFIG_TYPE_LIST \<Rightarrow> 8)"

definition isAggregate :: "config \<Rightarrow> nat list \<Rightarrow> bool" where
  "isAggregate cfg ip \<longleftrightarrow> 6 \<le> type_rank (getType cfg ip)"

definition isScalar :: "config \<Rightarrow> nat list \<Rightarrow> bool" where
  "isScalar cfg ip \<longleftrightarrow> 0 < type_rank (getType cfg ip) \<and> type_rank (getType cfg ip) < 6"

lemma kinds_of_settings:
  "isAggregate cfg ip \<longleftrightarrow> is_aggregate (node cfg ip)" "isScalar cfg ip \<longleftrightarrow> is_scalar (s_type (node cfg ip))"
  by (cases "s_type (node cfg ip)";
      simp add: isAggregate_def isScalar_def getType_def type_rank_def is_aggregate_def is_scalar_def)+

definition getPath :: "config \<Rightarrow> nat list \<Rightarrow> string" where
  "getPath cfg ip = constructPath (root cfg) ip"

definition getIndex :: "config \<Rightarrow> nat list \<Rightarrow> int" where
  "getIndex cfg ip = config_setting_index (root cfg) ip"

definition getSourceLine :: "config \<Rightarrow> nat list \<Rightarrow> nat" where
  "getSourceLine cfg ip = s_line (node cfg ip)"

definition getSourceFile :: "config \<Rightarrow> nat list \<Rightarrow> string option" where
  "getSourceFile cfg ip = s_file (node cfg ip)"

text \<open>
  The conversion to \<open>float\<close>, given by the \<open>double\<close> of the same value: 24
  significant bits, exponent at least -149, ties to even, overflow to infinity.
\<close>

definition float_of_double :: "cdouble \<Rightarrow> cdouble" where
  "float_of_double d =
     (case d of
        Finite s m e \<Rightarrow>
          (let k = max (int (bitlen m) - 24) (- 149 - e)
           in if m = 0 then d
              else if k \<le> 0 then (if 128 < int (bitlen m) + e then Infinity s else d)
              else let m' = round_half_even m (2 ^ nat k)
                   in if 128 < int (bitlen m') + e + k then Infinity s
                      else case reduce m' (e + k) of (m'', e'') \<Rightarrow> Finite s m'' e'')
      | _ \<Rightarrow> d)"

definition as_float :: "config \<Rightarrow> nat list \<Rightarrow> cfg_exn + cdouble" where
  "as_float cfg ip =
     bindE (assertType cfg ip CONFIG_TYPE_FLOAT) (\<lambda>_. Inr (float_of_double (config_setting_get_float cfg (node cfg ip))))"

section \<open>Reading answers\<close>

text \<open>
  A read either delivers a well-typed configuration or throws, and what it
  throws says what went wrong; a file that cannot be opened leaves the settings
  as they are.
\<close>

definition brackets_fit :: "(string \<Rightarrow> string option) \<Rightarrow> config \<Rightarrow> string option \<Rightarrow> string \<Rightarrow> bool" where
  "brackets_fit fopen config filename input \<longleftrightarrow>
     (\<forall>k. (\<forall>i<k. lex_token (token_at (flex_lexer fopen) i (read_scanner config filename input)) \<noteq> 0) \<longrightarrow>
       openers (flex_lexer fopen) k (read_scanner config filename input) \<le> MAX_NEST)"

lemma readFile_answers:
  assumes "well_typed (root (c_config c))" "\<forall>input. fopen name = Some input \<longrightarrow> brackets_fit fopen (c_config c) (Some name) input"
  shows "\<exists>fuel c' r. Config_readFile fuel fopen c name = Some (c', r) \<and> well_typed (root (c_config c')) \<and>
    (case fopen name of
       None \<Rightarrow> r = Inl FileIOException \<and> root (c_config c') = root (c_config c)
     | Some input \<Rightarrow>
         if refused fopen (c_config c) (Some name) input then \<exists>f l t. r = Inl (ParseException f l (Some t)) else r = Inr ())"
proof (cases "fopen name")
  case None
  then show ?thesis using assms(1)
    by (simp add: Config_readFile_def config_read_file_def or_throw_def handleError_def)
next
  case (Some input)
  then have "brackets_fit fopen (c_config c) (Some name) input" using assms(2) by simp
  from read_result [OF this [unfolded brackets_fit_def]] obtain fuel config' ok where
    r: "config_read_with fuel fopen (c_config c) (Some name) input = Some (config', config_destroy (c_config c), ok)"
    "well_typed (root config')" "\<not> ok \<longrightarrow> error_type config' = CONFIG_ERR_PARSE \<and> error_text config' \<noteq> None"
    "ok \<longleftrightarrow> \<not> refused fopen (c_config c) (Some name) input"
    by blast
  then show ?thesis using Some
    by (intro exI [of _ fuel]) (auto simp: Config_readFile_def config_read_file_def or_throw_def handleError_def)
qed

end
