(* ===== verification/Startup.thy ===== *)
theory Startup
  imports ConfigCpp ReadBack Monitor
begin

text \<open>
  The start of the program from its configuration file: \<open>load_conf\<close> and \<open>main\<close>
  (\<open>src/monitor.cpp\<close>) on top of the reader of libconfig, from the text of the
  file to the alert rules.
\<close>

section \<open>Loading the file\<close>

definition CFG_PATH :: string where
  "CFG_PATH = ''/usr/local/lib/libmoncfg.a''"

text \<open>What the loaders work on: the configuration, or the exception \<open>readFile\<close> threw.\<close>

definition read_conf :: "nat \<Rightarrow> (string \<Rightarrow> string option) \<Rightarrow> (cfg_exn + config) option" where
  "read_conf fuel fopen =
     map_option (\<lambda>(cfg, r). bindE r (\<lambda>_. Inr (c_config cfg))) (Config_readFile fuel fopen Config_new CFG_PATH)"

definition load_conf_file :: "nat \<Rightarrow> (string \<Rightarrow> string option) \<Rightarrow> ('db, 'a) traversal \<Rightarrow> (string \<Rightarrow> regmap \<Rightarrow> regmap) \<Rightarrow>
    mailman \<Rightarrow> ('db, 'a) watcher \<Rightarrow> (mailman \<times> ('db, 'a) watcher \<times> action list) loaded option" where
  "load_conf_file fuel fopen trav hins m w = map_option (\<lambda>rd. load_conf trav hins rd m w) (read_conf fuel fopen)"

definition start_monitor :: "nat \<Rightarrow> (string \<Rightarrow> string option) \<Rightarrow> ('db, 'a) traversal \<Rightarrow> (string \<Rightarrow> regmap \<Rightarrow> regmap) \<Rightarrow>
    mailman \<Rightarrow> (bool \<Rightarrow> ('db, 'a) watcher) \<Rightarrow> string list \<Rightarrow> system \<Rightarrow> word32 \<Rightarrow> (effect list \<times> run_end) option" where
  "start_monitor fuel fopen trav hins m w argv sys own =
     map_option (\<lambda>rd. monitor_main argv sys own (\<lambda>skip. load_conf trav hins rd m (w skip))) (read_conf fuel fopen)"

text \<open>
  The directory of the program's own file, from the link \<open>/proc/self/exe\<close>; no
  part of the program calls it.  The terminating NUL overwrites the last
  character of the link, which the directory does not contain.
\<close>

definition get_abspath :: "string option \<Rightarrow> string option" where
  "get_abspath link =
     (case link of
        None \<Rightarrow> None
      | Some target \<Rightarrow>
          (let n = min PATH_MAX (length target); buf = take (n - 1) target
           in if 0 < n \<and> n < PATH_MAX
              then Some (if CHR ''/'' \<in> set buf then rev (tl (dropWhile (\<lambda>c. c \<noteq> CHR ''/'') (rev buf))) else buf)
              else None))"

section \<open>Views of a tree\<close>

lemma small_iff: "small s \<longleftrightarrow> length (elems s) < 2 ^ 31 \<and> (\<forall>e \<in> set (elems s). small e)"
  by (cases s) (auto simp: elems_def list_ptr_def split: config_value.splits)

text \<open>
  A function on settings that keeps the types, the names, the elements and the
  texts: the loaders of the rules cannot tell its result from its argument.
\<close>

locale tree_view =
  fixes view :: "config_setting \<Rightarrow> config_setting" and ok :: "config_setting \<Rightarrow> bool"
  assumes view_type: "ok s \<Longrightarrow> s_type (view s) = s_type s"
    and view_name: "ok s \<Longrightarrow> s_name (view s) = s_name s"
    and view_elems: "ok s \<Longrightarrow> elems (view s) = map view (elems s)"
    and view_text: "ok s \<Longrightarrow> str_of (view s) = str_of s"
    and ok_elem: "ok s \<Longrightarrow> e \<in> set (elems s) \<Longrightarrow> ok e"
begin

lemma view_search: "(\<And>e. e \<in> set es \<Longrightarrow> ok e) \<Longrightarrow> config_list_search (map view es) name = config_list_search es name"
  by (induction es) (auto simp: view_name split: option.split)

lemma view_get_member: "ok s \<Longrightarrow> config_setting_get_member (view s) name = config_setting_get_member s name"
  by (simp add: config_setting_get_member_def view_type view_elems view_search ok_elem)

lemma view_member: "ok s \<Longrightarrow> member_of (view s) name = map_option view (member_of s name)"
  using get_member_bound [of s name]
  by (cases "config_setting_get_member s name") (simp_all add: member_of_def view_get_member view_elems)

lemma ok_member:
  assumes "ok s" "member_of s name = Some v"
  shows "ok v"
proof -
  obtain k where k: "config_setting_get_member s name = Some k" "v = elems s ! k" using assms(2) by (auto simp: member_of_def)
  show ?thesis using ok_elem [OF assms(1)] get_member_bound [OF k(1)] k(2) by simp
qed

lemma view_items: "ok s \<Longrightarrow> items (view s) = map view (items s)"
  by (simp add: items_def view_type view_elems)

lemma ok_item: "ok s \<Longrightarrow> e \<in> set (items s) \<Longrightarrow> ok e"
  using ok_elem by (auto simp: items_def split: if_splits)

lemma view_strs:
  assumes "ok s"
  shows "strs (view s) name = strs s name"
proof (cases "member_of s name")
  case None
  then show ?thesis using assms by (simp add: strs_def view_member)
next
  case (Some v)
  have v: "ok v" using ok_member [OF assms Some] .
  then have "\<forall>e \<in> set (items v). str_of (view e) = str_of e" using ok_item view_text by blast
  then show ?thesis using assms Some v by (simp add: strs_def view_member view_items)
qed

lemma view_small: "ok s \<Longrightarrow> small (view s) = small s"
proof (induction s rule: tree_induct)
  case (1 s)
  have "\<forall>e \<in> set (elems s). small (view e) = small e" using 1 ok_elem [OF 1(2)] by blast
  then show ?case using small_iff [of s] small_iff [of "view s"] view_elems [OF 1(2)] by simp
qed

lemma view_checks: "ok (root c) \<Longrightarrow> root c' = view (root c) \<Longrightarrow> checks_of c' = map view (checks_of c)"
proof -
  assume c: "ok (root c)" "root c' = view (root c)"
  show ?thesis
  proof (cases "member_of (root c) ''checks''")
    case None
    then show ?thesis using c by (simp add: checks_of_def view_member)
  next
    case (Some v)
    have v: "ok v" using ok_member [OF c(1) Some] .
    have "filter (\<lambda>e. member_of e ''path'' \<noteq> None) (map view es) = map view (filter (\<lambda>e. member_of e ''path'' \<noteq> None) es)"
      if "\<And>e. e \<in> set es \<Longrightarrow> ok e" for es
      using that by (induction es) (auto simp: view_member)
    from this [of "items v"] show ?thesis using c Some v ok_item [OF v] by (simp add: checks_of_def view_member view_items)
  qed
qed

lemma ok_check:
  assumes "ok (root c)" "e \<in> set (checks_of c)"
  shows "ok e"
proof -
  obtain v where v: "member_of (root c) ''checks'' = Some v" "e \<in> set (items v)"
    using assms(2) by (cases "member_of (root c) ''checks''") (auto simp: checks_of_def)
  show ?thesis by (rule ok_item [OF ok_member [OF assms(1) v(1)] v(2)])
qed

lemma view_listed:
  assumes "ok (root c)" "root c' = view (root c)"
  shows "listed c' = map (\<lambda>(p, check). (p, view check)) (listed c)"
proof -
  have "concat (map (\<lambda>check. map (\<lambda>p. (p, check)) (strs check ''path'')) (map view es)) =
      map (\<lambda>(p, check). (p, view check)) (concat (map (\<lambda>check. map (\<lambda>p. (p, check)) (strs check ''path'')) es))"
    if "\<And>e. e \<in> set es \<Longrightarrow> ok e" for es
    using that by (induction es) (auto simp: view_strs)
  from this [of "checks_of c"] show ?thesis
    using ok_check [OF assms(1)] by (simp only: listed_def view_checks [OF assms])
qed

lemma view_configured:
  assumes "ok (root c)" "root c' = view (root c)"
  shows "configured c' level p = configured c level p"
proof -
  have "last_check c' p = map_option view (last_check c p)"
    by (simp add: last_check_def view_listed [OF assms] rev_map map_of_map)
  moreover have "actions_for c' (view e) n = actions_for c e n" if "last_check c p = Some e" for e n
  proof -
    have "e \<in> set (checks_of c)" using that by (auto simp: last_check_def listed_def dest: map_of_SomeD)
    then show ?thesis using ok_check [OF assms(1)] assms by (simp add: actions_for_def view_strs)
  qed
  ultimately show ?thesis by (cases "last_check c p") (simp_all add: configured_def)
qed

lemma view_nearest: "ok (root c) \<Longrightarrow> root c' = view (root c) \<Longrightarrow> nearest c' level dir p acts = nearest c level dir p acts"
  by (simp add: nearest_def view_configured)

end

text \<open>Reading drops positions, writing makes formats explicit: both are views.\<close>

lemma elems_list_value: "elems (Setting n t f (list_value xs) h l fl) = xs"
  by (simp add: list_value_def elems_def list_ptr_def)

interpretation erased: tree_view erase "\<lambda>_. True"
proof
  fix s
  show "s_type (erase s) = s_type s" "s_name (erase s) = s_name s" by (cases s; simp)+
  show "elems (erase s) = map erase (elems s)" "str_of (erase s) = str_of s"
    by (cases s; simp add: elems_def list_ptr_def str_of_def sval_def split: config_value.split)+
qed simp

interpretation rewritten: tree_view "canonical cfg" well_typed for cfg
proof
  fix s assume w: "well_typed s"
  note c = canonical.simps [of cfg s]
  show "s_type (canonical cfg s) = s_type s" "s_name (canonical cfg s) = s_name s" by (simp_all add: c)
  have t: "tag_ok (s_type s) (s_value s)" using w well_typed_iff [of s] by simp
  show "elems (canonical cfg s) = map (canonical cfg) (elems s)"
    using t by (cases "s_type s"; cases "s_value s") (auto simp: c elems_list_value, auto simp: elems_def list_ptr_def)
  show "str_of (canonical cfg s) = str_of s"
    using t by (cases "s_type s"; cases "s_value s") (auto simp: c str_of_def sval_def string_contents_def list_value_def)
  show "well_typed e" if "e \<in> set (elems s)" for e using elems_of_aggregate [OF w that] by simp
qed

section \<open>Properties\<close>

text \<open>
  C4. From the text of the configuration file to the alerts: when the file holds
  what \<open>config_write\<close> makes of a well-typed tree, the start reads it, and once
  the rules are loaded an alert runs the actions that this tree names for the
  nearest configured path, and none without such a path.
\<close>

theorem alerts_from_file:
  assumes "well_typed (root cfg)" "s_type (root cfg) = CONFIG_TYPE_GROUP" "s_name (root cfg) = None"
    "expressible (root cfg)" "nesting (root cfg) \<le> MAX_NEST" "small (root cfg)" "fopen CFG_PATH = Some (config_write cfg)"
  shows "\<exists>fuel read. read_conf fuel fopen = Some (Inr read) \<and>
    (\<forall>a level dir name. load_alerter read (init_action empty_alerter) = Inr a \<longrightarrow> level \<in> {CREATED, CHANGED, DELETED} \<longrightarrow>
       (\<forall>p act. nearest cfg level dir p act \<longrightarrow> alert a level dir name = calls_for act level dir name) \<and>
       ((\<nexists>p act. nearest cfg level dir p act) \<longrightarrow> alert a level dir name = []))"
proof -
  obtain fuel read where r: "config_read_with fuel fopen (c_config Config_new) (Some CFG_PATH) (config_write cfg)
      = Some (read, config_destroy (c_config Config_new), True)" "erase (root read) = canonical cfg (root cfg)"
    using reads_back [OF assms(1-5)] by blast
  define mid where "mid = cfg\<lparr>root := canonical cfg (root cfg)\<rparr>"
  have m: "root mid = canonical cfg (root cfg)" "root mid = erase (root read)" using r(2) by (simp_all add: mid_def)
  have n: "nearest read level dir p act = nearest cfg level dir p act" for level dir p act
    using rewritten.view_nearest [OF assms(1) m(1)] erased.view_nearest [OF TrueI m(2)] by simp
  have "small (root read)"
    using rewritten.view_small [OF assms(1), of cfg] erased.view_small [OF TrueI, of "root read"] r(2) assms(6) by simp
  from alert_nearest [OF this] n
  have "(\<forall>p act. nearest cfg level dir p act \<longrightarrow> alert a level dir name = calls_for act level dir name) \<and>
      ((\<nexists>p act. nearest cfg level dir p act) \<longrightarrow> alert a level dir name = [])"
    if "load_alerter read (init_action empty_alerter) = Inr a" "level \<in> {CREATED, CHANGED, DELETED}" for a level dir name
    using that by simp
  moreover have "read_conf fuel fopen = Some (Inr read)"
    using r(1) assms(7) by (simp add: read_conf_def Config_readFile_def config_read_file_def or_throw_def)
  ultimately show ?thesis by blast
qed

text \<open>
  C17. A start that cannot read its configuration stops.  Whatever the file holds,
  if at most \<open>MAX_NEST\<close> = 1600 brackets are opened before the end of its input,
  reading it answers; it fails exactly if the file is missing or the reference
  parser refuses its tokens, so not for a file that spells a well-formed syntax
  tree; then \<open>load_conf\<close> fails with -1 and \<open>main\<close> returns -1, with the pid file
  already written and not removed.  Whatever is delivered to the loaders is
  well-typed.
\<close>

theorem start_answers:
  assumes "\<forall>input. fopen CFG_PATH = Some input \<longrightarrow> brackets_fit fopen (c_config Config_new) (Some CFG_PATH) input" "\<not> is_running sys"
  shows "\<exists>fuel rd. read_conf fuel fopen = Some rd \<and> (\<forall>cfg. rd = Inr cfg \<longrightarrow> well_typed (root cfg)) \<and>
    (isl rd \<longleftrightarrow> (case fopen CFG_PATH of
       None \<Rightarrow> True
     | Some input \<Rightarrow> refused fopen (c_config Config_new) (Some CFG_PATH) input)) \<and>
    (\<forall>input n ms. fopen CFG_PATH = Some input \<longrightarrow>
       spells_file (flex_lexer fopen) n (read_scanner (c_config Config_new) (Some CFG_PATH) input) ms \<longrightarrow> \<not> isl rd) \<and>
    (isl rd \<longrightarrow> load_conf_file fuel fopen trav hins m w0 = Some (Failed (-1)) \<and>
       start_monitor fuel fopen trav hins m w [prog, ''--start''] sys own
         = Some ([Daemon, Pid_file_written (snd (write_pid_file own sys))], Return (-1)))"
proof -
  have "well_typed (root (c_config Config_new))"
    by (simp add: Config_new_def config_set_destructor_def config_init_def)
  from readFile_answers [OF this assms(1)] obtain fuel c r where
    r: "Config_readFile fuel fopen Config_new CFG_PATH = Some (c, r)" "well_typed (root (c_config c))"
      "case fopen CFG_PATH of
         None \<Rightarrow> r = Inl FileIOException \<and> root (c_config c) = root (c_config Config_new)
       | Some input \<Rightarrow>
           if refused fopen (c_config Config_new) (Some CFG_PATH) input then \<exists>f l t. r = Inl (ParseException f l (Some t)) else r = Inr ()"
    by blast
  define rd where "rd = bindE r (\<lambda>_. Inr (c_config c))"
  have rc: "read_conf fuel fopen = Some rd" using r(1) by (simp add: read_conf_def rd_def)
  have iff: "isl rd \<longleftrightarrow> (case fopen CFG_PATH of None \<Rightarrow> True | Some input \<Rightarrow> refused fopen (c_config Config_new) (Some CFG_PATH) input)"
    using r(3) by (auto simp: rd_def split: option.splits if_splits)
  have fail: "load_conf trav hins rd m w1 = Failed (-1)" if "isl rd" for w1
    using r(3) that by (auto simp: rd_def load_conf_def catch_conf_def cfgE_def split: option.splits if_splits)
  have "load_conf_file fuel fopen trav hins m w0 = Some (Failed (-1)) \<and>
      start_monitor fuel fopen trav hins m w [prog, ''--start''] sys own
        = Some ([Daemon, Pid_file_written (snd (write_pid_file own sys))], Return (-1))" if "isl rd"
    using rc fail [OF that] assms(2) by (auto simp: load_conf_file_def start_monitor_def monitor_main_def split: prod.split)
  moreover have "\<forall>cfg. rd = Inr cfg \<longrightarrow> well_typed (root cfg)" using r(2,3) by (cases r) (auto simp: rd_def)
  moreover have "\<forall>input n ms. fopen CFG_PATH = Some input \<longrightarrow>
       spells_file (flex_lexer fopen) n (read_scanner (c_config Config_new) (Some CFG_PATH) input) ms \<longrightarrow> \<not> isl rd"
    using iff not_refused by fastforce
  ultimately show ?thesis using rc iff by (intro exI [of _ fuel] exI [of _ rd]) (intro conjI; assumption?; blast)
qed

section \<open>Witnesses\<close>

theorem alerts_from_file_witness:
  "\<exists>fuel read. read_conf fuel (\<lambda>_. Some (config_write sample_cfg)) = Some (Inr read) \<and>
    (case load_alerter read (init_action empty_alerter) of
       Inl e \<Rightarrow> True
     | Inr a \<Rightarrow> alert a CHANGED ''/etc/ssh'' ''/etc/ssh/key'' = [(Send_mail, CHANGED, ''/etc/ssh'', ''/etc/ssh/key'')])"
proof -
  have c: "well_typed (root sample_cfg)" "s_type (root sample_cfg) = CONFIG_TYPE_GROUP" "s_name (root sample_cfg) = None"
    "expressible (root sample_cfg)" "nesting (root sample_cfg) \<le> MAX_NEST"
    by code_simp+
  have l: "listed sample_cfg = [(''/etc'', sample_check)]" by code_simp
  have f: "actions_for sample_cfg sample_check (level_name CHANGED) = [''mail'']" by code_simp
  have t: "length (stringtrim ''/etc'') \<noteq> 0" by code_simp
  have n: "nearest sample_cfg CHANGED ''/etc/ssh'' ''/etc'' [''mail'']"
    using t by (auto simp: nearest_def configured_def last_check_def l f covers_def is_sep_def)
  from alerts_from_file [OF c sample_small, of "\<lambda>_. Some (config_write sample_cfg)", OF refl]
  obtain fuel read where r: "read_conf fuel (\<lambda>_. Some (config_write sample_cfg)) = Some (Inr read)"
    and q: "\<forall>a level dir name. load_alerter read (init_action empty_alerter) = Inr a \<longrightarrow> level \<in> {CREATED, CHANGED, DELETED} \<longrightarrow>
       (\<forall>p act. nearest sample_cfg level dir p act \<longrightarrow> alert a level dir name = calls_for act level dir name) \<and>
       ((\<nexists>p act. nearest sample_cfg level dir p act) \<longrightarrow> alert a level dir name = [])"
    by (elim exE conjE)
  have "alert a CHANGED ''/etc/ssh'' ''/etc/ssh/key'' = [(Send_mail, CHANGED, ''/etc/ssh'', ''/etc/ssh/key'')]"
    if "load_alerter read (init_action empty_alerter) = Inr a" for a
  proof -
    have "alert a CHANGED ''/etc/ssh'' ''/etc/ssh/key'' = calls_for [''mail''] CHANGED ''/etc/ssh'' ''/etc/ssh/key''"
      using q [rule_format, OF that, of CHANGED "''/etc/ssh''" "''/etc/ssh/key''"] n by auto
    then show ?thesis by (simp add: calls_for_def)
  qed
  then have "case load_alerter read (init_action empty_alerter) of Inl e \<Rightarrow> True
     | Inr a \<Rightarrow> alert a CHANGED ''/etc/ssh'' ''/etc/ssh/key'' = [(Send_mail, CHANGED, ''/etc/ssh'', ''/etc/ssh/key'')]"
    by (cases "load_alerter read (init_action empty_alerter :: act alerter)") simp_all
  then show ?thesis using r by blast
qed

text \<open>A list of settings that is not closed.\<close>

definition broken_text :: string where
  "broken_text = ''a=[1''"

theorem start_answers_witness:
  "\<exists>fuel. start_monitor fuel (\<lambda>_. Some broken_text) (\<lambda>d r c i w. Some (w, [])) (\<lambda>k m. (k, []) # m)
      \<lparr>m_to = [], m_from = [], m_smtpserver = [], m_username = [], m_password = []\<rparr> (\<lambda>skip. sample_watcher)
      [''zzhelper'', ''--start''] sample_system 7
    = Some ([Daemon, Pid_file_written (snd (write_pid_file 7 sample_system))], Return (-1))"
proof -
  let ?fopen = "\<lambda>_::string. Some broken_text"
  let ?scanner = "read_scanner (c_config Config_new) (Some CFG_PATH) broken_text"
  have "brackets_fit ?fopen (c_config Config_new) (Some CFG_PATH) broken_text"
    unfolding brackets_fit_def
  proof (intro allI impI)
    fix k
    assume a: "\<forall>i<k. lex_token (token_at (flex_lexer ?fopen) i ?scanner) \<noteq> 0"
    have "lex_token (token_at (flex_lexer ?fopen) 4 ?scanner) = 0" by code_simp
    then have "k \<le> 4" using a by (metis not_le)
    then show "openers (flex_lexer ?fopen) k ?scanner \<le> MAX_NEST"
      using openers_le [of "flex_lexer ?fopen" k ?scanner] by (simp add: MAX_NEST_def)
  qed
  then have b: "\<forall>input. ?fopen CFG_PATH = Some input \<longrightarrow> brackets_fit ?fopen (c_config Config_new) (Some CFG_PATH) input" by simp
  define res where "res = ref_parse (flex_lexer ?fopen) 5 ?scanner YUndef (Go Settings [] (parsectx_init (config_reinit (c_config Config_new))))"
  have "case snd res of Ret n ctx \<Rightarrow> n \<noteq> 0 | _ \<Rightarrow> False" unfolding res_def by code_simp
  then obtain l' n ctx where "res = (l', Ret n ctx)" "n \<noteq> 0" by (cases res) (auto split: pstate.splits)
  then have "refused ?fopen (c_config Config_new) (Some CFG_PATH) broken_text"
    unfolding refused_def res_def by blast
  then show ?thesis
    using start_answers [OF b sample_not_running,
      of "\<lambda>d r c i w. Some (w, [])" "\<lambda>k m. (k, []) # m"
        "\<lparr>m_to = [], m_from = [], m_smtpserver = [], m_username = [], m_password = []\<rparr>" sample_watcher
        "\<lambda>skip. sample_watcher" "''zzhelper''" 7] by auto
qed

end
