(* ===== verification/Detection.thy ===== *)
theory Detection
  imports Startup
begin

text \<open>
  From the kernel to the alert: an inotify event, the watcher that decodes it,
  the judge that checks the file against the database, and the actions of the
  rule that the configuration sets up for its directory.
\<close>

section \<open>One event\<close>

lemma watch_one_event:
  assumes "event_wf ev" "ev_field ev \<noteq> []" "wd_hash w (sint (ev_wd ev)) = Some d"
  shows "watch (Some (encode_event ev)) w
    = Some (w\<lparr>the_judge := analysis d (d @ ''/'' @ c_string (ev_field ev)) (the_judge w)\<rparr>)"
  using watch_loop_events [of "[ev]" 0 "[]" w "\<lambda>_. d"] assms
  by (simp add: watch_def notify_event_def)

lemma checked_change:
  assumes "sqlite_files eng rows good" "good (fileDB j)" "distinct (map fst (rows (fileDB j)))"
    "e_eng e = eng" "time_ok (e_dbnow e)" "name_ok f" "length f \<le> 450" "\<not> filtered e f j"
    "map_of (rows (fileDB j)) f = Some (s, ts)" "interval j = 0 \<or> ts + interval j \<le> e_now e"
    "get_checksum (e_sys e) (e_stack e) f '''' = (rc, c)" "rc \<noteq> FILE_NOT_EXIST" "c \<noteq> s"
  shows "\<exists>db'. do_analysis e d f j = Some (del_task f (j\<lparr>fileDB := db'\<rparr>), [(CHANGED, d, f)])
    \<and> map_of (rows db') = (map_of (rows (fileDB j)))(f \<mapsto> (c, e_dbnow e))"
proof -
  note law = assms(1)
  have db: "sqlite_files.db_ok rows good (fileDB j)" using assms(2,3) by (simp add: sqlite_files.db_ok_def [OF law])
  have en: "sqlite_files.env_ok eng e" using assms(4,5) by (simp add: sqlite_files.env_ok_def [OF law])
  have due: "\<not> (interval j \<noteq> 0 \<and> e_now e < ts + interval j)" using assms(10) by auto
  show ?thesis
    using sqlite_files.do_analysis_checked [OF law en db assms(6,7,8) _ due assms(11), of s d] assms(9,12,13)
    by (auto simp: sqlite_files.files_def [OF law])
qed

text \<open>
  C2. A change is reported: when inotify delivers an event for a name in a
  watched directory, the watcher queues it; when the judge takes it and the
  file, which no filter excludes, has another checksum than the database, which
  is not younger than the interval, then the database takes the new checksum and
  the actions run that the configuration names for the nearest configured path
  above the directory.
\<close>

theorem change_is_reported:
  assumes "event_wf ev" "ev_field ev \<noteq> []" "wd_hash w (sint (ev_wd ev)) = Some d" "queue (the_judge w) = []"
    and "f = d @ ''/'' @ c_string (ev_field ev)" "name_ok f" "length f \<le> 450" "\<not> filtered e f (the_judge w)"
    and "sqlite_files eng rows good" "good (fileDB (the_judge w))" "distinct (map fst (rows (fileDB (the_judge w))))"
    and "e_eng e = eng" "time_ok (e_dbnow e)" "map_of (rows (fileDB (the_judge w))) f = Some (s, ts)"
    and "interval (the_judge w) = 0 \<or> ts + interval (the_judge w) \<le> e_now e"
    and "get_checksum (e_sys e) (e_stack e) f '''' = (rc, c)" "rc \<noteq> FILE_NOT_EXIST" "c \<noteq> s"
    and "small (root cfg)" "load_alerter cfg (init_action empty_alerter) = Inr (alerter (the_judge w))"
    and "nearest cfg CHANGED d p acts"
  shows "\<exists>w' j'. watch (Some (encode_event ev)) w = Some w' \<and> loop_step e (the_judge w') = Some (j', [(CHANGED, d, f)])
    \<and> map_of (rows (fileDB j')) = (map_of (rows (fileDB (the_judge w))))(f \<mapsto> (c, e_dbnow e))
    \<and> queue j' = [] \<and> alert_calls j' [(CHANGED, d, f)] = calls_for acts CHANGED d f"
proof -
  let ?j = "the_judge w"
  have w': "watch (Some (encode_event ev)) w = Some (w\<lparr>the_judge := analysis d f ?j\<rparr>)"
    using watch_one_event [OF assms(1-3)] assms(5) by simp
  have same: "?j\<lparr>queue := []\<rparr> = ?j" using assms(4) by (cases ?j) simp
  have "loop_step e (analysis d f ?j) = do_analysis e d f (?j\<lparr>queue := []\<rparr>)"
    using assms(4) by (simp add: loop_step_def analysis_def add_queue_def)
  then have q: "loop_step e (analysis d f ?j) = do_analysis e d f ?j" unfolding same .
  obtain db' where db': "do_analysis e d f ?j = Some (del_task f (?j\<lparr>fileDB := db'\<rparr>), [(CHANGED, d, f)])"
    "map_of (rows db') = (map_of (rows (fileDB ?j)))(f \<mapsto> (c, e_dbnow e))"
    using checked_change [OF assms(9,10,11,12,13,6,7,8,14,15,16,17,18)] by blast
  have "alert (alerter ?j) CHANGED d f = calls_for acts CHANGED d f"
    using alert_nearest [OF assms(19,20), of CHANGED d f] assms(21) by blast
  then have "alert_calls (del_task f (?j\<lparr>fileDB := db'\<rparr>)) [(CHANGED, d, f)] = calls_for acts CHANGED d f"
    by (simp add: alert_calls_def del_task_def)
  then show ?thesis using w' q db' assms(4) by (simp add: del_task_def)
qed

section \<open>A witness\<close>

definition changed_os :: os where
  "changed_os = \<lparr>lstat = (\<lambda>f. Inr \<lparr>st_size = 5, st_mode = 0x8000, st_uid = 0, st_gid = 0\<rparr>), open_read = (\<lambda>f. None)\<rparr>"

definition changed_env :: "table env" where
  "changed_env = (sample_env 200)\<lparr>e_sys := changed_os\<rparr>"

definition changed_judge :: "act alerter \<Rightarrow> (table, act) judge" where
  "changed_judge a = \<lparr>interval = 60, ignored = [], grep = [], alerter = a, fileDB = [(''/etc/a'', ''old'', 100)],
     taskmap = Map.empty, global_id = 0, timers = [], queue = []\<rparr>"

definition changed_event :: inotify_event where
  "changed_event = \<lparr>ev_wd = 1, ev_mask = 2, ev_cookie = 0, ev_field = [97, 0, 0, 0]\<rparr>"

theorem change_is_reported_witness:
  "\<exists>a j'. load_alerter sample_cfg (init_action empty_alerter) = Inr a \<and>
    map_option (\<lambda>w'. loop_step changed_env (the_judge w'))
      (watch (Some (encode_event changed_event)) ((new_watcher 3 True (changed_judge a))\<lparr>wd_hash := [1 \<mapsto> ''/etc'']\<rparr>))
      = Some (Some (j', [(CHANGED, ''/etc'', ''/etc/a'')]))
    \<and> alert_calls j' [(CHANGED, ''/etc'', ''/etc/a'')] = [(Send_mail, CHANGED, ''/etc'', ''/etc/a'')]"
proof -
  obtain a :: "act alerter" where a: "load_alerter sample_cfg (init_action empty_alerter) = Inr a"
    using sample_rules by (cases "load_alerter sample_cfg (init_action empty_alerter :: act alerter)") auto
  let ?w = "(new_watcher 3 True (changed_judge a))\<lparr>wd_hash := [1 \<mapsto> ''/etc'']\<rparr>"
  have "event_wf changed_event" "ev_field changed_event \<noteq> []" by (simp_all add: changed_event_def event_wf_def)
  moreover have "wd_hash ?w (sint (ev_wd changed_event)) = Some ''/etc''" "queue (the_judge ?w) = []"
    by (simp_all add: changed_event_def new_watcher_def changed_judge_def)
  moreover have "''/etc/a'' = ''/etc'' @ ''/'' @ c_string (ev_field changed_event)"
    unfolding changed_event_def by code_simp
  moreover have "name_ok ''/etc/a''" "length ''/etc/a'' \<le> 450" "\<not> filtered changed_env ''/etc/a'' (the_judge ?w)"
    by (simp_all add: name_ok_def text_ok_def filtered_def match_def new_watcher_def changed_judge_def)
  moreover have "distinct (map fst (fileDB (the_judge ?w)))" "map_of (fileDB (the_judge ?w)) ''/etc/a'' = Some (''old'', 100)"
    "interval (the_judge ?w) = 0 \<or> 100 + interval (the_judge ?w) \<le> e_now changed_env"
    "e_eng changed_env = ref_engine" "time_ok (e_dbnow changed_env)"
    by (simp_all add: new_watcher_def changed_judge_def changed_env_def sample_env_def time_ok_def)
  moreover have "get_checksum (e_sys changed_env) (e_stack changed_env) ''/etc/a'' '''' = (0, ''5:32768:0:0:'')"
  proof -
    have d: "digit 0 = CHR ''0''" "digit 2 = CHR ''2''" "digit 3 = CHR ''3''" "digit 5 = CHR ''5''" "digit 6 = CHR ''6''"
      "digit 7 = CHR ''7''" "digit 8 = CHR ''8''" by code_simp+
    then have "show_int 5 = ''5''" "show_int 32768 = ''32768''" "show_int 0 = ''0''" by (simp_all add: show_int_def show_nat.simps)
    then show ?thesis
      by (simp add: changed_env_def changed_os_def get_checksum_def S_ISREG_def S_IFMT_def get_md5sum_def checksum_string_def cast_int_def)
  qed
  moreover have "(0::int) \<noteq> FILE_NOT_EXIST" "''5:32768:0:0:'' \<noteq> ''old''" by (simp_all add: FILE_NOT_EXIST_def)
  moreover have "load_alerter sample_cfg (init_action empty_alerter) = Inr (alerter (the_judge ?w))"
    using a by (simp add: new_watcher_def changed_judge_def)
  moreover have "nearest sample_cfg CHANGED ''/etc'' ''/etc'' [''mail'']"
  proof -
    have l: "listed sample_cfg = [(''/etc'', sample_check)]" by code_simp
    have f: "actions_for sample_cfg sample_check (level_name CHANGED) = [''mail'']" by code_simp
    have t: "length (stringtrim ''/etc'') \<noteq> 0" by code_simp
    show ?thesis using t by (auto simp: nearest_def configured_def last_check_def l f covers_def is_sep_def)
  qed
  ultimately obtain w' j' where r: "watch (Some (encode_event changed_event)) ?w = Some w'"
    "loop_step changed_env (the_judge w') = Some (j', [(CHANGED, ''/etc'', ''/etc/a'')])"
    "alert_calls j' [(CHANGED, ''/etc'', ''/etc/a'')] = calls_for [''mail''] CHANGED ''/etc'' ''/etc/a''"
    using change_is_reported [OF _ _ _ _ _ _ _ _ ref_files.sqlite_files_axioms, of changed_event ?w "''/etc''" "''/etc/a''"
      changed_env "''old''" 100 0 "''5:32768:0:0:''" sample_cfg "''/etc''" "[''mail'']"] sample_small
    by blast
  then show ?thesis using a by (intro exI [of _ a] exI [of _ j']) (simp add: calls_for_def)
qed

end
