(* ===== verification/Spec2Isabelle.thy ===== *)
theory Spec2Isabelle
  imports Mailman Logger Configfile MessageQueue Exceptions CopySetting Detection
begin

text \<open>
  Verification development for check_realtime, a daemon that watches files with
  inotify, compares MD5 sums with those in a database, and alerts when a file
  has changed.

  The program.  \<open>src/monitor.cpp\<close> reads a configuration with libconfig
  (vendored, version 1.4.9), starts the judge and timer threads and runs the
  watcher.  The watcher (\<open>src/file_watcher.cpp\<close>) registers directories with
  inotify and hands events to the judge (\<open>src/file_analysis.cpp\<close>), which
  computes checksums (\<open>src/util.cpp\<close>, \<open>src/md5.c\<close>), compares them with the
  database (\<open>src/file_db.cpp\<close>), delays repeated checks through the timer manager
  (\<open>src/TaskTimerManager.hpp\<close>) and calls the alert rule of the nearest
  directory (\<open>src/alerter.cpp\<close>); mail goes through \<open>src/mailman.cpp\<close>, messages
  through \<open>src/file_log.cpp\<close>.  \<open>src/configfile.c\<close> reads ini files.

  Foundations.
    \<^item> \<open>Prelude\<close>: machine types, fact collections, generic lemmas.
    \<^item> \<open>Interfaces\<close>: the contracts between components, as locales: an
      incremental digest (interpreted in \<open>Md5\<close>) and a map from names (interpreted
      on the groups of \<open>Setting\<close>).  Locale \<open>sqlite_files\<close> of \<open>FileDb\<close> states what is
      assumed of SQLite, and is interpreted on a reference engine; locale
      \<open>token_source\<close> of \<open>Ast\<close> is what the parser needs of a scanner, and is
      interpreted on the scanner in \<open>ScanLoop\<close>; locale \<open>tree_view\<close> of \<open>Startup\<close> is
      what the loaders of the rules see of a tree, and is interpreted on reading
      and on writing.
    \<^item> \<open>Cstring\<close>, \<open>Cdouble\<close>, \<open>Decimal\<close>: C strings and number scanners and
      printers; \<open>double\<close> as sign, mantissa and exponent; \<open>atof\<close> and \<open>%.*g\<close>.

  The program's own components.
    \<^item> \<open>Md5\<close>: \<open>md5.c\<close>, with its 64 operations unrolled as in the source.  Its block
      function is the loop of RFC 1321; appending in pieces and finishing gives
      the digest of the concatenation; the 64-bit length wraps.
    \<^item> \<open>Util\<close>, \<open>Alerter\<close>, \<open>FileDb\<close>, \<open>Timer\<close>: the corresponding files; the database
      behaves as a map on the names it can record (\<open>None\<close> stands for a statement
      longer than its buffer), timers are conserved, an alert takes the rule of
      the nearest directory.
    \<^item> \<open>Analysis\<close>: the judge as a step relation of its two threads over one state;
      verdicts on every branch, alerts are spaced for the names the database can
      record and repeated for those it rejects, no notification is lost, and a
      check put off is queued again whatever happens in between.
    \<^item> \<open>Watcher\<close>: traversal with an explicit stack, tied to the hash table of
      descriptors and to the checks of the judge; decoding of event buffers.
    \<^item> \<open>Monitor\<close>: the loaders of the configuration with their exceptions, the pid
      file, and \<open>main\<close> as the sequence of its effects.
    \<^item> \<open>Mailman\<close>, \<open>Logger\<close>, \<open>Configfile\<close>: the SMTP dialogue against a
      table of the turns and codes of the protocol, the log and its rotation and
      the ini reader against an abstract reading of their results.

    \<^item> \<open>Exceptions\<close> (\<open>myexception.cpp\<close>): the text of a thrown exception, cached, with
      a line for each of at most ten frames.
    \<^item> \<open>MessageQueue\<close>: opening Unix sockets with retries; no program uses it.
    \<^item> \<open>Startup\<close> and \<open>Detection\<close> compose the parts: from the text of the
      configuration file through libconfig to the alert rules, and from an inotify
      event through the queue, the checksum and the database to the alert.

  libconfig.
    \<^item> \<open>Setting\<close>, \<open>SettingValue\<close>, \<open>Lookup\<close> (\<open>lib/libconfig.c\<close>): the setting tree as a
      value; a pointer to a setting is its path of indices.  Groups refine maps
      from names; setters and getters read back; lookup walks components.
    \<^item> \<open>SettingCpp\<close>, \<open>ConfigCpp\<close> (\<open>lib/libconfigcpp.c++\<close>): the C++ classes with their
      exceptions; every call keeps the tree well-typed.
    \<^item> \<open>Scanctx\<close> (\<open>lib/strbuf.c\<close>, \<open>lib/scanctx.c\<close>): the string buffer, the include stack.
    \<^item> \<open>Scanner\<close> (\<open>lib/scanner.c\<close>): the flex tables as they are, the matching loop
      with back-up, the actions.  \<open>ScanRules\<close> states the rules of \<open>lib/scanner.l\<close> as
      regular expressions and proves by a checked bisimulation of derivatives
      that the tables find the longest match and the first rule.  \<open>ScanLoop\<close>: every
      call returns, tokens are typed, positions count line ends.
    \<^item> \<open>Grammar\<close> (\<open>lib/grammar.c\<close>): the LALR tables and the driver with its growing
      stack and error recovery.  \<open>Pushdown\<close> is the reference it refines, \<open>ParseTree\<close>
      what the actions build, \<open>Ast\<close> the language of the files and its meaning.
    \<^item> \<open>ConfigIO\<close> (\<open>lib/libconfig.c\<close>): reading and writing whole configurations.
      \<open>Lexing\<close>, \<open>TokenTexts\<close> and \<open>ReadBack\<close> prove that what is written is read back.
    \<^item> \<open>CopySetting\<close> (\<open>contrib/copy_setting.c\<close>): a copy is an equal tree.

  Bounds and fuel.  The driver takes at most 12 steps for a token, so reading
  with fuel \<open>12 (k + 1)\<close> is enough for \<open>k\<close> tokens; the stack of the parser ends at
  \<open>YYMAXDEPTH = 10000\<close>, which \<open>MAX_NEST = 1600\<close> open brackets do not reach.  The
  loop of the scanner is a partial function; it returns because the lengths of
  what is left of the open buffers decrease lexicographically, at most ten
  files deep.  \<open>yy_goto\<close> follows at most three default states (fuel 4); the
  bisimulation visits fewer than 2000 pairs.

  Parameters.  The file system, the clock, inotify, poll, sockets, regular
  expressions of POSIX and SQLite are arguments of the definitions that use
  them; laws about them are named hypotheses or locale assumptions.

  Not modelled.  The old log (\<open>replication_log.cpp\<close>) belongs to no program of the
  build and is an earlier copy of \<open>file_log.cpp\<close>; stubs, tests, examples, the test framework and the Ruby
  binding only call the library; \<open>sqlite3.h\<close> is third-party.  Of the modelled
  files: allocation (it does not fail, and what is freed is not tracked),
  console output, the switch of locale, the input buffering of flex, wrapper
  objects of the C++ interface, and whether the run-time test of the byte order
  in \<open>md5.c\<close> takes the little-endian branch.  \<open>nbytes\<close> in \<open>md5_append\<close> does not
  overflow, so pieces are shorter than \<open>2 ^ 28\<close> bytes.  A check of the judge is
  one step, while the code locks the task table and the timers call by call and
  lets the timer thread run in between.
\<close>

end
